(* ===== verification/Go_Prelude.thy ===== *)
theory Go_Prelude
  imports Main "HOL-Library.Monad_Syntax" "HOL-Library.Multiset"
begin

text \<open>
  What the components of the repository share: the Go operations on slices (indexing, slicing,
  assignment to an element), with the run-time panic of Go as the value \<^const>\<open>None\<close>, and the
  generic lemmas on lists that the component theories use.

  \<^item> A Go function that can panic returns an \<open>option\<close>; \<open>None\<close> is the panic, and the \<open>do\<close>
    notation of the library threads it as the Go run time does (nothing after the panic runs).
  \<^item> \<open>idx xs i\<close> is \<open>xs[i]\<close>; \<open>slice xs lo hi\<close> is \<open>xs[lo:hi]\<close>; \<open>slice_from xs lo\<close> is \<open>xs[lo:]\<close>;
    \<open>set_idx xs i v\<close> is \<open>xs[i] = v\<close>. A slice is modelled by its elements, so its capacity is its
    length: the one difference with Go is that \<open>xs[lo:hi]\<close> with \<open>len(xs) < hi \<le> cap(xs)\<close> panics here.
  \<^item> Go's \<open>int\<close> is the unbounded \<open>int\<close> wherever it counts terms, log indices, replies or tasks.
\<close>

section \<open>Slices\<close>

definition idx :: "'a list \<Rightarrow> int \<Rightarrow> 'a option" where
  "idx xs i = (if 0 \<le> i \<and> i < int (length xs) then Some (xs ! nat i) else None)"

definition slice :: "'a list \<Rightarrow> int \<Rightarrow> int \<Rightarrow> 'a list option" where
  "slice xs lo hi =
     (if 0 \<le> lo \<and> lo \<le> hi \<and> hi \<le> int (length xs)
      then Some (take (nat (hi - lo)) (drop (nat lo) xs)) else None)"

definition slice_from :: "'a list \<Rightarrow> int \<Rightarrow> 'a list option" where
  "slice_from xs lo = slice xs lo (int (length xs))"

definition set_idx :: "'a list \<Rightarrow> int \<Rightarrow> 'a \<Rightarrow> 'a list option" where
  "set_idx xs i v = (if 0 \<le> i \<and> i < int (length xs) then Some (xs[nat i := v]) else None)"

named_theorems go_simps \<open>facts about the Go slice operations\<close>

lemma idx_eq_Some [go_simps]:
  "idx xs i = Some x \<longleftrightarrow> 0 \<le> i \<and> i < int (length xs) \<and> x = xs ! nat i"
  by (auto simp: idx_def)

lemma idx_eq_None [go_simps]: "idx xs i = None \<longleftrightarrow> i < 0 \<or> int (length xs) \<le> i"
  by (auto simp: idx_def)

lemma idx_in_range: "0 \<le> i \<Longrightarrow> i < int (length xs) \<Longrightarrow> idx xs i = Some (xs ! nat i)"
  by (simp add: idx_def)

lemma idx_int [simp]: "k < length xs \<Longrightarrow> idx xs (int k) = Some (xs ! k)"
  by (simp add: idx_def)

lemma idx_zero [simp]: "xs \<noteq> [] \<Longrightarrow> idx xs 0 = Some (hd xs)"
  by (simp add: idx_def hd_conv_nth)

lemma idx_zero_Cons [simp]: "idx (x # xs) 0 = Some x"
  by (simp add: idx_def)

lemma idx_last [simp]: "xs \<noteq> [] \<Longrightarrow> idx xs (int (length xs) - 1) = Some (last xs)"
  by (cases xs rule: rev_cases) (auto simp: idx_def nat_add_distrib)

lemma idx_Nil [simp]: "idx [] i = None"
  by (simp add: idx_def)

lemma idx_mem: "idx xs i = Some x \<Longrightarrow> x \<in> set xs"
  by (auto simp: go_simps)

lemma slice_prefix [simp]:
  "0 \<le> hi \<Longrightarrow> hi \<le> int (length xs) \<Longrightarrow> slice xs 0 hi = Some (take (nat hi) xs)"
  by (simp add: slice_def)

lemma slice_prefix_eq [go_simps]:
  "slice xs 0 hi = Some ys \<longleftrightarrow> 0 \<le> hi \<and> hi \<le> int (length xs) \<and> ys = take (nat hi) xs"
  by (auto simp: slice_def)

lemma slice_from_eq [go_simps]:
  "slice_from xs lo = Some ys \<longleftrightarrow> 0 \<le> lo \<and> lo \<le> int (length xs) \<and> ys = drop (nat lo) xs"
  by (auto simp: slice_from_def slice_def nat_diff_distrib)

lemma slice_from_in_range [simp]:
  "0 \<le> lo \<Longrightarrow> lo \<le> int (length xs) \<Longrightarrow> slice_from xs lo = Some (drop (nat lo) xs)"
  by (simp add: slice_from_eq)

lemma set_idx_eq [go_simps]:
  "set_idx xs i v = Some ys \<longleftrightarrow> 0 \<le> i \<and> i < int (length xs) \<and> ys = xs[nat i := v]"
  by (auto simp: set_idx_def)

lemma map_le_SomeI: "(\<And>i c. f i = Some c \<Longrightarrow> g i = Some c) \<Longrightarrow> f \<subseteq>\<^sub>m g"
  by (auto simp: map_le_def)

lemma set_idx_in_range [simp]:
  "0 \<le> i \<Longrightarrow> i < int (length xs) \<Longrightarrow> set_idx xs i v = Some (xs[nat i := v])"
  by (simp add: set_idx_def)

lemma those_eq_Some: "those xs = Some ys \<longleftrightarrow> length xs = length ys \<and> (\<forall>i < length ys. xs ! i = Some (ys ! i))"
proof (induction xs arbitrary: ys)
  case (Cons x xs)
  show ?case
  proof (cases ys)
    case (Cons y ys')
    with Cons.IH show ?thesis
      by (auto simp: nth_Cons split: option.splits nat.splits)
  qed (auto split: option.splits)
qed auto

lemma sorted_wrt_cong:
  "(\<And>x y. x \<in> set xs \<Longrightarrow> y \<in> set xs \<Longrightarrow> P x y = Q x y) \<Longrightarrow> sorted_wrt P xs = sorted_wrt Q xs"
  by (induction xs) auto

section \<open>Counting and majorities\<close>

lemma card_nth_filter: "card {i. i < length xs \<and> P (xs ! i)} = length (filter P xs)"
  by (simp add: length_filter_conv_card)

lemma length_filter_sort: "length (filter P (sort xs)) = length (filter P xs)"
  by (metis filter_sort length_sort)

lemma sorted_count_ge:
  assumes "sorted ys" and "k < length ys"
  shows "length ys - k \<le> length (filter (\<lambda>x. ys ! k \<le> x) ys)"
proof -
  have "filter (\<lambda>x. ys ! k \<le> x) (drop k ys) = drop k ys"
    using assms by (intro filter_True) (auto simp: in_set_conv_nth sorted_nth_mono)
  then have "length ys - k = length (filter (\<lambda>x. ys ! k \<le> x) (drop k ys))" by simp
  also have "\<dots> \<le> length (filter (\<lambda>x. ys ! k \<le> x) ys)"
    by (metis append_take_drop_id filter_append length_append le_add2)
  finally show ?thesis .
qed

lemma sorted_count_gt:
  fixes ys :: "'a :: linorder list"
  assumes "sorted ys" and "k < length ys" and "ys ! k < v"
  shows "length (filter (\<lambda>x. v \<le> x) ys) \<le> length ys - Suc k"
proof -
  have "filter (\<lambda>x. v \<le> x) (take (Suc k) ys) = []"
  proof (rule filter_False, rule ballI)
    fix x
    assume "x \<in> set (take (Suc k) ys)"
    then obtain j where "j < length (take (Suc k) ys)" and x: "x = take (Suc k) ys ! j"
      by (auto simp: in_set_conv_nth)
    with assms(1,2) have "x \<le> ys ! k" by (simp add: sorted_nth_mono)
    with assms(3) show "\<not> v \<le> x" by simp
  qed
  then have "length (filter (\<lambda>x. v \<le> x) ys) = length (filter (\<lambda>x. v \<le> x) (drop (Suc k) ys))"
    by (metis append_take_drop_id filter_append append_Nil)
  also have "\<dots> \<le> length ys - Suc k"
    by (metis length_drop length_filter_le)
  finally show ?thesis .
qed

text \<open>
  What a replicated system asks of its quorums: they are subsets of the peers, and each holds more
  than half of them. Any two of them then share a peer.
\<close>

locale majority_system =
  fixes universe :: "'p set" and quorum :: "'p set \<Rightarrow> bool"
  assumes finite_universe: "finite universe"
    and quorum_subset: "quorum Q \<Longrightarrow> Q \<subseteq> universe"
    and quorum_card: "quorum Q \<Longrightarrow> card universe < 2 * card Q"
begin

lemma quorums_meet:
  assumes "quorum Q" and "quorum Q'"
  shows "\<exists>p. p \<in> Q \<and> p \<in> Q'"
proof (rule ccontr)
  assume "\<nexists>p. p \<in> Q \<and> p \<in> Q'"
  then have "Q \<inter> Q' = {}" by blast
  moreover have "finite Q" "finite Q'"
    using assms finite_universe quorum_subset by (auto intro: finite_subset)
  ultimately have "card (Q \<union> Q') = card Q + card Q'" by (simp add: card_Un_disjoint)
  moreover have "card (Q \<union> Q') \<le> card universe"
    using assms by (intro card_mono finite_universe) (auto dest: quorum_subset)
  ultimately show False using assms [THEN quorum_card] by simp
qed

lemma quorum_nonempty: "quorum Q \<Longrightarrow> Q \<noteq> {}"
  using quorums_meet by blast

end

section \<open>Running a list of steps\<close>

fun run_all :: "('op \<Rightarrow> 's \<Rightarrow> 's option) \<Rightarrow> 'op list \<Rightarrow> 's \<Rightarrow> 's option" where
  "run_all exec [] s = Some s"
| "run_all exec (e # es) s = do { t \<leftarrow> exec e s; run_all exec es t }"

lemma run_all_append: "run_all exec (xs @ ys) s = do { t \<leftarrow> run_all exec xs s; run_all exec ys t }"
  by (induction xs arbitrary: s) (auto split: Option.bind_split)

text \<open>A machine whose steps of some kind keep an invariant keeps it over a run of such steps.\<close>

locale invariant_machine =
  fixes exec :: "'op \<Rightarrow> 's \<Rightarrow> 's option" and ok :: "'op \<Rightarrow> bool" and inv :: "'s \<Rightarrow> bool"
  assumes exec_inv: "exec e s = Some t \<Longrightarrow> ok e \<Longrightarrow> inv s \<Longrightarrow> inv t"
begin

lemma run_inv: "run_all exec es s = Some t \<Longrightarrow> list_all ok es \<Longrightarrow> inv s \<Longrightarrow> inv t"
  by (induction es arbitrary: s) (auto simp: Option.bind_eq_Some_conv dest: exec_inv)

end

text \<open>
  A deterministic state machine behind an implementation: \<open>abs\<close> forgets what the implementation adds,
  and an operation that completes has the effect of \<open>step\<close> on what remains. Two replicas that
  complete the same operations, up to what \<open>step\<close> does not look at, then agree.
\<close>

locale replica =
  fixes exec :: "'op \<Rightarrow> 's \<Rightarrow> 's option" and abs :: "'s \<Rightarrow> 'a" and step :: "'op \<Rightarrow> 'a \<Rightarrow> 'a"
    and view :: "'op \<Rightarrow> 'op"
  assumes exec_step: "exec e s = Some s' \<Longrightarrow> abs s' = step e (abs s)"
    and step_view: "step (view e) = step e"
begin

lemma run_fold: "run_all exec es s = Some s' \<Longrightarrow> abs s' = fold step es (abs s)"
  by (induction es arbitrary: s) (auto simp: Option.bind_eq_Some_conv dest: exec_step)

lemma fold_view: "fold step (map view es) a = fold step es a"
  by (induction es arbitrary: a) (simp_all add: step_view)

lemma replicas_agree:
  assumes "run_all exec es s = Some s'" and "run_all exec fs t = Some t'"
    and "map view es = map view fs" and "abs s = abs t"
  shows "abs s' = abs t'"
  using assms run_fold fold_view by metis

end

section \<open>What holds of every result\<close>

text \<open>
  \<open>results Q m\<close>: if \<open>m\<close> does not panic, its value satisfies \<open>Q\<close>. The rules follow the \<open>do\<close> notation, so a
  long handler is taken apart without case distinctions on what it reads.
\<close>

definition results :: "('a \<Rightarrow> bool) \<Rightarrow> 'a option \<Rightarrow> bool" where
  "results Q m \<longleftrightarrow> (\<forall>x. m = Some x \<longrightarrow> Q x)"

named_theorems results_intros \<open>rules that take a computation apart\<close>

lemma results_bind [results_intros]: "(\<And>x. results Q (f x)) \<Longrightarrow> results Q (Option.bind m f)"
  by (auto simp: results_def Option.bind_eq_Some_conv)

lemma results_if [results_intros]: "results Q m \<Longrightarrow> results Q m' \<Longrightarrow> results Q (if b then m else m')"
  by simp

lemma results_let [results_intros]: "(\<And>y. y = x \<Longrightarrow> results Q (f y)) \<Longrightarrow> results Q (Let x f)"
  by (simp add: Let_def)

lemma results_Some [results_intros]: "Q x \<Longrightarrow> results Q (Some x)"
  by (simp add: results_def)

lemma resultsD: "results Q m \<Longrightarrow> m = Some x \<Longrightarrow> Q x"
  by (simp add: results_def)

section \<open>Retrying\<close>

text \<open>
  A loop \<open>for { ... }\<close> whose body returns a value or goes on in a new state, with fuel for the number of
  turns; \<open>None\<close> from the body is a panic or a call inside it that does not return.
\<close>

fun retry :: "('s \<Rightarrow> ('s + 'v) option) \<Rightarrow> nat \<Rightarrow> 's \<Rightarrow> 'v option" where
  "retry body 0 s = None"
| "retry body (Suc fuel) s = do { r \<leftarrow> body s; case r of Inl s' \<Rightarrow> retry body fuel s' | Inr v \<Rightarrow> Some v }"

text \<open>
  The contract of such a loop: a value it returns is good, as long as the state keeps an invariant; and
  if the rank of the state falls with every turn, it returns.
\<close>

locale retry_loop =
  fixes body :: "'s \<Rightarrow> ('s + 'v) option" and inv :: "'s \<Rightarrow> bool" and good :: "'v \<Rightarrow> bool"
  assumes body_value: "inv s \<Longrightarrow> body s = Some (Inr v) \<Longrightarrow> good v"
    and body_next: "inv s \<Longrightarrow> body s = Some (Inl s') \<Longrightarrow> inv s'"
begin

lemma retry_good: "retry body fuel s = Some v \<Longrightarrow> inv s \<Longrightarrow> good v"
proof (induction fuel arbitrary: s)
  case (Suc fuel)
  then obtain r where r: "body s = Some r" by (auto simp: Option.bind_eq_Some_conv)
  with Suc body_value body_next show ?case by (cases r) auto
qed simp

lemma retry_total:
  assumes "\<And>s. inv s \<Longrightarrow> \<exists>r. body s = Some r \<and> (\<forall>s'. r = Inl s' \<longrightarrow> rank s' < (rank s :: nat))" and "inv s"
  shows "\<exists>v. \<forall>fuel > rank s. retry body fuel s = Some v"
  using assms(2)
proof (induction "rank s" arbitrary: s rule: less_induct)
  case less
  obtain r where r: "body s = Some r" "\<forall>s'. r = Inl s' \<longrightarrow> rank s' < rank s" using assms(1) [OF less.prems] by blast
  show ?case
  proof (cases r)
    case (Inl s')
    then obtain v where "\<forall>fuel > rank s'. retry body fuel s' = Some v"
      using less.hyps [of s'] r body_next [OF less.prems] by auto
    with r Inl have "retry body fuel s = Some v" if "fuel > rank s" for fuel
      using that by (cases fuel) auto
    then show ?thesis by blast
  next
    case (Inr v)
    with r have "retry body fuel s = Some v" if "fuel > rank s" for fuel using that by (cases fuel) auto
    then show ?thesis by blast
  qed
qed

end

section \<open>Decimal numbers\<close>

text \<open>\<open>strconv.Itoa\<close>\<close>

definition digit :: "nat \<Rightarrow> char" where
  "digit d = char_of (48 + d)"

fun digits :: "nat \<Rightarrow> string" where
  "digits n = (if n < 10 then [digit n] else digits (n div 10) @ [digit (n mod 10)])"

declare digits.simps [simp del]

definition Itoa :: "int \<Rightarrow> string" where
  "Itoa i = (if i < 0 then ''-'' @ digits (nat (- i)) else digits (nat i))"

definition digit_val :: "char \<Rightarrow> nat" where
  "digit_val c = of_char c - 48"

lemma digit_val_digit [simp]: "d < 10 \<Longrightarrow> digit_val (digit d) = d"
  by (simp add: digit_val_def digit_def)

lemma digits_value: "foldl (\<lambda>n c. 10 * n + digit_val c) 0 (digits n) = n"
proof (induction n rule: digits.induct)
  case (1 n)
  then show ?case by (cases "n < 10") (simp_all add: digits.simps [of n])
qed

lemma digits_inj: "digits n = digits m \<Longrightarrow> n = m"
  by (metis digits_value)

lemma digits_chars: "c \<in> set (digits n) \<Longrightarrow> \<exists>d < 10. c = digit d"
proof (induction n rule: digits.induct)
  case (1 n)
  have "n mod 10 < 10" by simp
  with 1 show ?case by (cases "n < 10") (auto simp: digits.simps [of n] simp del: mod_less_divisor)
qed

lemma digit_code: "d < 10 \<Longrightarrow> digit d = c \<Longrightarrow> of_char c = 48 + d"
  by (auto simp: digit_def)

lemma digit_other: "d < 10 \<Longrightarrow> digit d \<noteq> CHR ''-''" "d < 10 \<Longrightarrow> digit d \<noteq> CHR ''r''"
  using digit_code [of d "CHR ''-''"] digit_code [of d "CHR ''r''"] by auto

lemma no_dash: "CHR ''-'' \<notin> set (digits n)" and no_r: "CHR ''r'' \<notin> set (digits n)"
  by (auto dest!: digits_chars) (metis digit_other)+

lemma digits_nonempty: "digits n \<noteq> []"
  by (simp add: digits.simps [of n])

lemma dash_split:
  "CHR ''-'' \<notin> set xs \<Longrightarrow> CHR ''-'' \<notin> set xs' \<Longrightarrow> xs @ CHR ''-'' # ys = xs' @ CHR ''-'' # ys' \<longleftrightarrow> xs = xs' \<and> ys = ys'"
  by (induction xs arbitrary: xs') (case_tac xs'; auto)+

lemma Itoa_inj: "Itoa i = Itoa j \<longleftrightarrow> i = j"
proof
  assume eq: "Itoa i = Itoa j"
  have "digits n \<noteq> CHR ''-'' # xs" for n xs using no_dash [of n] by auto
  then show "i = j" using eq digits_inj by (auto simp: Itoa_def split: if_splits dest!: digits_inj) metis+
qed simp

lemma last_dash_split:
  assumes "CHR ''-'' \<notin> set ys" and "CHR ''-'' \<notin> set ys'"
  shows "xs @ CHR ''-'' # ys = xs' @ CHR ''-'' # ys' \<longleftrightarrow> xs = xs' \<and> ys = ys'"
proof -
  have "xs @ CHR ''-'' # ys = xs' @ CHR ''-'' # ys' \<longleftrightarrow> rev ys @ CHR ''-'' # rev xs = rev ys' @ CHR ''-'' # rev xs'"
    by (metis append.assoc append_Cons append_Nil rev.simps(2) rev_append rev_is_rev_conv)
  then show ?thesis using dash_split [of "rev ys" "rev ys'" "rev xs" "rev xs'"] assms by auto
qed

end
