(* ===== verification/Raft_State.thy ===== *)
theory Raft_State
  imports Go_Prelude
begin

text \<open>
  The state of one Raft peer (\<open>src/src/raft/raft.go\<close>, \<open>src/src/raft/persister.go\<close>): the log entry
  \<open>Command\<close>, the message \<open>ApplyMsg\<close> to the service, the \<open>Persister\<close>, the struct \<open>Raft\<close>, and the
  helpers that read it (index arithmetic, \<open>getLastCommandIndex\<close>, \<open>GetState\<close>, \<open>persist\<close>,
  \<open>readPersist\<close>, \<open>readSnapshot\<close>).

  Type parameters: \<open>'c\<close> is the dynamic type of the \<open>interface{}\<close> command (\<open>None\<close> is \<open>nil\<close>), \<open>'b\<close>
  the type of the bytes that the encoder of \<open>encoding/gob\<close> produces. That encoder is not part of
  the repository: it is the argument \<open>enc\<close> of every definition that calls \<open>persist\<close>, its decoder
  the argument \<open>dec\<close>.

  Channels: \<open>AppendEntryCh\<close> and \<open>RequestVoteCh\<close> are unbuffered and only written by goroutines of
  their own, so each is modelled by the number of goroutines that wait to send on it. \<open>ApplyCh\<close> is
  the sequence of messages the service has received, \<open>ApplyGo\<close> the messages held by goroutines that
  wait to send them.

  The second half of the theory is about the shape of a log: contiguous indices
  (\<open>log_from\<close>, \<open>contig\<close>, \<open>log_wf\<close>) and the finite map from indices to entries that a log stands for
  (\<open>log_map\<close>), with the laws of reading, cutting and extending it.
\<close>

section \<open>Data\<close>

record 'c command =
  CommandIndex :: int
  Command :: "'c option"
  CommandTerm :: int

record ('c, 'b) apply_msg =
  CommandValid :: bool
  MsgCommand :: "'c option"
  MsgCommandIndex :: int
  UseSnapshot :: bool
  Snapshot :: "'b list"

datatype role = Leader | Follower | Candidate

record 'b Persister =
  raftstate :: "'b list"
  snapshot :: "'b list"

record ('c, 'b) Raft =
  peers :: nat
  persister :: "'b Persister"
  me :: nat
  State :: role
  CurrentTerm :: int
  VotedFor :: int
  Votes :: int
  Timer :: int
  AppendEntryCh :: nat
  RequestVoteCh :: nat
  Log :: "'c command list"
  CommitIndex :: int
  LastApplied :: int
  NextIndex :: "int list"
  MatchIndex :: "int list"
  ApplyCh :: "('c, 'b) apply_msg list"
  ApplyGo :: "('c, 'b) apply_msg list"
  Process :: bool

text \<open>\<open>&Raft{}\<close> with the number of peers and the own number filled in: every other field is zero.\<close>

definition zero_Raft :: "nat \<Rightarrow> nat \<Rightarrow> 'b Persister \<Rightarrow> ('c, 'b) Raft" where
  "zero_Raft n i ps =
     \<lparr>peers = n, persister = ps, me = i, State = Leader, CurrentTerm = 0, VotedFor = 0, Votes = 0,
      Timer = 0, AppendEntryCh = 0, RequestVoteCh = 0, Log = [], CommitIndex = 0, LastApplied = 0,
      NextIndex = [], MatchIndex = [], ApplyCh = [], ApplyGo = [], Process = False\<rparr>"

type_synonym ('c, 'b) encoder = "int \<times> int \<times> 'c command list \<Rightarrow> 'b list"
type_synonym ('c, 'b) decoder = "'b list \<Rightarrow> (int \<times> int \<times> 'c command list) option"

definition HEARTBEAT :: int where "HEARTBEAT = 50"
definition ELECTION_MIN :: int where "ELECTION_MIN = 300"
definition ELECTION_MAX :: int where "ELECTION_MAX = 700"

section \<open>The persister\<close>

definition MakePersister :: "'b Persister" where
  "MakePersister = \<lparr>raftstate = [], snapshot = []\<rparr>"

definition Copy :: "'b Persister \<Rightarrow> 'b Persister" where
  "Copy ps = MakePersister\<lparr>raftstate := raftstate ps, snapshot := snapshot ps\<rparr>"

definition SaveRaftState :: "'b list \<Rightarrow> 'b Persister \<Rightarrow> 'b Persister" where
  "SaveRaftState st ps = ps\<lparr>raftstate := st\<rparr>"

definition ReadRaftState :: "'b Persister \<Rightarrow> 'b list" where
  "ReadRaftState ps = raftstate ps"

definition RaftStateSize :: "'b Persister \<Rightarrow> int" where
  "RaftStateSize ps = int (length (raftstate ps))"

definition SaveStateAndSnapshot :: "'b list \<Rightarrow> 'b list \<Rightarrow> 'b Persister \<Rightarrow> 'b Persister" where
  "SaveStateAndSnapshot st sn ps = ps\<lparr>raftstate := st, snapshot := sn\<rparr>"

definition SaveSnapshot :: "'b list \<Rightarrow> 'b Persister \<Rightarrow> 'b Persister" where
  "SaveSnapshot sn ps = ps\<lparr>snapshot := sn\<rparr>"

definition ReadSnapshot :: "'b Persister \<Rightarrow> 'b list" where
  "ReadSnapshot ps = snapshot ps"

definition SnapshotSize :: "'b Persister \<Rightarrow> int" where
  "SnapshotSize ps = int (length (snapshot ps))"

lemmas persister_defs = MakePersister_def Copy_def SaveRaftState_def ReadRaftState_def
  RaftStateSize_def SaveStateAndSnapshot_def SaveSnapshot_def ReadSnapshot_def SnapshotSize_def

section \<open>Reading the state\<close>

definition calculateRealIndex :: "int \<Rightarrow> ('c, 'b) Raft \<Rightarrow> int option" where
  "calculateRealIndex raw rf = do { c \<leftarrow> idx (Log rf) 0; Some (raw + CommandIndex c) }"

definition calculateLocalIndex :: "int \<Rightarrow> ('c, 'b) Raft \<Rightarrow> int option" where
  "calculateLocalIndex real rf = do { c \<leftarrow> idx (Log rf) 0; Some (real - CommandIndex c) }"

text \<open>\<open>generate_rand\<close> takes the value of \<open>rand.Int()\<close>; the result is in milliseconds.\<close>

definition generate_rand :: "int \<Rightarrow> int" where
  "generate_rand r = r mod (ELECTION_MAX - ELECTION_MIN) + ELECTION_MIN"

definition getTerm :: "('c, 'b) Raft \<Rightarrow> int" where
  "getTerm rf = CurrentTerm rf"

definition getState :: "('c, 'b) Raft \<Rightarrow> role" where
  "getState rf = State rf"

definition setState :: "role \<Rightarrow> ('c, 'b) Raft \<Rightarrow> ('c, 'b) Raft" where
  "setState st rf = rf\<lparr>State := st\<rparr>"

definition getLastCommandIndex :: "('c, 'b) Raft \<Rightarrow> int option" where
  "getLastCommandIndex rf =
     do { c \<leftarrow> idx (Log rf) (int (length (Log rf)) - 1); Some (CommandIndex c) }"

definition getLastCommandTerm :: "('c, 'b) Raft \<Rightarrow> int option" where
  "getLastCommandTerm rf =
     do { c \<leftarrow> idx (Log rf) (int (length (Log rf)) - 1); Some (CommandTerm c) }"

definition GetRaftStateSize :: "('c, 'b) Raft \<Rightarrow> int" where
  "GetRaftStateSize rf = RaftStateSize (persister rf)"

definition GetState :: "('c, 'b) Raft \<Rightarrow> int \<times> bool" where
  "GetState rf = (if State rf = Leader then (CurrentTerm rf, True) else (CurrentTerm rf, False))"

definition ReadSnapshotData :: "('c, 'b) Raft \<Rightarrow> 'b list" where
  "ReadSnapshotData rf = ReadSnapshot (persister rf)"

section \<open>Saving and restoring\<close>

definition persist :: "('c, 'b) encoder \<Rightarrow> ('c, 'b) Raft \<Rightarrow> ('c, 'b) Raft" where
  "persist enc rf =
     rf\<lparr>persister := SaveRaftState (enc (CurrentTerm rf, VotedFor rf, Log rf)) (persister rf)\<rparr>"

text \<open>
  \<open>readPersist\<close> decodes three values. \<open>dec\<close> gives all three or none: a failing \<open>Decode\<close> leaves its
  target unchanged and its error is ignored by the code, so on \<open>None\<close> the fields keep their values.
\<close>

definition readPersist :: "('c, 'b) decoder \<Rightarrow> 'b list \<Rightarrow> ('c, 'b) Raft \<Rightarrow> ('c, 'b) Raft option" where
  "readPersist dec data rf =
     (if length data < 1 then Some rf
      else let rf1 = (case dec data of
                        None \<Rightarrow> rf
                      | Some (t, v, l) \<Rightarrow> rf\<lparr>CurrentTerm := t, VotedFor := v, Log := l\<rparr>)
           in do { c \<leftarrow> idx (Log rf1) 0;
                   Some (rf1\<lparr>CommitIndex := CommandIndex c, LastApplied := CommandIndex c\<rparr>) })"

definition snapshot_msg :: "'b list \<Rightarrow> ('c, 'b) apply_msg" where
  "snapshot_msg data = \<lparr>CommandValid = False, MsgCommand = None, MsgCommandIndex = 0,
     UseSnapshot = True, Snapshot = data\<rparr>"

definition readSnapshot :: "'b list \<Rightarrow> ('c, 'b) Raft \<Rightarrow> ('c, 'b) Raft" where
  "readSnapshot data rf =
     (if length data < 1 then rf else rf\<lparr>ApplyGo := ApplyGo rf @ [snapshot_msg data]\<rparr>)"

section \<open>The shape of a log\<close>

fun log_from :: "int \<Rightarrow> 'c command list \<Rightarrow> bool" where
  "log_from b [] = True"
| "log_from b (c # cs) = (CommandIndex c = b \<and> log_from (b + 1) cs)"

fun contig :: "'c command list \<Rightarrow> bool" where
  "contig [] = True"
| "contig (c # cs) = log_from (CommandIndex c) (c # cs)"

definition log_wf :: "'c command list \<Rightarrow> bool" where
  "log_wf l \<longleftrightarrow> l \<noteq> [] \<and> contig l"

definition base_of :: "'c command list \<Rightarrow> int" where
  "base_of l = CommandIndex (hd l)"

definition last_of :: "'c command list \<Rightarrow> int" where
  "last_of l = CommandIndex (last l)"

text \<open>The finite map from indices to entries that a log stands for.\<close>

definition log_map :: "'c command list \<Rightarrow> int \<Rightarrow> 'c command option" where
  "log_map l i = (if l = [] then None else idx l (i - base_of l))"

definition entries_map :: "int \<Rightarrow> 'c command list \<Rightarrow> int \<Rightarrow> 'c command option" where
  "entries_map b es i = idx es (i - b)"

named_theorems log_simps \<open>laws of contiguous logs\<close>

lemma log_from_nth: "log_from b l \<Longrightarrow> k < length l \<Longrightarrow> CommandIndex (l ! k) = b + int k"
proof (induction l arbitrary: b k)
  case Nil
  then show ?case by simp
next
  case (Cons c l)
  then show ?case by (cases k) auto
qed

lemma log_fromI: "(\<And>k. k < length l \<Longrightarrow> CommandIndex (l ! k) = b + int k) \<Longrightarrow> log_from b l"
proof (induction l arbitrary: b)
  case Nil
  then show ?case by simp
next
  case (Cons c l)
  have "log_from (b + 1) l"
    by (rule Cons.IH) (use Cons.prems [of "Suc _"] in simp)
  with Cons.prems [of 0] show ?case by simp
qed

lemma log_from_iff: "log_from b l \<longleftrightarrow> (\<forall>k < length l. CommandIndex (l ! k) = b + int k)"
  by (auto intro: log_fromI log_from_nth)

lemma log_from_append [log_simps]:
  "log_from b (xs @ ys) \<longleftrightarrow> log_from b xs \<and> log_from (b + int (length xs)) ys"
  by (induction xs arbitrary: b) (auto simp: algebra_simps)

lemma log_from_take: "log_from b l \<Longrightarrow> log_from b (take n l)"
  by (simp add: log_from_iff)

lemma log_from_drop: "log_from b l \<Longrightarrow> n \<le> length l \<Longrightarrow> log_from (b + int n) (drop n l)"
  by (simp add: log_from_iff)

lemma contig_log_from: "contig l \<longleftrightarrow> l = [] \<or> log_from (base_of l) l"
  by (cases l) (auto simp: base_of_def)

lemma log_from_contig: "log_from b l \<Longrightarrow> contig l"
  by (cases l) auto

lemma log_wf_iff: "log_wf l \<longleftrightarrow> l \<noteq> [] \<and> log_from (base_of l) l"
  by (auto simp: log_wf_def contig_log_from)

lemma log_wf_nth: "log_wf l \<Longrightarrow> k < length l \<Longrightarrow> CommandIndex (l ! k) = base_of l + int k"
  by (simp add: log_wf_iff log_from_nth)

lemma last_of_eq: "log_wf l \<Longrightarrow> last_of l = base_of l + int (length l) - 1"
  using log_wf_nth [of l "length l - 1"]
  by (auto simp: last_of_def last_conv_nth log_wf_def of_nat_diff Suc_leI)

lemma base_le_last: "log_wf l \<Longrightarrow> base_of l \<le> last_of l"
  by (auto simp: last_of_eq log_wf_def Suc_leI)

lemma contig_take: "contig l \<Longrightarrow> contig (take n l)"
  by (cases l; cases n) (auto intro: log_from_take)

lemma contig_drop: "contig l \<Longrightarrow> contig (drop n l)"
  by (cases "n \<le> length l")
    (auto simp: contig_log_from [of l] intro: log_from_contig [OF log_from_drop])

lemma base_of_take [simp]: "0 < n \<Longrightarrow> base_of (take n l) = base_of l"
  by (cases l; cases n) (auto simp: base_of_def)

lemma base_of_append [simp]: "xs \<noteq> [] \<Longrightarrow> base_of (xs @ ys) = base_of xs"
  by (simp add: base_of_def)

lemma log_map_eq_Some:
  "log_map l i = Some c \<longleftrightarrow> l \<noteq> [] \<and> base_of l \<le> i \<and> i < base_of l + int (length l)
     \<and> c = l ! nat (i - base_of l)"
  by (auto simp: log_map_def go_simps)

lemma log_map_index: "log_wf l \<Longrightarrow> log_map l i = Some c \<Longrightarrow> CommandIndex c = i"
  by (auto simp: log_map_eq_Some log_wf_nth)

lemma dom_log_map: "log_wf l \<Longrightarrow> dom (log_map l) = {base_of l .. last_of l}"
  by (auto simp: log_map_def idx_def dom_def last_of_eq log_wf_def)

lemma log_map_in: "log_map l i = Some c \<Longrightarrow> c \<in> set l"
  by (auto simp: log_map_eq_Some)

lemma log_map_append [log_simps]:
  "xs \<noteq> [] \<Longrightarrow>
     log_map (xs @ ys) i =
       (if i < base_of xs + int (length xs) then log_map xs i
        else entries_map (base_of xs + int (length xs)) ys i)"
  by (auto simp: log_map_def entries_map_def idx_def nth_append nat_diff_distrib' nat_less_iff
      intro!: arg_cong [where f = "(!) ys"])

lemma log_map_take [log_simps]:
  "0 < n \<Longrightarrow> log_map (take n l) i = (if i < base_of l + int n then log_map l i else None)"
  by (cases "l = []") (auto simp: log_map_def idx_def nat_less_iff)

lemma log_map_from [log_simps]:
  "log_from b l \<Longrightarrow> log_map l i = entries_map b l i"
  by (cases l) (auto simp: log_map_def entries_map_def base_of_def)

lemma entries_map_drop [log_simps]:
  "entries_map b (drop n es) i = (if b \<le> i then entries_map (b - int n) es i else None)"
  by (auto simp: entries_map_def idx_def nat_diff_distrib nat_add_distrib algebra_simps
      intro!: arg_cong [where f = "(!) es"])

section \<open>Reading a well-formed log\<close>

lemma getLast_wf [simp]:
  assumes "Log rf \<noteq> []"
  shows "getLastCommandIndex rf = Some (last_of (Log rf))"
    and "getLastCommandTerm rf = Some (CommandTerm (last (Log rf)))"
  using assms by (simp_all add: getLastCommandIndex_def getLastCommandTerm_def last_of_def)

lemma calculate_wf [simp]:
  assumes "Log rf \<noteq> []"
  shows "calculateLocalIndex i rf = Some (i - base_of (Log rf))"
    and "calculateRealIndex i rf = Some (i + base_of (Log rf))"
  using assms by (simp_all add: calculateLocalIndex_def calculateRealIndex_def base_of_def)

lemma empty_log_panics [simp]:
  assumes "Log rf = []"
  shows "getLastCommandIndex rf = None" and "getLastCommandTerm rf = None"
    and "calculateLocalIndex i rf = None" and "calculateRealIndex i rf = None"
  using assms by (simp_all add: getLastCommandIndex_def getLastCommandTerm_def
      calculateLocalIndex_def calculateRealIndex_def)

lemma persist_simps [simp]:
  "peers (persist enc rf) = peers rf" "me (persist enc rf) = me rf"
  "State (persist enc rf) = State rf" "CurrentTerm (persist enc rf) = CurrentTerm rf"
  "VotedFor (persist enc rf) = VotedFor rf" "Votes (persist enc rf) = Votes rf"
  "Timer (persist enc rf) = Timer rf" "AppendEntryCh (persist enc rf) = AppendEntryCh rf"
  "RequestVoteCh (persist enc rf) = RequestVoteCh rf" "Log (persist enc rf) = Log rf"
  "CommitIndex (persist enc rf) = CommitIndex rf" "LastApplied (persist enc rf) = LastApplied rf"
  "NextIndex (persist enc rf) = NextIndex rf" "MatchIndex (persist enc rf) = MatchIndex rf"
  "ApplyCh (persist enc rf) = ApplyCh rf" "ApplyGo (persist enc rf) = ApplyGo rf"
  "Process (persist enc rf) = Process rf"
  "snapshot (persister (persist enc rf)) = snapshot (persister rf)"
  "raftstate (persister (persist enc rf)) = enc (CurrentTerm rf, VotedFor rf, Log rf)"
  by (simp_all add: persist_def SaveRaftState_def)

end
