(* ===== verification/Raft_Rpc.thy ===== *)
theory Raft_Rpc
  imports Raft_State
begin

text \<open>
  The RPC handlers of a Raft peer (\<open>src/src/raft/raft.go\<close>): \<open>RequestVote\<close>, \<open>AppendEntries\<close> with its
  helpers \<open>getIndexBeforeTerm\<close> and \<open>testStaleRPC\<close>, \<open>InstallSnapshot\<close>, and the call \<open>StartSnapshot\<close> of
  the service. Each runs under the peer's lock from its first to its last line, so each is one
  atomic function from the state to the new state and the reply; \<open>None\<close> is a run-time panic.
  A reply starts as the zero value of its struct, so a field the handler does not set is \<open>0\<close> or
  \<open>False\<close>. \<open>go func() { ch <- struct{}{} }()\<close> adds one waiting sender to the channel.

  The lemmas say, on a log with contiguous indices: what each handler returns on every branch
  (\<open>AppendEntries_wf\<close> against the loop-free reference \<open>AppendEntries_ref\<close>), that a successful
  \<open>AppendEntries\<close> leaves the leader's entries in the log, that its repetition changes nothing, that
  the log stays contiguous, and which vote is granted.
\<close>

section \<open>Arguments and replies\<close>

record RequestVoteArgs =
  rvTerm :: int
  rvCandidateId :: int
  rvLastLogIndex :: int
  rvLastLogTerm :: int

record RequestVoteReply =
  rvrTerm :: int
  rvrVoteGranted :: bool

record 'c AppendEntriesArgs =
  aeTerm :: int
  aeLeaderId :: int
  aePrevLogIndex :: int
  aePrevLogTerm :: int
  aeEntries :: "'c command list"
  aeLeaderCommit :: int

record AppendEntriesReply =
  aerTerm :: int
  aerSuccess :: bool
  aerNextIndex :: int

record ('c, 'b) InstallSnapshotArgs =
  isTerm :: int
  isLeaderId :: int
  isSnapshotIndex :: int
  isSnapshotData :: "'b list"
  isLastSnapshotCommand :: "'c command"

record InstallSnapshotReply =
  isrTerm :: int
  isrSuccess :: bool

section \<open>RequestVote\<close>

definition RequestVote ::
  "('c, 'b) encoder \<Rightarrow> RequestVoteArgs \<Rightarrow> ('c, 'b) Raft \<Rightarrow> (('c, 'b) Raft \<times> RequestVoteReply) option" where
  "RequestVote enc args rf =
     (if rvTerm args < CurrentTerm rf
      then Some (persist enc rf, \<lparr>rvrTerm = CurrentTerm rf, rvrVoteGranted = False\<rparr>)
      else
        let rf1 = (if rvTerm args > CurrentTerm rf
                   then persist enc (rf\<lparr>CurrentTerm := rvTerm args, State := Follower, VotedFor := - 1\<rparr>)
                   else rf);
            reject = (persist enc rf1, \<lparr>rvrTerm = CurrentTerm rf1, rvrVoteGranted = False\<rparr>)
        in do {
          lastTerm \<leftarrow> getLastCommandTerm rf1;
          if rvLastLogTerm args < lastTerm then Some reject
          else do {
            lastIndex \<leftarrow> getLastCommandIndex rf1;
            if rvLastLogTerm args = lastTerm \<and> rvLastLogIndex args < lastIndex then Some reject
            else if VotedFor rf1 = - 1
            then Some (persist enc (rf1\<lparr>VotedFor := rvCandidateId args,
                                        RequestVoteCh := Suc (RequestVoteCh rf1)\<rparr>),
                       \<lparr>rvrTerm = 0, rvrVoteGranted = True\<rparr>)
            else Some (persist enc rf1, \<lparr>rvrTerm = 0, rvrVoteGranted = False\<rparr>)
          }
        })"

section \<open>AppendEntries\<close>

text \<open>The loop of \<open>getIndexBeforeTerm\<close>: \<open>scanTerm l t n\<close> starts at local index \<open>n - 1\<close> and counts down.\<close>

fun scanTerm :: "'c command list \<Rightarrow> int \<Rightarrow> nat \<Rightarrow> int option" where
  "scanTerm l term 0 = Some (- 1)"
| "scanTerm l term (Suc i) =
     do { c \<leftarrow> idx l (int i); if CommandTerm c = term then scanTerm l term i else Some (int i) }"

definition getIndexBeforeTerm :: "int \<Rightarrow> ('c, 'b) Raft \<Rightarrow> int option" where
  "getIndexBeforeTerm realIndex rf =
     do {
       index \<leftarrow> calculateLocalIndex realIndex rf;
       if index \<le> 0 then Some realIndex
       else do {
         c \<leftarrow> idx (Log rf) index;
         i \<leftarrow> scanTerm (Log rf) (CommandTerm c) (nat (index + 1));
         calculateRealIndex (i + 1) rf
       }
     }"

text \<open>The loop of \<open>testStaleRPC\<close>: \<open>pos\<close> is \<open>index+i+1\<close>.\<close>

fun staleLoop :: "'c command list \<Rightarrow> int \<Rightarrow> 'c command list \<Rightarrow> bool option" where
  "staleLoop l pos [] = Some True"
| "staleLoop l pos (e # es) =
     (if pos < 0 then staleLoop l (pos + 1) es
      else do { c \<leftarrow> idx l pos; if c \<noteq> e then Some False else staleLoop l (pos + 1) es })"

definition testStaleRPC ::
  "int \<Rightarrow> int \<Rightarrow> 'c command list \<Rightarrow> ('c, 'b) Raft \<Rightarrow> bool option" where
  "testStaleRPC argsPrevLogIndex argsPrevLogTerm entries rf =
     do {
       index \<leftarrow> calculateLocalIndex argsPrevLogIndex rf;
       differs \<leftarrow> (if index \<ge> 0
                  then do { c \<leftarrow> idx (Log rf) index; Some (CommandTerm c \<noteq> argsPrevLogTerm) }
                  else Some False);
       if differs then Some False else staleLoop (Log rf) (index + 1) entries
     }"

definition advanceCommit :: "int \<Rightarrow> int \<Rightarrow> ('c, 'b) Raft \<Rightarrow> ('c, 'b) Raft" where
  "advanceCommit leaderCommit highestIndex rf =
     (if leaderCommit > CommitIndex rf
      then if leaderCommit > highestIndex
           then rf\<lparr>CommitIndex := highestIndex\<rparr> else rf\<lparr>CommitIndex := leaderCommit\<rparr>
      else rf)"

definition AppendEntries ::
  "('c, 'b) encoder \<Rightarrow> 'c AppendEntriesArgs \<Rightarrow> ('c, 'b) Raft
     \<Rightarrow> (('c, 'b) Raft \<times> AppendEntriesReply) option" where
  "AppendEntries enc args rf =
     (if aeTerm args < CurrentTerm rf
      then Some (persist enc rf,
                 \<lparr>aerTerm = CurrentTerm rf, aerSuccess = False, aerNextIndex = 0\<rparr>)
      else do {
        lastIndex \<leftarrow> getLastCommandIndex rf;
        stale \<leftarrow> (if aePrevLogIndex args + int (length (aeEntries args)) \<le> lastIndex
                 then testStaleRPC (aePrevLogIndex args) (aePrevLogTerm args) (aeEntries args) rf
                 else Some False);
        if stale
        then let rf1 = advanceCommit (aeLeaderCommit args) lastIndex rf
             in Some (persist enc (rf1\<lparr>CurrentTerm := aeTerm args,
                                       AppendEntryCh := Suc (AppendEntryCh rf1)\<rparr>),
                      \<lparr>aerTerm = 0, aerSuccess = True, aerNextIndex = 0\<rparr>)
        else if lastIndex < aePrevLogIndex args
        then Some (persist enc rf, \<lparr>aerTerm = 0, aerSuccess = False, aerNextIndex = lastIndex\<rparr>)
        else do {
          matchIndex \<leftarrow> calculateLocalIndex (aePrevLogIndex args) rf;
          mismatch \<leftarrow> (if matchIndex > - 1
                      then do { c \<leftarrow> idx (Log rf) matchIndex;
                                Some (CommandTerm c \<noteq> aePrevLogTerm args) }
                      else Some False);
          if mismatch
          then do {
            next \<leftarrow> getIndexBeforeTerm (aePrevLogIndex args) rf;
            l \<leftarrow> slice (Log rf) 0 matchIndex;
            Some (persist enc (rf\<lparr>Log := l\<rparr>),
                  \<lparr>aerTerm = 0, aerSuccess = False, aerNextIndex = next\<rparr>)
          }
          else do {
            l \<leftarrow> (if matchIndex + 1 > 0
                 then do { p \<leftarrow> slice (Log rf) 0 (matchIndex + 1); Some (p @ aeEntries args) }
                 else slice_from (aeEntries args) (- matchIndex - 1));
            highestIndex \<leftarrow> getLastCommandIndex (rf\<lparr>Log := l\<rparr>);
            let rf1 = advanceCommit (aeLeaderCommit args) highestIndex (rf\<lparr>Log := l\<rparr>);
            Some (persist enc (rf1\<lparr>CurrentTerm := aeTerm args,
                                   AppendEntryCh := Suc (AppendEntryCh rf1)\<rparr>),
                  \<lparr>aerTerm = 0, aerSuccess = True, aerNextIndex = 0\<rparr>)
          }
        }
      })"

section \<open>Snapshots\<close>

definition StartSnapshot ::
  "('c, 'b) encoder \<Rightarrow> 'b list \<Rightarrow> ('c, 'b) apply_msg \<Rightarrow> ('c, 'b) Raft \<Rightarrow> ('c, 'b) Raft option" where
  "StartSnapshot enc snap lastCommand rf =
     do {
       c0 \<leftarrow> idx (Log rf) 0;
       lastIndex \<leftarrow> getLastCommandIndex rf;
       let index = MsgCommandIndex lastCommand;
       if index \<le> CommandIndex c0 \<or> index > lastIndex then Some rf
       else do {
         localIndex \<leftarrow> calculateLocalIndex index rf;
         l \<leftarrow> slice_from (Log rf) localIndex;
         let rf1 = persist enc (rf\<lparr>Log := l\<rparr>);
         Some (rf1\<lparr>persister := SaveSnapshot ([] @ snap) (persister rf1)\<rparr>)
       }
     }"

definition InstallSnapshot ::
  "('c, 'b) encoder \<Rightarrow> ('c, 'b) InstallSnapshotArgs \<Rightarrow> ('c, 'b) Raft
     \<Rightarrow> (('c, 'b) Raft \<times> InstallSnapshotReply) option" where
  "InstallSnapshot enc args rf =
     (if isTerm args < CurrentTerm rf
      then Some (rf, \<lparr>isrTerm = CurrentTerm rf, isrSuccess = False\<rparr>)
      else do {
        c0 \<leftarrow> idx (Log rf) 0;
        if isSnapshotIndex args < CommandIndex c0
        then Some (rf, \<lparr>isrTerm = 0, isrSuccess = False\<rparr>)
        else
          let rf1 = rf\<lparr>AppendEntryCh := Suc (AppendEntryCh rf),
                       persister := SaveSnapshot (isSnapshotData args) (persister rf),
                       Log := [isLastSnapshotCommand args],
                       LastApplied := CommandIndex (isLastSnapshotCommand args),
                       CommitIndex := CommandIndex (isLastSnapshotCommand args)\<rparr>;
              rf2 = persist enc rf1
          in Some (rf2\<lparr>ApplyGo := ApplyGo rf2 @ [snapshot_msg (isSnapshotData args)]\<rparr>,
                   \<lparr>isrTerm = 0, isrSuccess = True\<rparr>)
      })"

section \<open>Reference definitions\<close>

text \<open>
  The position of a log's end, ordered as Raft orders logs: first the term of the last entry,
  then its index.
\<close>

datatype log_pos = LogPos (pos_term: int) (pos_index: int)

instantiation log_pos :: linorder
begin

definition less_eq_log_pos :: "log_pos \<Rightarrow> log_pos \<Rightarrow> bool" where
  "p \<le> q \<longleftrightarrow> pos_term p < pos_term q \<or> pos_term p = pos_term q \<and> pos_index p \<le> pos_index q"

definition less_log_pos :: "log_pos \<Rightarrow> log_pos \<Rightarrow> bool" where
  "p < q \<longleftrightarrow> pos_term p < pos_term q \<or> pos_term p = pos_term q \<and> pos_index p < pos_index q"

instance
  by standard (auto simp: less_eq_log_pos_def less_log_pos_def intro: log_pos.expand)

end

definition end_pos :: "'c command list \<Rightarrow> log_pos" where
  "end_pos l = LogPos (CommandTerm (last l)) (last_of l)"

text \<open>The condition under which a peer takes an AppendEntries for a repetition.\<close>

definition already_there :: "'c AppendEntriesArgs \<Rightarrow> 'c command list \<Rightarrow> bool" where
  "already_there args l \<longleftrightarrow>
     aePrevLogIndex args + int (length (aeEntries args)) \<le> last_of l
     \<and> (base_of l \<le> aePrevLogIndex args \<longrightarrow>
          map_option CommandTerm (log_map l (aePrevLogIndex args)) = Some (aePrevLogTerm args))
     \<and> (\<forall>k < length (aeEntries args). base_of l \<le> aePrevLogIndex args + 1 + int k \<longrightarrow>
          log_map l (aePrevLogIndex args + 1 + int k) = Some (aeEntries args ! k))"

text \<open>The log after the leader's entries have been written into it.\<close>

definition overwrite :: "'c AppendEntriesArgs \<Rightarrow> 'c command list \<Rightarrow> 'c command list" where
  "overwrite args l =
     (if base_of l \<le> aePrevLogIndex args
      then take (nat (aePrevLogIndex args - base_of l + 1)) l @ aeEntries args
      else drop (nat (base_of l - aePrevLogIndex args - 1)) (aeEntries args))"

definition prev_conflict :: "'c AppendEntriesArgs \<Rightarrow> 'c command list \<Rightarrow> bool" where
  "prev_conflict args l \<longleftrightarrow>
     base_of l \<le> aePrevLogIndex args
     \<and> CommandTerm (l ! nat (aePrevLogIndex args - base_of l)) \<noteq> aePrevLogTerm args"

definition accept :: "('c, 'b) encoder \<Rightarrow> 'c AppendEntriesArgs \<Rightarrow> 'c command list \<Rightarrow> ('c, 'b) Raft
     \<Rightarrow> ('c, 'b) Raft" where
  "accept enc args l rf =
     persist enc (rf\<lparr>Log := l, CurrentTerm := aeTerm args,
       CommitIndex := (if CommitIndex rf < aeLeaderCommit args
                       then min (aeLeaderCommit args) (last_of l) else CommitIndex rf),
       AppendEntryCh := Suc (AppendEntryCh rf)\<rparr>)"

fun term_start :: "'c command list \<Rightarrow> int \<Rightarrow> nat \<Rightarrow> nat" where
  "term_start l t 0 = 0"
| "term_start l t (Suc i) = (if CommandTerm (l ! i) = t then term_start l t i else Suc i)"

definition AppendEntries_ref ::
  "('c, 'b) encoder \<Rightarrow> 'c AppendEntriesArgs \<Rightarrow> ('c, 'b) Raft \<Rightarrow> ('c, 'b) Raft \<times> AppendEntriesReply" where
  "AppendEntries_ref enc args rf =
     (let l = Log rf; prev = nat (aePrevLogIndex args - base_of l) in
      if aeTerm args < CurrentTerm rf
      then (persist enc rf, \<lparr>aerTerm = CurrentTerm rf, aerSuccess = False, aerNextIndex = 0\<rparr>)
      else if already_there args l
      then (accept enc args l rf, \<lparr>aerTerm = 0, aerSuccess = True, aerNextIndex = 0\<rparr>)
      else if last_of l < aePrevLogIndex args
      then (persist enc rf, \<lparr>aerTerm = 0, aerSuccess = False, aerNextIndex = last_of l\<rparr>)
      else if prev_conflict args l
      then (persist enc (rf\<lparr>Log := take prev l\<rparr>),
            \<lparr>aerTerm = 0, aerSuccess = False,
             aerNextIndex = base_of l + int (term_start l (CommandTerm (l ! prev)) prev)\<rparr>)
      else (accept enc args (overwrite args l) rf,
            \<lparr>aerTerm = 0, aerSuccess = True, aerNextIndex = 0\<rparr>))"

section \<open>The loops\<close>

lemma scanTerm_eq: "n \<le> length l \<Longrightarrow> scanTerm l t n = Some (int (term_start l t n) - 1)"
  by (induction n) auto

lemma term_start_le: "term_start l t n \<le> n"
  by (induction n) auto

lemma term_start_same: "term_start l t n \<le> k \<Longrightarrow> k < n \<Longrightarrow> CommandTerm (l ! k) = t"
  by (induction n) (auto simp: less_Suc_eq split: if_splits)

lemma term_start_before: "0 < term_start l t n \<Longrightarrow> CommandTerm (l ! (term_start l t n - 1)) \<noteq> t"
  by (induction n) (auto split: if_splits)

lemma staleLoop_eq:
  "pos + int (length es) \<le> int (length l) \<Longrightarrow>
     staleLoop l pos es =
       Some (\<forall>k < length es. 0 \<le> pos + int k \<longrightarrow> l ! nat (pos + int k) = es ! k)"
proof (induction es arbitrary: pos)
  case Nil
  then show ?case by simp
next
  case (Cons e es)
  have "staleLoop l (pos + 1) es =
          Some (\<forall>k < length es. 0 \<le> pos + 1 + int k \<longrightarrow> l ! nat (pos + 1 + int k) = es ! k)"
    using Cons.prems by (intro Cons.IH) simp
  then show ?case
    using Cons.prems by (auto simp: All_less_Suc2 idx_in_range algebra_simps)
qed

lemma getIndexBeforeTerm_eq:
  assumes "log_wf (Log rf)" and "base_of (Log rf) \<le> i" and "i \<le> last_of (Log rf)"
  defines "k \<equiv> nat (i - base_of (Log rf))"
  shows "getIndexBeforeTerm i rf =
           Some (base_of (Log rf) + int (term_start (Log rf) (CommandTerm (Log rf ! k)) k))"
proof (cases "i = base_of (Log rf)")
  case True
  with assms show ?thesis by (simp add: getIndexBeforeTerm_def log_wf_def)
next
  case False
  have k: "k < length (Log rf)" "i - base_of (Log rf) = int k"
    using assms by (auto simp: last_of_eq)
  have "nat (int k + 1) = Suc k" by simp
  with False assms k show ?thesis
    by (simp add: getIndexBeforeTerm_def log_wf_def scanTerm_eq)
qed

section \<open>AppendEntries against its reference\<close>

lemma testStaleRPC_eq:
  assumes wf: "log_wf (Log rf)" and le: "prev + int (length es) \<le> last_of (Log rf)"
  shows "testStaleRPC prev t es rf =
           Some (already_there \<lparr>aeTerm = x, aeLeaderId = y, aePrevLogIndex = prev, aePrevLogTerm = t,
                                aeEntries = es, aeLeaderCommit = z\<rparr> (Log rf))"
    (is "_ = Some (already_there ?a _)")
proof -
  let ?l = "Log rf" and ?i = "prev - base_of (Log rf)"
  have len: "?i + int (length es) < int (length ?l)" and ne: "?l \<noteq> []"
    using wf le by (auto simp: last_of_eq log_wf_def)
  have loop: "staleLoop ?l (?i + 1) es =
      Some (\<forall>k < length es. 0 \<le> ?i + 1 + int k \<longrightarrow> ?l ! nat (?i + 1 + int k) = es ! k)"
    using len by (intro staleLoop_eq) simp
  have "already_there ?a ?l \<longleftrightarrow>
      (0 \<le> ?i \<longrightarrow> CommandTerm (?l ! nat ?i) = t)
      \<and> (\<forall>k < length es. 0 \<le> ?i + 1 + int k \<longrightarrow> ?l ! nat (?i + 1 + int k) = es ! k)"
    using le len ne by (auto simp: already_there_def log_map_def idx_def algebra_simps)
  then show ?thesis
    using loop len ne by (auto simp: testStaleRPC_def idx_in_range)
qed

lemma overwrite_not_empty:
  assumes "log_wf l" and "\<not> already_there args l" and "aePrevLogIndex args \<le> last_of l"
  shows "overwrite args l \<noteq> []"
proof (cases "base_of l \<le> aePrevLogIndex args")
  case True
  with assms show ?thesis by (auto simp: overwrite_def log_wf_def)
next
  case False
  then have "base_of l - aePrevLogIndex args - 1 < int (length (aeEntries args))"
    using assms base_le_last [of l] by (auto simp: already_there_def not_le)
  with False show ?thesis by (auto simp: overwrite_def)
qed

lemma advanceCommit_accept:
  assumes "Log rf = l"
  shows "persist enc (advanceCommit (aeLeaderCommit args) (last_of l) rf
           \<lparr>CurrentTerm := aeTerm args,
            AppendEntryCh := Suc (AppendEntryCh (advanceCommit (aeLeaderCommit args) (last_of l) rf))\<rparr>)
         = accept enc args l rf"
  using assms by (auto simp: advanceCommit_def accept_def min_def persist_def)

lemma accept_Log [simp]: "accept enc args l (rf\<lparr>Log := l'\<rparr>) = accept enc args l rf"
  by (simp add: accept_def)

lemma overwrite_slice:
  assumes "log_wf l" and "aePrevLogIndex args \<le> last_of l" and "overwrite args l \<noteq> []"
  defines "m \<equiv> aePrevLogIndex args - base_of l"
  shows "(if 0 < m + 1 then do { p \<leftarrow> slice l 0 (m + 1); Some (p @ aeEntries args) }
          else slice_from (aeEntries args) (- m - 1)) = Some (overwrite args l)"
proof (cases "base_of l \<le> aePrevLogIndex args")
  case True
  with assms show ?thesis by (simp add: overwrite_def last_of_eq)
next
  case False
  then have "overwrite args l = drop (nat (- m - 1)) (aeEntries args)"
    by (simp add: overwrite_def m_def)
  with False assms(3) show ?thesis by (simp add: m_def)
qed

lemma AppendEntries_wf:
  assumes wf: "log_wf (Log rf)"
  shows "AppendEntries enc args rf = Some (AppendEntries_ref enc args rf)"
proof (cases "aeTerm args < CurrentTerm rf")
  case True
  then show ?thesis by (simp add: AppendEntries_def AppendEntries_ref_def Let_def)
next
  case ct: False
  let ?l = "Log rf" and ?p = "aePrevLogIndex args"
  have ne: "?l \<noteq> []" using wf by (simp add: log_wf_def)
  have stale: "(if ?p + int (length (aeEntries args)) \<le> last_of ?l
       then testStaleRPC ?p (aePrevLogTerm args) (aeEntries args) rf else Some False)
       = Some (already_there args ?l)"
    using testStaleRPC_eq [OF wf, of ?p "aeEntries args" "aePrevLogTerm args" "aeTerm args"
        "aeLeaderId args" "aeLeaderCommit args"]
    by (auto simp: already_there_def)
  show ?thesis
  proof (cases "already_there args ?l \<or> last_of ?l < ?p")
    case True
    then show ?thesis
      using ct ne stale
      by (auto simp: AppendEntries_def AppendEntries_ref_def Let_def advanceCommit_accept)
  next
    case False
    then have nt: "\<not> already_there args ?l" and le: "?p \<le> last_of ?l" by auto
    have pos: "?p - base_of ?l < int (length ?l)"
      using le wf by (simp add: last_of_eq)
    have mm: "(if ?p - base_of ?l > - 1
        then do { c \<leftarrow> idx ?l (?p - base_of ?l); Some (CommandTerm c \<noteq> aePrevLogTerm args) }
        else Some False) = Some (prev_conflict args ?l)"
      using pos by (auto simp: prev_conflict_def idx_in_range)
    show ?thesis
    proof (cases "prev_conflict args ?l")
      case True
      then have "getIndexBeforeTerm ?p rf =
          Some (base_of ?l + int (term_start ?l (CommandTerm (?l ! nat (?p - base_of ?l)))
            (nat (?p - base_of ?l))))"
        using wf le by (intro getIndexBeforeTerm_eq) (auto simp: prev_conflict_def)
      with True show ?thesis
        using ct ne stale nt le mm pos
        by (simp add: AppendEntries_def AppendEntries_ref_def Let_def prev_conflict_def)
    next
      case nc: False
      note ow = overwrite_not_empty [OF wf nt le]
      with nc show ?thesis
        using ct ne stale nt le mm overwrite_slice [OF wf le ow]
          advanceCommit_accept [of "rf\<lparr>Log := overwrite args ?l\<rparr>" "overwrite args ?l" enc args]
        by (simp add: AppendEntries_def AppendEntries_ref_def Let_def)
    qed
  qed
qed

lemma accept_simps [simp]:
  "Log (accept enc args l rf) = l" "CurrentTerm (accept enc args l rf) = aeTerm args"
  "CommitIndex (accept enc args l rf) =
     (if CommitIndex rf < aeLeaderCommit args then min (aeLeaderCommit args) (last_of l)
      else CommitIndex rf)"
  "State (accept enc args l rf) = State rf" "VotedFor (accept enc args l rf) = VotedFor rf"
  "Votes (accept enc args l rf) = Votes rf" "LastApplied (accept enc args l rf) = LastApplied rf"
  "AppendEntryCh (accept enc args l rf) = Suc (AppendEntryCh rf)"
  by (simp_all add: accept_def)

lemma overwrite_takeE:
  assumes "log_wf l" and "base_of l \<le> aePrevLogIndex args" and "aePrevLogIndex args \<le> last_of l"
  obtains n where "overwrite args l = take n l @ aeEntries args" and "0 < n" and "n \<le> length l"
    and "base_of l + int n = aePrevLogIndex args + 1"
  by (rule that [of "nat (aePrevLogIndex args - base_of l + 1)"])
    (use assms in \<open>auto simp: overwrite_def last_of_eq\<close>)

lemma overwrite_from:
  assumes "log_wf l" and "log_from (aePrevLogIndex args + 1) (aeEntries args)"
    and "aePrevLogIndex args \<le> last_of l" and "overwrite args l \<noteq> []"
  shows "log_from (base_of l) (overwrite args l)"
proof (cases "base_of l \<le> aePrevLogIndex args")
  case True
  then obtain n where "overwrite args l = take n l @ aeEntries args" and "n \<le> length l"
    and "base_of l + int n = aePrevLogIndex args + 1"
    using overwrite_takeE assms(1,3) by metis
  with assms show ?thesis
    by (simp add: log_from_append log_wf_iff log_from_take)
next
  case False
  then have "nat (base_of l - aePrevLogIndex args - 1) \<le> length (aeEntries args)"
    using assms(4) by (auto simp: overwrite_def)
  from log_from_drop [OF assms(2) this] False show ?thesis
    by (simp add: overwrite_def)
qed

lemma overwrite_wf:
  assumes "log_wf l" and "log_from (aePrevLogIndex args + 1) (aeEntries args)"
    and "aePrevLogIndex args \<le> last_of l" and "overwrite args l \<noteq> []"
  shows "log_wf (overwrite args l)" and "base_of (overwrite args l) = base_of l"
proof -
  note from_base = overwrite_from [OF assms]
  show "base_of (overwrite args l) = base_of l"
    using log_from_nth [OF from_base, of 0] assms(4) by (simp add: base_of_def hd_conv_nth)
  with from_base assms(4) show "log_wf (overwrite args l)" by (simp add: log_wf_iff)
qed

text \<open>The map of the overwritten log: the old entries up to the previous index, then the leader's.\<close>

lemma log_map_overwrite:
  assumes "log_wf l" and "log_from (aePrevLogIndex args + 1) (aeEntries args)"
    and "aePrevLogIndex args \<le> last_of l" and "overwrite args l \<noteq> []"
  shows "log_map (overwrite args l) i =
           (if i < base_of l then None
            else if i \<le> aePrevLogIndex args then log_map l i
            else entries_map (aePrevLogIndex args + 1) (aeEntries args) i)"
proof (cases "base_of l \<le> aePrevLogIndex args")
  case True
  then obtain n where n: "overwrite args l = take n l @ aeEntries args" "0 < n" "n \<le> length l"
    "base_of l + int n = aePrevLogIndex args + 1"
    using overwrite_takeE assms(1,3) by metis
  moreover have "log_map l i = None" if "i < base_of l"
    using that by (simp add: log_map_def idx_def)
  moreover have "l \<noteq> []" using assms(1) by (simp add: log_wf_def)
  ultimately show ?thesis
    by (auto simp: log_map_append log_map_take)
next
  case False
  have "log_map (overwrite args l) i = entries_map (base_of l) (overwrite args l) i"
    using overwrite_from [OF assms] by (rule log_map_from)
  with False show ?thesis by (simp add: overwrite_def entries_map_drop)
qed

lemma entries_map_at:
  "k < length es \<Longrightarrow> entries_map b es (b + int k) = Some (es ! k)"
  by (simp add: entries_map_def)

text \<open>What a successful AppendEntries does, on both of its branches.\<close>

lemma AppendEntries_successE:
  assumes "AppendEntries enc args rf = Some (rf', r)" and "aerSuccess r" and "log_wf (Log rf)"
  obtains (stale) "\<not> aeTerm args < CurrentTerm rf" "already_there args (Log rf)"
      "rf' = accept enc args (Log rf) rf"
    | (written) "\<not> aeTerm args < CurrentTerm rf" "\<not> already_there args (Log rf)"
      "aePrevLogIndex args \<le> last_of (Log rf)" "\<not> prev_conflict args (Log rf)"
      "overwrite args (Log rf) \<noteq> []" "rf' = accept enc args (overwrite args (Log rf)) rf"
  using assms AppendEntries_wf [OF assms(3), of enc args] overwrite_not_empty [OF assms(3), of args]
  by (auto simp: AppendEntries_ref_def Let_def not_less split: if_splits)

lemma last_of_overwrite:
  assumes "log_wf l" and "log_from (aePrevLogIndex args + 1) (aeEntries args)"
    and "aePrevLogIndex args \<le> last_of l" and "overwrite args l \<noteq> []"
  shows "last_of (overwrite args l) = aePrevLogIndex args + int (length (aeEntries args))"
proof (cases "base_of l \<le> aePrevLogIndex args")
  case True
  then obtain n where "overwrite args l = take n l @ aeEntries args" "n \<le> length l"
    "base_of l + int n = aePrevLogIndex args + 1"
    using overwrite_takeE assms(1,3) by metis
  with overwrite_wf [OF assms] show ?thesis by (simp add: last_of_eq)
next
  case False
  with assms(4) overwrite_wf [OF assms] show ?thesis
    by (auto simp: last_of_eq overwrite_def of_nat_diff)
qed

text \<open>After a success the same request is recognised as a repetition.\<close>

lemma success_already_there:
  assumes "AppendEntries enc args rf = Some (rf', r)" and "aerSuccess r" and "log_wf (Log rf)"
    and fr: "log_from (aePrevLogIndex args + 1) (aeEntries args)"
  shows "already_there args (Log rf')" and "log_wf (Log rf')"
    and "base_of (Log rf') = base_of (Log rf)"
proof -
  have "already_there args (Log rf') \<and> log_wf (Log rf') \<and> base_of (Log rf') = base_of (Log rf)"
    using assms(1-3)
  proof (cases rule: AppendEntries_successE)
    case stale
    with assms(3) show ?thesis by simp
  next
    case written
    note a = assms(3) fr written(3) written(5)
    have "log_map (Log rf) (aePrevLogIndex args) =
        Some (Log rf ! nat (aePrevLogIndex args - base_of (Log rf)))"
      if "base_of (Log rf) \<le> aePrevLogIndex args"
      using that written(3) assms(3)
      by (auto simp: log_map_eq_Some last_of_eq log_wf_def)
    with written overwrite_wf [OF a] last_of_overwrite [OF a] show ?thesis
      by (auto simp: already_there_def log_map_overwrite [OF a] entries_map_at prev_conflict_def)
  qed
  then show "already_there args (Log rf')" and "log_wf (Log rf')"
    and "base_of (Log rf') = base_of (Log rf)" by auto
qed

lemma already_there_entry:
  "already_there args l \<Longrightarrow> k < length (aeEntries args) \<Longrightarrow> base_of l \<le> aePrevLogIndex args + 1 + int k
     \<Longrightarrow> log_map l (aePrevLogIndex args + 1 + int k) = Some (aeEntries args ! k)"
  by (simp add: already_there_def)

lemma success_keeps_prefix:
  assumes "AppendEntries enc args rf = Some (rf', r)" and "aerSuccess r" and "log_wf (Log rf)"
    and fr: "log_from (aePrevLogIndex args + 1) (aeEntries args)" and "i \<le> aePrevLogIndex args"
  shows "log_map (Log rf') i = log_map (Log rf) i"
  using assms(1-3)
proof (cases rule: AppendEntries_successE)
  case written
  have "log_map (Log rf) i = None" if "i < base_of (Log rf)"
    using that by (simp add: log_map_def idx_def)
  with written assms(5) show ?thesis
    by (simp add: log_map_overwrite [OF assms(3) fr written(3) written(5)])
qed simp

section \<open>Voting on a sequence of requests\<close>

fun serve_votes ::
  "('c, 'b) encoder \<Rightarrow> RequestVoteArgs list \<Rightarrow> ('c, 'b) Raft
     \<Rightarrow> (('c, 'b) Raft \<times> (RequestVoteArgs \<times> RequestVoteReply) list) option" where
  "serve_votes enc [] rf = Some (rf, [])"
| "serve_votes enc (a # as) rf =
     do { (rf1, r) \<leftarrow> RequestVote enc a rf;
          (rf2, rs) \<leftarrow> serve_votes enc as rf1;
          Some (rf2, (a, r) # rs) }"

definition grants :: "int \<Rightarrow> (RequestVoteArgs \<times> RequestVoteReply) list \<Rightarrow> nat" where
  "grants t rs = length (filter (\<lambda>(a, r). rvTerm a = t \<and> rvrVoteGranted r) rs)"

lemma end_pos_le: "end_pos l \<le> LogPos t i \<longleftrightarrow>
    \<not> t < CommandTerm (last l) \<and> \<not> (t = CommandTerm (last l) \<and> i < last_of l)"
  by (auto simp: end_pos_def less_eq_log_pos_def)

lemma RequestVote_eq:
  assumes "Log rf \<noteq> []"
  shows "\<exists>rf' r. RequestVote enc args rf = Some (rf', r)
     \<and> (rvrVoteGranted r \<longleftrightarrow> CurrentTerm rf \<le> rvTerm args
          \<and> end_pos (Log rf) \<le> LogPos (rvLastLogTerm args) (rvLastLogIndex args)
          \<and> (CurrentTerm rf < rvTerm args \<or> VotedFor rf = - 1))
     \<and> (rvrVoteGranted r \<longrightarrow> VotedFor rf' = rvCandidateId args)
     \<and> (\<not> rvrVoteGranted r \<longrightarrow> VotedFor rf' = (if CurrentTerm rf < rvTerm args then - 1 else VotedFor rf))
     \<and> CurrentTerm rf' = max (CurrentTerm rf) (rvTerm args)
     \<and> Log rf' = Log rf \<and> CommitIndex rf' = CommitIndex rf
     \<and> State rf' = (if CurrentTerm rf < rvTerm args then Follower else State rf)"
  using assms by (auto simp: RequestVote_def Let_def end_pos_le)

lemma RequestVote_SomeD:
  assumes "RequestVote enc args rf = Some (rf', r)" and "rvrVoteGranted r"
  shows "CurrentTerm rf \<le> rvTerm args" and "CurrentTerm rf < rvTerm args \<or> VotedFor rf = - 1"
    and "CurrentTerm rf' = rvTerm args" and "VotedFor rf' = rvCandidateId args"
  using assms by (auto simp: RequestVote_def Let_def Option.bind_eq_Some_conv split: if_splits)

lemma RequestVote_refuses:
  assumes "RequestVote enc args rf = Some (rf', r)"
  shows "CurrentTerm rf \<le> CurrentTerm rf'"
    and "CurrentTerm rf' = CurrentTerm rf \<Longrightarrow> VotedFor rf \<noteq> - 1 \<Longrightarrow> VotedFor rf' = VotedFor rf"
  using assms by (auto simp: RequestVote_def Let_def Option.bind_eq_Some_conv split: if_splits)

definition voted_in :: "int \<Rightarrow> ('c, 'b) Raft \<Rightarrow> bool" where
  "voted_in t rf \<longleftrightarrow> t < CurrentTerm rf \<or> t = CurrentTerm rf \<and> VotedFor rf \<noteq> - 1"

lemma voted_in_RequestVote:
  assumes "RequestVote enc args rf = Some (rf', r)" and "voted_in t rf"
  shows "voted_in t rf' \<and> \<not> (rvTerm args = t \<and> rvrVoteGranted r)"
  using assms(2) RequestVote_refuses [OF assms(1)] RequestVote_SomeD [OF assms(1)]
  by (auto simp: voted_in_def)

lemma serve_votes_none:
  "serve_votes enc as rf = Some (rf', rs) \<Longrightarrow> voted_in t rf \<Longrightarrow> grants t rs = 0"
proof (induction as arbitrary: rf rs)
  case Nil
  then show ?case by (simp add: grants_def)
next
  case (Cons a as)
  then obtain rf1 r rs' where "RequestVote enc a rf = Some (rf1, r)"
    and "serve_votes enc as rf1 = Some (rf', rs')" and "rs = (a, r) # rs'"
    by (auto simp: Option.bind_eq_Some_conv)
  with Cons.IH Cons.prems(2) voted_in_RequestVote show ?case
    by (fastforce simp: grants_def)
qed

lemma serve_votes_once:
  "serve_votes enc as rf = Some (rf', rs) \<Longrightarrow> \<forall>a \<in> set as. rvCandidateId a \<noteq> - 1 \<Longrightarrow> grants t rs \<le> 1"
proof (induction as arbitrary: rf rs)
  case Nil
  then show ?case by (simp add: grants_def)
next
  case (Cons a as)
  then obtain rf1 r rs' where rv: "RequestVote enc a rf = Some (rf1, r)"
    and sv: "serve_votes enc as rf1 = Some (rf', rs')" and rs: "rs = (a, r) # rs'"
    by (auto simp: Option.bind_eq_Some_conv)
  show ?case
  proof (cases "rvTerm a = t \<and> rvrVoteGranted r")
    case True
    then have "voted_in t rf1"
      using RequestVote_SomeD [OF rv] Cons.prems(2) by (auto simp: voted_in_def)
    with sv have "grants t rs' = 0" by (rule serve_votes_none)
    with rs True show ?thesis by (simp add: grants_def)
  next
    case False
    with Cons.IH [OF sv] Cons.prems(2) rs show ?thesis by (auto simp: grants_def)
  qed
qed

lemma AppendEntries_no_panic_aux:
  assumes wf: "log_wf (Log rf)" and fr: "log_from (aePrevLogIndex args + 1) (aeEntries args)"
    and nb: "aePrevLogIndex args = base_of (Log rf) \<Longrightarrow> CommandTerm (hd (Log rf)) = aePrevLogTerm args"
  shows "\<exists>rf' r. AppendEntries enc args rf = Some (rf', r) \<and> log_wf (Log rf')
           \<and> base_of (Log rf') = base_of (Log rf)"
proof -
  let ?l = "Log rf" and ?p = "aePrevLogIndex args"
  have cut: "log_wf (take (nat (?p - base_of ?l)) ?l) \<and> base_of (take (nat (?p - base_of ?l)) ?l) = base_of ?l"
    if "prev_conflict args ?l"
  proof -
    have "base_of ?l < ?p"
      using that nb wf
      by (cases "?p = base_of ?l") (auto simp: prev_conflict_def log_wf_def hd_conv_nth)
    with wf show ?thesis by (simp add: log_wf_def contig_take)
  qed
  have "log_wf (overwrite args ?l) \<and> base_of (overwrite args ?l) = base_of ?l"
    if "\<not> already_there args ?l" "\<not> last_of ?l < ?p"
    using overwrite_wf [OF wf fr] overwrite_not_empty [OF wf that(1)] that(2) by simp
  with cut wf show ?thesis
    by (simp add: AppendEntries_wf [OF wf] AppendEntries_ref_def Let_def)
qed

lemma agreeing_entries_extend:
  assumes wf: "log_wf l" and "\<not> already_there args l" and "\<not> prev_conflict args l"
    and "aePrevLogIndex args \<le> last_of l"
    and agree: "\<And>k c. k < length (aeEntries args) \<Longrightarrow>
          log_map l (aePrevLogIndex args + 1 + int k) = Some c \<Longrightarrow> c = aeEntries args ! k"
  shows "last_of l < aePrevLogIndex args + int (length (aeEntries args))"
proof (rule ccontr)
  let ?p = "aePrevLogIndex args"
  assume short: "\<not> last_of l < ?p + int (length (aeEntries args))"
  have prev: "map_option CommandTerm (log_map l ?p) = Some (aePrevLogTerm args)" if "base_of l \<le> ?p"
    using that assms by (auto simp: prev_conflict_def log_map_eq_Some last_of_eq log_wf_def)
  have "log_map l (?p + 1 + int k) = Some (aeEntries args ! k)"
    if "k < length (aeEntries args)" and "base_of l \<le> ?p + 1 + int k" for k
  proof -
    have "?p + 1 + int k \<in> dom (log_map l)"
      using that short dom_log_map [OF wf] by auto
    with agree [OF that(1)] show ?thesis by auto
  qed
  with prev short assms(2) show False by (auto simp: already_there_def)
qed

section \<open>A small peer\<close>

text \<open>The concrete peer, requests and encoder at which the properties below are instantiated.\<close>

definition ex_enc :: "(nat, unit) encoder" where
  "ex_enc x = [()]"

definition ex_log :: "nat command list" where
  "ex_log = [\<lparr>CommandIndex = 0, Command = None, CommandTerm = 0\<rparr>,
             \<lparr>CommandIndex = 1, Command = Some 7, CommandTerm = 1\<rparr>,
             \<lparr>CommandIndex = 2, Command = Some 8, CommandTerm = 1\<rparr>]"

definition ex_rf :: "(nat, unit) Raft" where
  "ex_rf = (zero_Raft 3 0 MakePersister)\<lparr>State := Follower, CurrentTerm := 1, VotedFor := - 1,
              Log := ex_log, CommitIndex := 1\<rparr>"

definition ex_args :: "nat AppendEntriesArgs" where
  "ex_args = \<lparr>aeTerm = 2, aeLeaderId = 1, aePrevLogIndex = 1, aePrevLogTerm = 1,
     aeEntries = [\<lparr>CommandIndex = 2, Command = Some 9, CommandTerm = 2\<rparr>,
                  \<lparr>CommandIndex = 3, Command = Some 5, CommandTerm = 2\<rparr>],
     aeLeaderCommit = 2\<rparr>"

definition ex_rf' :: "(nat, unit) Raft" where
  "ex_rf' = fst (the (AppendEntries ex_enc ex_args ex_rf))"

definition ex_reply :: AppendEntriesReply where
  "ex_reply = snd (the (AppendEntries ex_enc ex_args ex_rf))"

lemma ex_facts:
  "AppendEntries ex_enc ex_args ex_rf = Some (ex_rf', ex_reply)" "aerSuccess ex_reply"
  "log_wf (Log ex_rf)" "log_from (aePrevLogIndex ex_args + 1) (aeEntries ex_args)"
  by code_simp+

section \<open>Properties\<close>

text \<open>
  C11. A successful AppendEntries stores the leader's entries: afterwards the log is contiguous,
  starts at the same index, holds every entry of the request at its index, is unchanged up to the
  previous index, and has the leader's term there.
\<close>

theorem AppendEntries_stores_entries:
  assumes "AppendEntries enc args rf = Some (rf', r)" and "aerSuccess r"
    and "log_wf (Log rf)" and "log_from (aePrevLogIndex args + 1) (aeEntries args)"
  shows "log_wf (Log rf') \<and> base_of (Log rf') = base_of (Log rf)
    \<and> (\<forall>k < length (aeEntries args). base_of (Log rf) \<le> aePrevLogIndex args + 1 + int k \<longrightarrow>
         log_map (Log rf') (aePrevLogIndex args + 1 + int k) = Some (aeEntries args ! k))
    \<and> (\<forall>i \<le> aePrevLogIndex args. log_map (Log rf') i = log_map (Log rf) i)
    \<and> (base_of (Log rf) \<le> aePrevLogIndex args \<longrightarrow>
         map_option CommandTerm (log_map (Log rf') (aePrevLogIndex args)) = Some (aePrevLogTerm args))"
  using success_already_there [OF assms] success_keeps_prefix [OF assms]
  by (auto simp: already_there_def)

theorem AppendEntries_stores_entries_witness:
  "log_map (Log ex_rf') 2 = Some \<lparr>CommandIndex = 2, Command = Some 9, CommandTerm = 2\<rparr>
   \<and> log_map (Log ex_rf') 1 = log_map (Log ex_rf) 1"
  using AppendEntries_stores_entries [OF ex_facts]
  by (auto simp: ex_args_def ex_rf_def ex_log_def base_of_def dest!: spec [of _ 0] spec [of _ "1::int"])

text \<open>
  AppendEntries is idempotent: delivering a request that succeeded once more succeeds again and
  changes neither the log nor the commit index nor the term.
\<close>

theorem AppendEntries_idempotent:
  assumes "AppendEntries enc args rf = Some (rf', r)" and "aerSuccess r"
    and "log_wf (Log rf)" and "log_from (aePrevLogIndex args + 1) (aeEntries args)"
  shows "\<exists>rf''. AppendEntries enc args rf' = Some (rf'', r) \<and> Log rf'' = Log rf'
    \<and> CommitIndex rf'' = CommitIndex rf' \<and> CurrentTerm rf'' = CurrentTerm rf'"
proof -
  note again = success_already_there [OF assms]
  have r: "r = \<lparr>aerTerm = 0, aerSuccess = True, aerNextIndex = 0\<rparr>"
    using assms(1,2) AppendEntries_wf [OF assms(3), of enc args]
    by (auto simp: AppendEntries_ref_def Let_def split: if_splits)
  have rf': "CurrentTerm rf' = aeTerm args"
    "CommitIndex rf' < aeLeaderCommit args \<Longrightarrow> CommitIndex rf' = last_of (Log rf')"
    using assms(1-3) by (cases rule: AppendEntries_successE; auto split: if_splits)+
  show ?thesis
    using again rf' by (auto simp: AppendEntries_wf [OF again(2)] AppendEntries_ref_def Let_def r)
qed

theorem AppendEntries_idempotent_witness:
  "\<exists>rf''. AppendEntries ex_enc ex_args ex_rf' = Some (rf'', ex_reply) \<and> Log rf'' = Log ex_rf'
    \<and> CommitIndex rf'' = CommitIndex ex_rf' \<and> CurrentTerm rf'' = CurrentTerm ex_rf'"
  by (rule AppendEntries_idempotent [OF ex_facts])

text \<open>
  C26. A delayed or duplicated AppendEntries never removes entries: if the request conflicts with no
  entry of the log, a success keeps every entry that was there.
\<close>

theorem AppendEntries_reordering_safe:
  assumes "AppendEntries enc args rf = Some (rf', r)" and "aerSuccess r"
    and "log_wf (Log rf)" and "log_from (aePrevLogIndex args + 1) (aeEntries args)"
    and agree: "\<And>k c. k < length (aeEntries args) \<Longrightarrow>
          log_map (Log rf) (aePrevLogIndex args + 1 + int k) = Some c \<Longrightarrow> c = aeEntries args ! k"
  shows "log_map (Log rf) \<subseteq>\<^sub>m log_map (Log rf')"
  using assms(1-3)
proof (cases rule: AppendEntries_successE)
  case stale
  then show ?thesis by simp
next
  case written
  note a = assms(3,4) written(3) written(5)
  let ?p = "aePrevLogIndex args" and ?n = "length (aeEntries args)"
  have longer: "last_of (Log rf) < ?p + int ?n"
    using assms(3) written(2,4,3) agree by (rule agreeing_entries_extend)
  show ?thesis
  proof (rule map_le_SomeI)
    fix i c
    assume c: "log_map (Log rf) i = Some c"
    then have i: "base_of (Log rf) \<le> i" "i \<le> last_of (Log rf)"
      using dom_log_map [OF assms(3)] by (auto simp: dom_def)
    show "log_map (Log rf') i = Some c"
    proof (cases "i \<le> ?p")
      case True
      with c i written(6) show ?thesis by (simp add: log_map_overwrite [OF a])
    next
      case False
      define k where "k = nat (i - ?p - 1)"
      have k: "i = ?p + 1 + int k" "k < ?n" using False i longer by (auto simp: k_def)
      with agree [of k c] c False i written(6) show ?thesis
        by (simp add: log_map_overwrite [OF a] entries_map_at)
    qed
  qed
qed

theorem AppendEntries_reordering_safe_witness:
  "log_map (Log ex_rf') \<subseteq>\<^sub>m log_map (Log (fst (the (AppendEntries ex_enc ex_args ex_rf'))))"
proof (rule AppendEntries_reordering_safe)
  show "AppendEntries ex_enc ex_args ex_rf' =
      Some (fst (the (AppendEntries ex_enc ex_args ex_rf')), ex_reply)"
    by code_simp
  show "c = aeEntries ex_args ! k"
    if "k < length (aeEntries ex_args)"
      and "log_map (Log ex_rf') (aePrevLogIndex ex_args + 1 + int k) = Some c" for k c
  proof -
    have "length (aeEntries ex_args) = 2"
      "log_map (Log ex_rf') (aePrevLogIndex ex_args + 1 + int 0) = Some (aeEntries ex_args ! 0)"
      "log_map (Log ex_rf') (aePrevLogIndex ex_args + 1 + int 1) = Some (aeEntries ex_args ! 1)"
      by code_simp+
    with that show ?thesis by (auto simp: less_2_cases_iff)
  qed
  show "aerSuccess ex_reply" "log_wf (Log ex_rf')"
    "log_from (aePrevLogIndex ex_args + 1) (aeEntries ex_args)"
    by code_simp+
qed

text \<open>
  C27. AppendEntries moves the commit index exactly so: a success sets it to the smaller of the leader's commit
  index and the last index of the new log if the leader's is greater than its own, and anything else leaves it alone. So it
  stays within the log, and does not move back, whenever the new log still reaches the old commit index; and every
  index up to it among those the request carries holds the leader's entry.
\<close>

theorem AppendEntries_commit_index:
  assumes "AppendEntries enc args rf = Some (rf', r)" and "log_wf (Log rf)"
    and "log_from (aePrevLogIndex args + 1) (aeEntries args)"
  shows "CommitIndex rf' = (if aerSuccess r \<and> CommitIndex rf < aeLeaderCommit args
        then min (aeLeaderCommit args) (last_of (Log rf')) else CommitIndex rf)
    \<and> (CommitIndex rf \<le> last_of (Log rf') \<longrightarrow> CommitIndex rf \<le> CommitIndex rf' \<and> CommitIndex rf' \<le> last_of (Log rf'))
    \<and> (\<forall>i. aerSuccess r \<and> aePrevLogIndex args < i \<and> i \<le> min (CommitIndex rf') (aePrevLogIndex args + int (length (aeEntries args)))
         \<and> base_of (Log rf) \<le> i
         \<longrightarrow> log_map (Log rf') i = entries_map (aePrevLogIndex args + 1) (aeEntries args) i)"
proof (cases "aerSuccess r")
  case True
  let ?p = "aePrevLogIndex args"
  note again = success_already_there [OF assms(1) True assms(2,3)]
  have ci: "CommitIndex rf' = (if CommitIndex rf < aeLeaderCommit args
      then min (aeLeaderCommit args) (last_of (Log rf')) else CommitIndex rf)"
    using assms(1) True assms(2) by (cases rule: AppendEntries_successE) auto
  have "log_map (Log rf') i = entries_map (?p + 1) (aeEntries args) i"
    if "?p < i" "i \<le> ?p + int (length (aeEntries args))" "base_of (Log rf) \<le> i" for i
  proof -
    define k where "k = nat (i - ?p - 1)"
    have "i = ?p + 1 + int k" "k < length (aeEntries args)" using that by (auto simp: k_def)
    with already_there_entry [OF again(1)] again(3) that(3) show ?thesis by (simp add: entries_map_at)
  qed
  with ci True show ?thesis by auto
next
  case False
  have "CommitIndex rf' = CommitIndex rf"
    using assms(1,2) False by (auto simp: AppendEntries_wf AppendEntries_ref_def Let_def split: if_splits)
  with False show ?thesis by simp
qed

text \<open>The log ends below the leader's commit index, so the commit index stops at the end of the log.\<close>

definition ex_ahead :: "nat AppendEntriesArgs" where
  "ex_ahead = ex_args\<lparr>aeLeaderCommit := 9\<rparr>"

theorem AppendEntries_commit_index_witness:
  "\<exists>rf' r. AppendEntries ex_enc ex_ahead ex_rf = Some (rf', r) \<and> aerSuccess r \<and> CommitIndex rf' = 3
    \<and> CommitIndex ex_rf = 1 \<and> log_map (Log rf') 2 = entries_map 2 (aeEntries ex_ahead) 2"
proof -
  have "map_option (\<lambda>(rf', r). (aerSuccess r, last_of (Log rf'))) (AppendEntries ex_enc ex_ahead ex_rf) = Some (True, 3)" by code_simp
  then obtain rf' r where rf': "AppendEntries ex_enc ex_ahead ex_rf = Some (rf', r)" "aerSuccess r" "last_of (Log rf') = 3" by auto
  have "log_wf (Log ex_rf)" "log_from (aePrevLogIndex ex_ahead + 1) (aeEntries ex_ahead)" "aePrevLogIndex ex_ahead = 1"
    "aeLeaderCommit ex_ahead = 9" "CommitIndex ex_rf = 1" "base_of (Log ex_rf) = 0" "length (aeEntries ex_ahead) = 2"
    by code_simp+
  with AppendEntries_commit_index [OF rf'(1)] rf' show ?thesis by auto
qed

text \<open>
  On a contiguous log AppendEntries does not panic and leaves a contiguous, non-empty log, unless
  it finds a conflict at the very first entry of the log.
\<close>

theorem AppendEntries_no_panic:
  assumes wf: "log_wf (Log rf)" and fr: "log_from (aePrevLogIndex args + 1) (aeEntries args)"
    and nb: "aePrevLogIndex args = base_of (Log rf) \<Longrightarrow> CommandTerm (hd (Log rf)) = aePrevLogTerm args"
  shows "\<exists>rf' r. AppendEntries enc args rf = Some (rf', r) \<and> log_wf (Log rf')
           \<and> base_of (Log rf') = base_of (Log rf)"
  using assms by (rule AppendEntries_no_panic_aux)

theorem AppendEntries_no_panic_witness:
  "\<exists>rf' r. AppendEntries ex_enc ex_args ex_rf = Some (rf', r) \<and> log_wf (Log rf')
     \<and> base_of (Log rf') = base_of (Log ex_rf)"
  by (rule AppendEntries_no_panic [OF ex_facts(3,4)])
    (simp add: ex_args_def ex_rf_def ex_log_def base_of_def)

text \<open>
  C37. A conflict at the first entry of the log empties the log (the cut \<open>rf.Log[0:matchIndex]\<close> with
  \<open>matchIndex = 0\<close>), and then every later RequestVote and AppendEntries of a current term panics.
\<close>

theorem AppendEntries_conflict_at_base_breaks_peer:
  assumes wf: "log_wf (Log rf)" and "CurrentTerm rf \<le> aeTerm args"
    and base: "aePrevLogIndex args = base_of (Log rf)" and "CommandTerm (hd (Log rf)) \<noteq> aePrevLogTerm args"
  shows "\<exists>rf' r. AppendEntries enc args rf = Some (rf', r) \<and> Log rf' = []
    \<and> (\<forall>v. CurrentTerm rf' \<le> rvTerm v \<longrightarrow> RequestVote enc v rf' = None)
    \<and> (\<forall>a. CurrentTerm rf' \<le> aeTerm a \<longrightarrow> AppendEntries enc a rf' = None)"
proof -
  have "prev_conflict args (Log rf)" and "\<not> already_there args (Log rf)"
    using wf base assms(4)
    by (auto simp: prev_conflict_def already_there_def log_map_def log_wf_def hd_conv_nth)
  moreover have "\<not> last_of (Log rf) < aePrevLogIndex args"
    using base base_le_last [OF wf] by simp
  ultimately show ?thesis
    using assms(2) base
    by (simp add: AppendEntries_wf [OF wf] AppendEntries_ref_def Let_def)
      (simp add: RequestVote_def AppendEntries_def Let_def)
qed

theorem AppendEntries_conflict_at_base_breaks_peer_witness:
  "\<exists>rf' r. AppendEntries ex_enc (ex_args\<lparr>aePrevLogIndex := 0, aePrevLogTerm := 1\<rparr>) ex_rf = Some (rf', r)
    \<and> Log rf' = []"
  using AppendEntries_conflict_at_base_breaks_peer
    [of ex_rf "ex_args\<lparr>aePrevLogIndex := 0, aePrevLogTerm := 1\<rparr>" ex_enc] ex_facts(3)
  by (auto simp: ex_args_def ex_rf_def ex_log_def base_of_def)

text \<open>
  RequestVote grants exactly the votes Raft's rule allows: the candidate's term is current, the
  candidate's log is at least as up to date in the order on \<open>log_pos\<close>, and no vote is recorded for
  that term; it never panics on a non-empty log, records the vote, and adopts a higher term.
\<close>

theorem RequestVote_grants_iff:
  assumes "Log rf \<noteq> []"
  shows "\<exists>rf' r. RequestVote enc args rf = Some (rf', r)
     \<and> (rvrVoteGranted r \<longleftrightarrow> CurrentTerm rf \<le> rvTerm args
          \<and> end_pos (Log rf) \<le> LogPos (rvLastLogTerm args) (rvLastLogIndex args)
          \<and> (CurrentTerm rf < rvTerm args \<or> VotedFor rf = - 1))
     \<and> (rvrVoteGranted r \<longrightarrow> VotedFor rf' = rvCandidateId args)
     \<and> CurrentTerm rf' = max (CurrentTerm rf) (rvTerm args) \<and> Log rf' = Log rf"
  using RequestVote_eq [OF assms, of enc args] by auto

theorem RequestVote_grants_iff_witness:
  "\<exists>rf' r. RequestVote ex_enc \<lparr>rvTerm = 1, rvCandidateId = 2, rvLastLogIndex = 2, rvLastLogTerm = 1\<rparr> ex_rf
      = Some (rf', r) \<and> rvrVoteGranted r \<and> VotedFor rf' = 2"
proof -
  have "Log ex_rf \<noteq> []" "end_pos (Log ex_rf) \<le> LogPos 1 2" "CurrentTerm ex_rf = 1" "VotedFor ex_rf = - 1"
    by code_simp+
  then show ?thesis
    using RequestVote_grants_iff [of ex_rf ex_enc
        "\<lparr>rvTerm = 1, rvCandidateId = 2, rvLastLogIndex = 2, rvLastLogTerm = 1\<rparr>"]
    by auto
qed

text \<open>
  C9. One vote per term: whatever RequestVote calls a peer serves one after the other, it grants at
  most one of them in each term (candidates are never numbered \<open>-1\<close>).
\<close>

theorem RequestVote_one_vote_per_term:
  assumes "serve_votes enc as rf = Some (rf', rs)" and "\<forall>a \<in> set as. rvCandidateId a \<noteq> - 1"
  shows "grants t rs \<le> 1"
  using assms by (rule serve_votes_once)

theorem RequestVote_one_vote_per_term_witness:
  "grants 3 (snd (the (serve_votes ex_enc
      [\<lparr>rvTerm = 3, rvCandidateId = 2, rvLastLogIndex = 2, rvLastLogTerm = 1\<rparr>,
       \<lparr>rvTerm = 3, rvCandidateId = 1, rvLastLogIndex = 2, rvLastLogTerm = 1\<rparr>] ex_rf))) \<le> 1"
proof -
  let ?as = "[\<lparr>rvTerm = 3, rvCandidateId = 2, rvLastLogIndex = 2, rvLastLogTerm = 1\<rparr>,
       \<lparr>rvTerm = 3, rvCandidateId = 1, rvLastLogIndex = 2, rvLastLogTerm = 1\<rparr>]"
  have "serve_votes ex_enc ?as ex_rf =
      Some (fst (the (serve_votes ex_enc ?as ex_rf)), snd (the (serve_votes ex_enc ?as ex_rf)))"
    by code_simp
  then show ?thesis by (rule RequestVote_one_vote_per_term) simp
qed

text \<open>
  StartSnapshot discards exactly the entries before the snapshot: it never panics on a contiguous
  log, ignores an index outside the log, and otherwise keeps the entries from the index on, and
  saves the snapshot together with the shortened log.
\<close>

theorem StartSnapshot_keeps_suffix:
  assumes wf: "log_wf (Log rf)"
  shows "\<exists>rf'. StartSnapshot enc snap m rf = Some rf' \<and> log_wf (Log rf')
    \<and> (if base_of (Log rf) < MsgCommandIndex m \<and> MsgCommandIndex m \<le> last_of (Log rf)
       then log_map (Log rf') = (\<lambda>i. if MsgCommandIndex m \<le> i then log_map (Log rf) i else None)
          \<and> ReadSnapshotData rf' = snap
          \<and> ReadRaftState (persister rf') = enc (CurrentTerm rf, VotedFor rf, Log rf')
       else rf' = rf)"
proof (cases "base_of (Log rf) < MsgCommandIndex m \<and> MsgCommandIndex m \<le> last_of (Log rf)")
  case True
  define n where "n = nat (MsgCommandIndex m - base_of (Log rf))"
  have n: "n < length (Log rf)" "MsgCommandIndex m = base_of (Log rf) + int n"
    using True wf by (auto simp: n_def last_of_eq)
  have fr: "log_from (MsgCommandIndex m) (drop n (Log rf))"
    using wf n by (simp add: log_wf_iff log_from_drop)
  have "log_map (drop n (Log rf)) i =
      (if MsgCommandIndex m \<le> i then log_map (Log rf) i else None)" for i
    using n wf log_map_from [OF fr, of i]
    by (simp add: entries_map_drop log_map_from [of "base_of (Log rf)" "Log rf"] log_wf_iff)
  with True n wf log_from_contig [OF fr] show ?thesis
    by (auto simp: StartSnapshot_def log_wf_def base_of_def persister_defs ReadSnapshotData_def
        Let_def fun_eq_iff)
next
  case False
  with wf show ?thesis by (auto simp: StartSnapshot_def log_wf_def base_of_def)
qed

theorem StartSnapshot_keeps_suffix_witness:
  "\<exists>rf'. StartSnapshot ex_enc [()] \<lparr>CommandValid = True, MsgCommand = Some 7, MsgCommandIndex = 1,
      UseSnapshot = False, Snapshot = []\<rparr> ex_rf = Some rf' \<and> log_map (Log rf') 0 = None
      \<and> log_map (Log rf') 2 = log_map (Log ex_rf) 2"
proof -
  let ?m = "\<lparr>CommandValid = True, MsgCommand = Some 7, MsgCommandIndex = 1, UseSnapshot = False,
      Snapshot = []\<rparr> :: (nat, unit) apply_msg"
  have "base_of (Log ex_rf) < MsgCommandIndex ?m \<and> MsgCommandIndex ?m \<le> last_of (Log ex_rf)"
    by code_simp
  with StartSnapshot_keeps_suffix [OF ex_facts(3), of ex_enc "[()]" ?m] show ?thesis by auto
qed

end
