(* ===== verification/Raft_Peer.thy ===== *)
theory Raft_Peer
  imports Raft_Rpc
begin

text \<open>
  The active side of a Raft peer (\<open>src/src/raft/raft.go\<close>): elections, replication and commitment by
  the leader, \<open>Start\<close>, \<open>Make\<close>, and the part of the main loop that applies committed entries.

  A method that releases the lock while it waits for an RPC is split at that point into the atomic
  regions the code has: \<open>sendSingleAppendEntries\<close> into \<open>sendSingleAppendEntries_prepare\<close> (up to the
  first unlock) and \<open>sendSingleAppendEntries_reply\<close> (from the second lock on), likewise for the other
  two RPCs; \<open>Start\<close> into reading \<open>GetState\<close> and \<open>Start_append\<close>; \<open>updateToCandidate\<close> into its locked
  regions. The whole methods (\<open>Start\<close>, \<open>updateToCandidate\<close>) are their composition when nothing runs
  in between. \<open>Raft_Cluster\<close> interleaves the regions.

  Random numbers are arguments (\<open>r\<close> is the value of \<open>rand.Int()\<close>), \<open>Timer\<close> holds the last duration
  the timer was reset to.
\<close>

section \<open>Leader bookkeeping\<close>

definition findMajority :: "('c, 'b) Raft \<Rightarrow> int option" where
  "findMajority rf =
     (let matchIndex = MatchIndex rf;
          matchIndex' = (if \<not> sorted matchIndex then sort matchIndex else matchIndex)
      in idx matchIndex' ((int (length matchIndex') - 1) div 2))"

text \<open>\<open>setAll n v xs\<close> is \<open>for i = 0; i < n; i++ { xs[i] = v }\<close>.\<close>

fun setAll :: "nat \<Rightarrow> 'a \<Rightarrow> 'a list \<Rightarrow> 'a list option" where
  "setAll 0 v xs = Some xs"
| "setAll (Suc n) v xs = do { ys \<leftarrow> setAll n v xs; set_idx ys (int n) v }"

definition initNextIndexAndMatchIndex :: "('c, 'b) Raft \<Rightarrow> ('c, 'b) Raft option" where
  "initNextIndexAndMatchIndex rf =
     (if peers rf = 0 then Some rf
      else do {
        lastIndex \<leftarrow> getLastCommandIndex rf;
        next \<leftarrow> setAll (peers rf) (lastIndex + 1) (NextIndex rf);
        match \<leftarrow> setAll (peers rf) 0 (MatchIndex rf);
        Some (rf\<lparr>NextIndex := next, MatchIndex := match\<rparr>)
      })"

text \<open>
  \<open>updateState\<close> with the argument \<open>Leader\<close> calls \<open>Start\<close>, which locks the mutex its caller holds: it
  never returns. No caller passes \<open>Leader\<close>.
\<close>

definition updateState :: "('c, 'b) encoder \<Rightarrow> role \<Rightarrow> ('c, 'b) Raft \<Rightarrow> ('c, 'b) Raft option" where
  "updateState enc st rf =
     (if State rf = st then Some rf
      else case st of
             Follower \<Rightarrow> Some (persist enc (rf\<lparr>State := Follower, VotedFor := - 1\<rparr>))
           | Leader \<Rightarrow> None
           | Candidate \<Rightarrow> Some rf)"

definition checkCommitIndex :: "('c, 'b) Raft \<Rightarrow> ('c, 'b) Raft option" where
  "checkCommitIndex rf =
     do {
       commitIndex \<leftarrow> findMajority rf;
       if CommitIndex rf < commitIndex
       then do {
         localCommitIndex \<leftarrow> calculateLocalIndex commitIndex rf;
         c \<leftarrow> idx (Log rf) localCommitIndex;
         if CommandTerm c = CurrentTerm rf then Some (rf\<lparr>CommitIndex := commitIndex\<rparr>) else Some rf
       }
       else Some rf
     }"

section \<open>Elections\<close>

definition updateBeforeRequestVote :: "('c, 'b) encoder \<Rightarrow> int \<Rightarrow> ('c, 'b) Raft \<Rightarrow> ('c, 'b) Raft" where
  "updateBeforeRequestVote enc r rf =
     (persist enc (rf\<lparr>CurrentTerm := CurrentTerm rf + 1, VotedFor := int (me rf)\<rparr>))
       \<lparr>Votes := 1, Timer := generate_rand r\<rparr>"

definition candidateArgs :: "('c, 'b) Raft \<Rightarrow> RequestVoteArgs option" where
  "candidateArgs rf =
     do {
       lastIndex \<leftarrow> getLastCommandIndex rf;
       lastTerm \<leftarrow> getLastCommandTerm rf;
       Some \<lparr>rvTerm = CurrentTerm rf, rvCandidateId = int (me rf), rvLastLogIndex = lastIndex,
             rvLastLogTerm = lastTerm\<rparr>
     }"

definition other_peers :: "('c, 'b) Raft \<Rightarrow> nat list" where
  "other_peers rf = filter (\<lambda>i. i \<noteq> me rf) [0..<peers rf]"

text \<open>The goroutines \<open>sendSingleRequestVote(i, args, term)\<close> that the broadcast starts.\<close>

definition broadcastRequestVote ::
  "RequestVoteArgs \<Rightarrow> ('c, 'b) Raft \<Rightarrow> (nat \<times> RequestVoteArgs \<times> int) list" where
  "broadcastRequestVote args rf = map (\<lambda>i. (i, args, CurrentTerm rf)) (other_peers rf)"

definition becomeCandidate :: "('c, 'b) Raft \<Rightarrow> ('c, 'b) Raft" where
  "becomeCandidate rf = (if getState rf \<noteq> Candidate then setState Candidate rf else rf)"

definition updateToCandidate ::
  "('c, 'b) encoder \<Rightarrow> int \<Rightarrow> ('c, 'b) Raft
     \<Rightarrow> (('c, 'b) Raft \<times> (nat \<times> RequestVoteArgs \<times> int) list) option" where
  "updateToCandidate enc r rf =
     (let rf1 = updateBeforeRequestVote enc r (becomeCandidate rf)
      in do { args \<leftarrow> candidateArgs rf1; Some (rf1, broadcastRequestVote args rf1) })"

definition requestVote_wanted :: "int \<Rightarrow> ('c, 'b) Raft \<Rightarrow> bool" where
  "requestVote_wanted term rf \<longleftrightarrow> getState rf = Candidate \<and> getTerm rf = term"

definition sendSingleRequestVote_reply ::
  "('c, 'b) encoder \<Rightarrow> int \<Rightarrow> RequestVoteReply \<Rightarrow> ('c, 'b) Raft \<Rightarrow> ('c, 'b) Raft option" where
  "sendSingleRequestVote_reply enc term reply rf =
     (if State rf \<noteq> Candidate \<or> CurrentTerm rf \<noteq> term then Some rf
      else if rvrVoteGranted reply then Some (rf\<lparr>Votes := Votes rf + 1\<rparr>)
      else if rvrTerm reply > CurrentTerm rf
      then updateState enc Follower (rf\<lparr>CurrentTerm := rvrTerm reply\<rparr>)
      else Some rf)"

definition resetTimer :: "int \<Rightarrow> ('c, 'b) Raft \<Rightarrow> ('c, 'b) Raft" where
  "resetTimer r rf = rf\<lparr>Timer := generate_rand r\<rparr>"

definition updateToFollower :: "('c, 'b) Raft \<Rightarrow> ('c, 'b) Raft" where
  "updateToFollower rf = rf\<lparr>State := Follower, VotedFor := - 1\<rparr>"

definition testLeader :: "('c, 'b) Raft \<Rightarrow> ('c, 'b) Raft option" where
  "testLeader rf =
     (if Votes rf > int (peers rf div 2)
      then initNextIndexAndMatchIndex (rf\<lparr>State := Leader\<rparr>) else Some rf)"

section \<open>Replication\<close>

text \<open>The goroutines that \<open>broadcastAppendEntries\<close> starts, each with the server and the term.\<close>

definition broadcastAppendEntries :: "('c, 'b) Raft \<Rightarrow> (nat \<times> int) list" where
  "broadcastAppendEntries rf =
     (if getState rf \<noteq> Leader then [] else map (\<lambda>i. (i, CurrentTerm rf)) (other_peers rf))"

datatype ('c, 'b) send_action =
    Quit
  | SendInstall "('c, 'b) InstallSnapshotArgs"
  | SendAppend "'c AppendEntriesArgs"

definition sendSingleAppendEntries_prepare ::
  "nat \<Rightarrow> int \<Rightarrow> ('c, 'b) Raft \<Rightarrow> ('c, 'b) send_action option" where
  "sendSingleAppendEntries_prepare server term rf =
     (if State rf \<noteq> Leader \<or> CurrentTerm rf \<noteq> term then Some Quit
      else do {
        next \<leftarrow> idx (NextIndex rf) (int server);
        c0 \<leftarrow> idx (Log rf) 0;
        if next \<le> CommandIndex c0
        then Some (SendInstall \<lparr>isTerm = term, isLeaderId = int (me rf), isSnapshotIndex = 0,
                     isSnapshotData = ReadSnapshot (persister rf), isLastSnapshotCommand = c0\<rparr>)
        else do {
          localPrevLogIndex \<leftarrow> calculateLocalIndex (next - 1) rf;
          prevTerm \<leftarrow> (if localPrevLogIndex \<ge> 0
                      then do { c \<leftarrow> idx (Log rf) localPrevLogIndex; Some (CommandTerm c) }
                      else Some 0);
          entries \<leftarrow> (if int (length (Log rf)) - 1 > localPrevLogIndex
                     then slice_from (Log rf) (localPrevLogIndex + 1) else Some []);
          Some (SendAppend \<lparr>aeTerm = term, aeLeaderId = int (me rf), aePrevLogIndex = next - 1,
                  aePrevLogTerm = prevTerm, aeEntries = entries, aeLeaderCommit = CommitIndex rf\<rparr>)
        }
      })"

definition append_wanted :: "int \<Rightarrow> ('c, 'b) Raft \<Rightarrow> bool" where
  "append_wanted term rf \<longleftrightarrow> getState rf = Leader \<and> getTerm rf = term"

text \<open>The result says whether the sender is done (\<open>True\<close>) or has to try again.\<close>

definition sendSingleAppendEntries_reply ::
  "('c, 'b) encoder \<Rightarrow> nat \<Rightarrow> int \<Rightarrow> 'c AppendEntriesArgs \<Rightarrow> AppendEntriesReply \<Rightarrow> ('c, 'b) Raft
     \<Rightarrow> (('c, 'b) Raft \<times> bool) option" where
  "sendSingleAppendEntries_reply enc server term args reply rf =
     (if State rf \<noteq> Leader \<or> CurrentTerm rf \<noteq> term then Some (rf, True)
      else if \<not> aerSuccess reply
      then if aerTerm reply > CurrentTerm rf
           then Some (persist enc (rf\<lparr>CurrentTerm := aerTerm reply, State := Follower,
                                      VotedFor := - 1\<rparr>), True)
           else do {
             tmp \<leftarrow> getIndexBeforeTerm (aePrevLogIndex args) rf;
             next \<leftarrow> set_idx (NextIndex rf) (int server)
                       (if tmp < aerNextIndex reply then tmp else aerNextIndex reply);
             Some (rf\<lparr>NextIndex := next\<rparr>, False)
           }
      else do {
        let tmp = aePrevLogIndex args + int (length (aeEntries args)) + 1;
        old \<leftarrow> idx (NextIndex rf) (int server);
        next \<leftarrow> (if old < tmp then set_idx (NextIndex rf) (int server) tmp else Some (NextIndex rf));
        new \<leftarrow> idx next (int server);
        match \<leftarrow> set_idx (MatchIndex rf) (int server) (new - 1);
        Some (rf\<lparr>NextIndex := next, MatchIndex := match\<rparr>, True)
      })"

definition sendSingleInstallSnapshot_reply ::
  "('c, 'b) encoder \<Rightarrow> nat \<Rightarrow> int \<Rightarrow> ('c, 'b) InstallSnapshotArgs \<Rightarrow> InstallSnapshotReply
     \<Rightarrow> ('c, 'b) Raft \<Rightarrow> ('c, 'b) Raft option" where
  "sendSingleInstallSnapshot_reply enc server term args reply rf =
     (if State rf \<noteq> Leader \<or> CurrentTerm rf \<noteq> term then Some rf
      else if isrSuccess reply
      then do {
        next \<leftarrow> set_idx (NextIndex rf) (int server) (CommandIndex (isLastSnapshotCommand args) + 1);
        new \<leftarrow> idx next (int server);
        match \<leftarrow> set_idx (MatchIndex rf) (int server) (new - 1);
        Some (rf\<lparr>NextIndex := next, MatchIndex := match\<rparr>)
      }
      else if isrTerm reply > CurrentTerm rf
      then updateState enc Follower (rf\<lparr>CurrentTerm := isrTerm reply\<rparr>)
      else Some rf)"

section \<open>Start, Make, Kill\<close>

text \<open>
  The locked region of \<open>Start\<close>; the term was read by \<open>GetState\<close> under an earlier lock. It also starts
  a goroutine that runs \<open>broadcastAppendEntries\<close>.
\<close>

definition Start_append ::
  "('c, 'b) encoder \<Rightarrow> 'c \<Rightarrow> int \<Rightarrow> ('c, 'b) Raft \<Rightarrow> (('c, 'b) Raft \<times> int) option" where
  "Start_append enc command term rf =
     do {
       lastIndex \<leftarrow> getLastCommandIndex rf;
       let index = lastIndex + 1;
       let rf1 = persist enc (rf\<lparr>Log := Log rf @
                   [\<lparr>CommandIndex = index, Command = Some command, CommandTerm = term\<rparr>]\<rparr>);
       next \<leftarrow> set_idx (NextIndex rf1) (int (me rf1)) (index + 1);
       match \<leftarrow> set_idx (MatchIndex rf1) (int (me rf1)) index;
       Some (rf1\<lparr>NextIndex := next, MatchIndex := match\<rparr>, index)
     }"

definition Start ::
  "('c, 'b) encoder \<Rightarrow> 'c \<Rightarrow> ('c, 'b) Raft \<Rightarrow> (('c, 'b) Raft \<times> int \<times> int \<times> bool) option" where
  "Start enc command rf =
     (let (term, isLeader) = GetState rf
      in if \<not> isLeader then Some (rf, - 1, - 1, False)
         else do { (rf1, index) \<leftarrow> Start_append enc command term rf;
                   Some (rf1, index, term, isLeader) })"

definition Kill :: "('c, 'b) Raft \<Rightarrow> ('c, 'b) Raft" where
  "Kill rf = rf\<lparr>Process := True\<rparr>"

definition Make :: "('c, 'b) decoder \<Rightarrow> nat \<Rightarrow> nat \<Rightarrow> 'b Persister \<Rightarrow> ('c, 'b) Raft option" where
  "Make dec n i ps =
     (let rf = (zero_Raft n i ps)
                 \<lparr>CurrentTerm := 0, VotedFor := - 1, State := Follower, Votes := 0,
                  CommitIndex := 0, LastApplied := 0,
                  Log := [\<lparr>CommandIndex = 0, Command = None, CommandTerm = 0\<rparr>],
                  NextIndex := replicate n 0, MatchIndex := replicate n 0\<rparr>
      in do {
        rf1 \<leftarrow> initNextIndexAndMatchIndex rf;
        rf2 \<leftarrow> readPersist dec (ReadRaftState ps) rf1;
        Some (readSnapshot (ReadSnapshot ps) rf2)
      })"

section \<open>Applying committed entries\<close>

function applyLoop :: "int \<Rightarrow> int \<Rightarrow> ('c, 'b) Raft \<Rightarrow> ('c, 'b) Raft option" where
  "applyLoop i localCommitIndex rf =
     (if i \<le> localCommitIndex
      then do {
        c \<leftarrow> idx (Log rf) i;
        let msg = \<lparr>CommandValid = True, MsgCommand = Command c, MsgCommandIndex = CommandIndex c,
                   UseSnapshot = False, Snapshot = []\<rparr>;
        applyLoop (i + 1) localCommitIndex
          (rf\<lparr>ApplyCh := ApplyCh rf @ [msg], LastApplied := LastApplied rf + 1\<rparr>)
      }
      else Some rf)"
  by pat_completeness auto
termination
  by (relation "measure (\<lambda>(i, hi, rf). nat (hi + 1 - i))") auto

declare applyLoop.simps [simp del]

definition applyCommitted :: "('c, 'b) Raft \<Rightarrow> ('c, 'b) Raft option" where
  "applyCommitted rf =
     (if CommitIndex rf > LastApplied rf
      then do {
        localCommitIndex \<leftarrow> calculateLocalIndex (CommitIndex rf) rf;
        localAppliedIndex \<leftarrow> calculateLocalIndex (LastApplied rf) rf;
        applyLoop (localAppliedIndex + 1) localCommitIndex rf
      }
      else Some rf)"

text \<open>\<open>checkIndx\<close> looks for a gap in the log; it only sleeps when it finds one.\<close>

fun checkIndx :: "'c command list \<Rightarrow> bool" where
  "checkIndx (a # b # l) =
     (if CommandIndex a \<noteq> CommandIndex b - 1 then True else checkIndx (b # l))"
| "checkIndx l = False"

section \<open>Majorities\<close>

text \<open>The peers that have stored the log up to an index, as far as the leader knows.\<close>

definition stored_by :: "int list \<Rightarrow> int \<Rightarrow> nat set" where
  "stored_by matchIndex v = {i. i < length matchIndex \<and> v \<le> matchIndex ! i}"

text \<open>A set of voters that makes \<open>testLeader\<close> succeed when each of them is counted once.\<close>

definition election_quorum :: "nat \<Rightarrow> nat set \<Rightarrow> bool" where
  "election_quorum n S \<longleftrightarrow> S \<subseteq> {..<n} \<and> int (card S) > int (n div 2)"

text \<open>The reference for \<open>findMajority\<close>, and the peers that make it commit.\<close>

definition majority_index :: "int list \<Rightarrow> int" where
  "majority_index m = sort m ! ((length m - 1) div 2)"

definition commit_quorum :: "nat \<Rightarrow> nat set \<Rightarrow> bool" where
  "commit_quorum n S \<longleftrightarrow> (\<exists>m. m \<noteq> [] \<and> length m = n \<and> S = stored_by m (majority_index m))"

lemma findMajority_eq:
  assumes "MatchIndex rf \<noteq> []"
  shows "findMajority rf = Some (majority_index (MatchIndex rf))"
proof -
  have "(if \<not> sorted (MatchIndex rf) then sort (MatchIndex rf) else MatchIndex rf) = sort (MatchIndex rf)"
    by (simp add: sorted_sort_id)
  moreover have "(int (length (MatchIndex rf)) - 1) div 2 = int ((length (MatchIndex rf) - 1) div 2)"
    using assms by (cases "MatchIndex rf") (auto simp: zdiv_int)
  moreover have "(length (MatchIndex rf) - 1) div 2 < length (sort (MatchIndex rf))"
    using assms by (cases "MatchIndex rf") auto
  ultimately show ?thesis by (simp add: findMajority_def majority_index_def Let_def)
qed

lemma findMajority_SomeD:
  "findMajority rf = Some v \<Longrightarrow> MatchIndex rf \<noteq> [] \<and> v = majority_index (MatchIndex rf)"
  by (cases "MatchIndex rf = []") (auto simp: findMajority_eq, simp add: findMajority_def)

lemma card_stored_by: "card (stored_by m v) = length (filter (\<lambda>x. v \<le> x) (sort m))"
  by (simp add: stored_by_def card_nth_filter length_filter_sort)

lemma majority_index_quorum:
  assumes "m \<noteq> []"
  shows "length m < 2 * card (stored_by m (majority_index m))"
    and "majority_index m < v \<Longrightarrow> 2 * card (stored_by m v) \<le> length m"
proof -
  let ?k = "(length m - 1) div 2"
  have k: "?k < length (sort m)" using assms by (cases m) auto
  have "length m - ?k \<le> card (stored_by m (majority_index m))"
    using sorted_count_ge [OF sorted_sort k] by (simp add: card_stored_by majority_index_def)
  moreover have "length m < 2 * (length m - ?k)" using assms by (cases m) auto
  ultimately show "length m < 2 * card (stored_by m (majority_index m))" by linarith
  show "2 * card (stored_by m v) \<le> length m" if "majority_index m < v"
  proof -
    have "card (stored_by m v) \<le> length m - Suc ?k"
      using sorted_count_gt [OF sorted_sort k, of v] that by (simp add: card_stored_by majority_index_def)
    then show ?thesis using assms by (cases m) auto
  qed
qed

lemma majority_index_in:
  assumes "m \<noteq> []"
  shows "majority_index m \<in> set m"
proof -
  have "(length m - 1) div 2 < length (sort m)" using assms by (cases m) auto
  then have "sort m ! ((length m - 1) div 2) \<in> set (sort m)" by (rule nth_mem)
  then show ?thesis by (simp add: majority_index_def)
qed

interpretation quorums: majority_system "{..<n}" "\<lambda>S. election_quorum n S \<or> commit_quorum n S" for n
proof unfold_locales
  show "Q \<subseteq> {..<n}" if "election_quorum n Q \<or> commit_quorum n Q" for Q
    using that by (auto simp: election_quorum_def commit_quorum_def stored_by_def)
  show "card {..<n} < 2 * card Q" if "election_quorum n Q \<or> commit_quorum n Q" for Q
    using that majority_index_quorum(1) by (auto simp: election_quorum_def commit_quorum_def)
qed simp

section \<open>Arrays of the leader\<close>

lemma setAll_eq: "n \<le> length xs \<Longrightarrow> setAll n v xs = Some (replicate n v @ drop n xs)"
proof (induction n)
  case 0
  then show ?case by simp
next
  case (Suc n)
  then have "replicate n v @ drop n xs = replicate n v @ (xs ! n) # drop (Suc n) xs"
    by (simp add: Cons_nth_drop_Suc)
  with Suc show ?case
    by (simp add: set_idx_def list_update_append replicate_append_same [symmetric])
qed

lemma initNextIndex_eq:
  assumes "Log rf \<noteq> []" and "length (NextIndex rf) = peers rf" and "length (MatchIndex rf) = peers rf"
  shows "initNextIndexAndMatchIndex rf =
           Some (rf\<lparr>NextIndex := replicate (peers rf) (last_of (Log rf) + 1),
                    MatchIndex := replicate (peers rf) 0\<rparr>)"
  using assms by (auto simp: initNextIndexAndMatchIndex_def setAll_eq)

section \<open>Messages of the leader\<close>

text \<open>What the leader sends is the rest of its log after the previous index.\<close>

lemma prepare_append:
  assumes wf: "log_wf (Log rf)" and "State rf = Leader" and "server < length (NextIndex rf)"
    and next_gt: "base_of (Log rf) < NextIndex rf ! server"
    and next_le: "NextIndex rf ! server \<le> last_of (Log rf) + 1"
  defines "n \<equiv> nat (NextIndex rf ! server - base_of (Log rf))"
  shows "sendSingleAppendEntries_prepare server (CurrentTerm rf) rf =
    Some (SendAppend \<lparr>aeTerm = CurrentTerm rf, aeLeaderId = int (me rf),
       aePrevLogIndex = NextIndex rf ! server - 1, aePrevLogTerm = CommandTerm (Log rf ! (n - 1)),
       aeEntries = drop n (Log rf), aeLeaderCommit = CommitIndex rf\<rparr>)"
proof -
  have n: "NextIndex rf ! server - base_of (Log rf) = int n" "0 < n" "n \<le> length (Log rf)"
    using next_gt next_le wf by (auto simp: n_def last_of_eq)
  have loc: "NextIndex rf ! server - 1 - base_of (Log rf) = int (n - 1)"
    using n by simp
  have c0: "CommandIndex (hd (Log rf)) = base_of (Log rf)" by (simp add: base_of_def)
  have "drop (nat (int (n - 1) + 1)) (Log rf) = drop n (Log rf)"
    "\<not> int (n - 1) < int (length (Log rf)) - 1 \<Longrightarrow> length (Log rf) \<le> n"
    using n by (auto simp: nat_add_distrib of_nat_diff)
  moreover have "n - 1 < length (Log rf)" using n by simp
  ultimately show ?thesis
    using assms(2,3) wf next_gt loc c0
    by (simp add: sendSingleAppendEntries_prepare_def log_wf_def)
qed

text \<open>
  The loop in \<open>broadcastAppendEntries\<close> that retries \<open>sendSingleAppendEntries\<close> until it returns true,
  with the RPCs carried out on the follower \<open>F\<close> at once; \<open>None\<close> when the fuel is used up (or on a panic).
  After an InstallSnapshot the loop is over, whatever the reply.
\<close>

fun syncLoop ::
  "('c, 'b) encoder \<Rightarrow> nat \<Rightarrow> nat \<Rightarrow> ('c, 'b) Raft \<Rightarrow> ('c, 'b) Raft \<Rightarrow> (('c, 'b) Raft \<times> ('c, 'b) Raft) option"
where
  "syncLoop enc server 0 L F = None"
| "syncLoop enc server (Suc fuel) L F =
     do {
       act \<leftarrow> sendSingleAppendEntries_prepare server (CurrentTerm L) L;
       case act of
         Quit \<Rightarrow> Some (L, F)
       | SendInstall a \<Rightarrow>
           do {
             (F1, r) \<leftarrow> InstallSnapshot enc a F;
             L1 \<leftarrow> sendSingleInstallSnapshot_reply enc server (CurrentTerm L) a r L;
             Some (L1, F1)
           }
       | SendAppend a \<Rightarrow>
           do {
             (F1, r) \<leftarrow> AppendEntries enc a F;
             (L1, done) \<leftarrow> sendSingleAppendEntries_reply enc server (CurrentTerm L) a r L;
             if done then Some (L1, F1) else syncLoop enc server fuel L1 F1
           }
     }"

text \<open>
  Log matching, as Raft promises it of any two logs: where they have an entry of the same term at the same
  index, they agree up to there.
\<close>

definition log_matching :: "'c command list \<Rightarrow> 'c command list \<Rightarrow> bool" where
  "log_matching l f \<longleftrightarrow>
     (\<forall>c \<in> set l. \<forall>d \<in> set f. CommandIndex c = CommandIndex d \<and> CommandTerm c = CommandTerm d \<longrightarrow>
        (\<forall>x \<in> set l. \<forall>y \<in> set f. CommandIndex x = CommandIndex y \<and> CommandIndex x \<le> CommandIndex c \<longrightarrow> x = y))"

text \<open>The log \<open>f\<close> has every entry of \<open>l\<close>, as far back as it reaches itself.\<close>

definition holds_log :: "'c command list \<Rightarrow> 'c command list \<Rightarrow> bool" where
  "holds_log l f \<longleftrightarrow> last_of l \<le> last_of f
     \<and> (\<forall>i. base_of l \<le> i \<and> base_of f \<le> i \<and> i \<le> last_of l \<longrightarrow> log_map f i = log_map l i)"

lemma log_matchingD:
  assumes "log_matching l f" and "log_wf l" and "log_wf f" and "log_map l i = Some c" and "log_map f i = Some d"
    and "CommandTerm c = CommandTerm d" and "k \<le> i" and "log_map l k = Some x" and "log_map f k = Some y"
  shows "x = y"
proof -
  note at = log_map_index [OF assms(2)] log_map_index [OF assms(3)]
  have "CommandIndex c = CommandIndex d" "CommandIndex x = CommandIndex y" "CommandIndex x \<le> CommandIndex c"
    using at(1) [OF assms(4)] at(2) [OF assms(5)] at(1) [OF assms(8)] at(2) [OF assms(9)] assms(7) by simp_all
  then show ?thesis
    using assms(1,6) log_map_in [OF assms(4)] log_map_in [OF assms(5)] log_map_in [OF assms(8)] log_map_in [OF assms(9)]
    unfolding log_matching_def by blast
qed

lemma log_matching_subset: "log_matching l f \<Longrightarrow> set f' \<subseteq> set f \<Longrightarrow> log_matching l f'"
  unfolding log_matching_def by blast

lemma log_map_base: "log_wf l \<Longrightarrow> log_map l (base_of l) = Some (hd l)"
  by (simp add: log_map_def log_wf_def hd_conv_nth)

lemma log_matching_base:
  assumes "log_wf l"
  shows "log_matching l [hd l]"
proof -
  have "x = hd l" if x: "x \<in> set l" "CommandIndex x = CommandIndex (hd l)" for x
  proof -
    obtain k where "k < length l" "x = l ! k" using x(1) by (metis in_set_conv_nth)
    moreover have "k = 0" using x(2) log_wf_nth [OF assms] calculation by (simp add: base_of_def)
    moreover have "l \<noteq> []" using assms by (simp add: log_wf_def)
    ultimately show ?thesis by (simp add: hd_conv_nth)
  qed
  then show ?thesis unfolding log_matching_def by simp
qed

lemma log_map_drop:
  assumes "log_wf l" and "n \<le> length l" and "base_of l + int n \<le> i"
  shows "entries_map (base_of l + int n) (drop n l) i = log_map l i"
  using assms by (simp add: entries_map_drop log_map_from [of "base_of l" l] log_wf_iff)

text \<open>A request that carries the rest of the log \<open>l\<close> after its previous index.\<close>

definition excerpt :: "'c AppendEntriesArgs \<Rightarrow> 'c command list \<Rightarrow> bool" where
  "excerpt a l \<longleftrightarrow>
     log_from (aePrevLogIndex a + 1) (aeEntries a) \<and> base_of l \<le> aePrevLogIndex a
     \<and> map_option CommandTerm (log_map l (aePrevLogIndex a)) = Some (aePrevLogTerm a)
     \<and> aePrevLogIndex a + int (length (aeEntries a)) = last_of l
     \<and> (\<forall>k < length (aeEntries a). log_map l (aePrevLogIndex a + 1 + int k) = Some (aeEntries a ! k))"

lemma prepare_excerpt:
  assumes wf: "log_wf (Log rf)" and lead: "State rf = Leader" and srv: "server < length (NextIndex rf)"
    and nxt: "base_of (Log rf) < NextIndex rf ! server" "NextIndex rf ! server \<le> last_of (Log rf) + 1"
  obtains a where "sendSingleAppendEntries_prepare server (CurrentTerm rf) rf = Some (SendAppend a)"
    and "excerpt a (Log rf)" and "aePrevLogIndex a = NextIndex rf ! server - 1"
    and "aeTerm a = CurrentTerm rf" and "aeLeaderCommit a = CommitIndex rf"
proof -
  define n where "n = nat (NextIndex rf ! server - base_of (Log rf))"
  let ?l = "Log rf" and ?p = "NextIndex rf ! server - 1"
  have n: "0 < n" "n \<le> length ?l" "?p + 1 = base_of ?l + int n"
    using nxt wf by (auto simp: n_def last_of_eq)
  have e: "?p - base_of ?l = int (n - 1)" using n by simp
  have "idx ?l (?p - base_of ?l) = Some (?l ! (n - 1))"
    unfolding e using n by (intro idx_int) simp
  moreover have "log_map ?l (?p + 1 + int k) = Some (drop n ?l ! k)" if "k < length (drop n ?l)" for k
    using log_map_drop [OF wf n(2), of "?p + 1 + int k"] entries_map_at [OF that, of "?p + 1"] n
    by simp
  moreover have "log_from (?p + 1) (drop n ?l)"
    using wf n by (simp add: log_wf_iff log_from_drop)
  ultimately show ?thesis
    using prepare_append [OF wf lead srv nxt] n nxt wf
    by (intro that) (auto simp: excerpt_def n_def [symmetric] last_of_eq log_wf_def log_map_def)
qed

lemma log_map_defined: "log_wf l \<Longrightarrow> base_of l \<le> i \<Longrightarrow> i \<le> last_of l \<Longrightarrow> \<exists>c. log_map l i = Some c"
  using dom_log_map [of l] by (auto simp: dom_def set_eq_iff)

text \<open>A request with the rest of the leader's log that succeeds gives the follower the leader's log.\<close>

lemma success_holds_log:
  assumes ex: "excerpt a l" and ae: "AppendEntries enc a F = Some (F1, r)" "aerSuccess r"
    and wf: "log_wf l" "log_wf (Log F)" and lm: "log_matching l (Log F)"
  shows "holds_log l (Log F1)"
proof -
  let ?p = "aePrevLogIndex a"
  have fr: "log_from (?p + 1) (aeEntries a)" using ex by (simp add: excerpt_def)
  note again = success_already_there [OF ae wf(2) fr]
  have last: "last_of l \<le> last_of (Log F1)" "?p \<le> last_of l" using again(1) ex by (auto simp: already_there_def excerpt_def)
  have "log_map (Log F1) i = log_map l i" if i: "base_of l \<le> i" "base_of (Log F1) \<le> i" "i \<le> last_of l" for i
  proof (cases "?p < i")
    case True
    define k where "k = nat (i - ?p - 1)"
    have "i = ?p + 1 + int k" "k < length (aeEntries a)" using True i(3) ex by (auto simp: k_def excerpt_def)
    with i already_there_entry [OF again(1), of k] ex show ?thesis by (simp add: excerpt_def)
  next
    case False
    obtain x y c d where xy: "log_map l i = Some x" "log_map (Log F1) i = Some y" and cd: "log_map l ?p = Some c" "log_map (Log F1) ?p = Some d"
      using log_map_defined [OF wf(1)] log_map_defined [OF again(2)] i last False by (meson linorder_not_less order_trans)
    have "CommandTerm c = CommandTerm d" using cd again(1) ex i(2) False by (auto simp: already_there_def excerpt_def)
    moreover have "log_map (Log F) ?p = Some d" "log_map (Log F) i = Some y"
      using success_keeps_prefix [OF ae wf(2) fr] xy(2) cd(2) False by (simp_all add: not_less)
    ultimately have "x = y" using log_matchingD [OF lm wf cd(1) _ _ _ xy(1)] False by simp
    with xy show ?thesis by simp
  qed
  with last show ?thesis by (simp add: holds_log_def)
qed

lemma reply_failure:
  assumes "State L = Leader" and "\<not> aerSuccess r" and "aerTerm r \<le> CurrentTerm L"
    and "log_wf (Log L)" and "base_of (Log L) \<le> aePrevLogIndex a" and "aePrevLogIndex a \<le> last_of (Log L)"
    and "server < length (NextIndex L)"
  obtains m where "m \<le> aePrevLogIndex a"
    and "sendSingleAppendEntries_reply enc server (CurrentTerm L) a r L
           = Some (L\<lparr>NextIndex := (NextIndex L)[server := m]\<rparr>, False)"
proof -
  let ?k = "nat (aePrevLogIndex a - base_of (Log L))"
  define tmp where "tmp = base_of (Log L) + int (term_start (Log L) (CommandTerm (Log L ! ?k)) ?k)"
  have "tmp \<le> aePrevLogIndex a"
    using term_start_le [of "Log L" "CommandTerm (Log L ! ?k)" ?k] assms(5) by (simp add: tmp_def)
  moreover have "getIndexBeforeTerm (aePrevLogIndex a) L = Some tmp"
    using getIndexBeforeTerm_eq [OF assms(4,5,6)] by (simp add: tmp_def)
  ultimately show ?thesis
    using assms(1-3,7)
    by (intro that [of "if tmp < aerNextIndex r then tmp else aerNextIndex r"])
      (auto simp: sendSingleAppendEntries_reply_def)
qed

lemma reply_success:
  fixes L :: "('c, 'b) Raft" and a :: "'c AppendEntriesArgs"
  assumes "State L = Leader" and "aerSuccess r"
    and "server < length (NextIndex L)" and "length (MatchIndex L) = length (NextIndex L)"
  defines "m \<equiv> max (NextIndex L ! server) (aePrevLogIndex a + int (length (aeEntries a)) + 1)"
  shows "sendSingleAppendEntries_reply enc server (CurrentTerm L) a r L
     = Some (L\<lparr>NextIndex := (NextIndex L)[server := m], MatchIndex := (MatchIndex L)[server := m - 1]\<rparr>, True)"
proof (cases "NextIndex L ! server < aePrevLogIndex a + int (length (aeEntries a)) + 1")
  case True
  then have "m = aePrevLogIndex a + int (length (aeEntries a)) + 1" by (simp add: m_def)
  with True assms(1-4) show ?thesis by (simp add: sendSingleAppendEntries_reply_def)
next
  case False
  then have "m = NextIndex L ! server" by (simp add: m_def)
  with False assms(1-4) show ?thesis by (simp add: sendSingleAppendEntries_reply_def)
qed

text \<open>One round of the loop, from the state in which the next index lies in the leader's log.\<close>

definition sync_inv :: "nat \<Rightarrow> ('c, 'b) Raft \<Rightarrow> ('c, 'b) Raft \<Rightarrow> bool" where
  "sync_inv server L F \<longleftrightarrow>
     log_wf (Log L) \<and> log_wf (Log F) \<and> State L = Leader
     \<and> server < length (NextIndex L) \<and> length (MatchIndex L) = length (NextIndex L)
     \<and> NextIndex L ! server \<le> last_of (Log L) + 1
     \<and> CurrentTerm F \<le> CurrentTerm L \<and> 0 \<le> CurrentTerm L
     \<and> (\<forall>c. log_map (Log L) (base_of (Log F)) = Some c \<longrightarrow> CommandTerm c = CommandTerm (hd (Log F)))"

lemma sync_round_retry:
  assumes inv: "sync_inv server L F" and ex: "excerpt a (Log L)" "aeTerm a = CurrentTerm L"
    and pi: "aePrevLogIndex a = NextIndex L ! server - 1"
    and ae: "AppendEntries enc a F = Some (F1, r)" and wf1: "log_wf (Log F1)" and fail: "\<not> aerSuccess r"
  obtains m where "m < NextIndex L ! server"
    and "sendSingleAppendEntries_reply enc server (CurrentTerm L) a r L
           = Some (L\<lparr>NextIndex := (NextIndex L)[server := m]\<rparr>, False)"
    and "sync_inv server (L\<lparr>NextIndex := (NextIndex L)[server := m]\<rparr>) F1"
    and "base_of (Log F1) = base_of (Log F)" and "set (Log F1) \<subseteq> set (Log F)"
proof -
  have F: "aerTerm r = 0" "hd (Log F1) = hd (Log F)" "CurrentTerm F1 = CurrentTerm F" "set (Log F1) \<subseteq> set (Log F)"
    using ae fail inv wf1 ex AppendEntries_wf [of F enc a]
    by (auto simp: sync_inv_def AppendEntries_ref_def Let_def log_wf_def hd_take dest: in_set_takeD split: if_splits)
  have "aerTerm r \<le> CurrentTerm L" "base_of (Log L) \<le> aePrevLogIndex a"
    "aePrevLogIndex a \<le> last_of (Log L)"
    using F inv ex by (auto simp: sync_inv_def excerpt_def)
  with inv fail obtain m where m: "m \<le> aePrevLogIndex a"
    "sendSingleAppendEntries_reply enc server (CurrentTerm L) a r L
        = Some (L\<lparr>NextIndex := (NextIndex L)[server := m]\<rparr>, False)"
    using reply_failure [of L r a server enc] by (auto simp: sync_inv_def)
  have "base_of (Log F1) = base_of (Log F)" using F by (simp add: base_of_def)
  with F m inv wf1 pi have "sync_inv server (L\<lparr>NextIndex := (NextIndex L)[server := m]\<rparr>) F1"
    by (simp add: sync_inv_def)
  with m pi F(4) \<open>base_of (Log F1) = base_of (Log F)\<close> show ?thesis by (intro that) auto
qed

text \<open>
  What a run of the loop ends with: the follower has the leader's log and the leader knows it, or the follower
  has installed the leader's snapshot, or it has refused it because its own log was compacted.
\<close>

definition repaired :: "nat \<Rightarrow> ('c, 'b) Raft \<Rightarrow> ('c, 'b) Raft \<Rightarrow> bool" where
  "repaired server L F \<longleftrightarrow> holds_log (Log L) (Log F) \<and> MatchIndex L ! server = last_of (Log L)
     \<and> NextIndex L ! server = last_of (Log L) + 1"

definition snapshot_installed :: "nat \<Rightarrow> ('c, 'b) Raft \<Rightarrow> ('c, 'b) Raft \<Rightarrow> bool" where
  "snapshot_installed server L F \<longleftrightarrow> sync_inv server L F \<and> Log F = [hd (Log L)] \<and> NextIndex L ! server = base_of (Log L) + 1"

lemma sync_install:
  assumes inv: "sync_inv server L F" and low: "NextIndex L ! server \<le> base_of (Log L)"
  shows "\<exists>L' F'. syncLoop enc server (Suc fuel) L F = Some (L', F') \<and> Log L' = Log L
    \<and> (snapshot_installed server L' F' \<or> 0 < base_of (Log F) \<and> NextIndex L' ! server \<le> base_of (Log L))"
proof -
  have prep: "sendSingleAppendEntries_prepare server (CurrentTerm L) L =
      Some (SendInstall \<lparr>isTerm = CurrentTerm L, isLeaderId = int (me L), isSnapshotIndex = 0,
        isSnapshotData = ReadSnapshot (persister L), isLastSnapshotCommand = hd (Log L)\<rparr>)"
    using inv low by (simp add: sendSingleAppendEntries_prepare_def sync_inv_def log_wf_def base_of_def)
  show ?thesis
  proof (cases "0 < base_of (Log F)")
    case True
    with inv low prep show ?thesis
      by (simp add: InstallSnapshot_def sendSingleInstallSnapshot_reply_def sync_inv_def log_wf_def base_of_def)
  next
    case False
    have "log_map (Log L) (CommandIndex (hd (Log L))) = Some (hd (Log L))"
      using log_map_base [of "Log L"] inv by (simp add: sync_inv_def base_of_def)
    moreover have "base_of (Log L) \<le> last_of (Log L)" using inv by (intro base_le_last) (simp add: sync_inv_def)
    ultimately show ?thesis
      using False inv prep
      by (auto simp: InstallSnapshot_def sendSingleInstallSnapshot_reply_def sync_inv_def log_wf_def base_of_def snapshot_installed_def
          last_of_def Let_def)
  qed
qed

text \<open>A request that is accepted ends the loop with the follower repaired.\<close>

lemma sync_accepted:
  assumes inv: "sync_inv server L F" and lm: "log_matching (Log L) (Log F)"
    and prep: "sendSingleAppendEntries_prepare server (CurrentTerm L) L = Some (SendAppend a)"
    and ex: "excerpt a (Log L)" and ae: "AppendEntries enc a F = Some (F1, r)" "aerSuccess r"
  shows "\<exists>L'. syncLoop enc server (Suc fuel) L F = Some (L', F1) \<and> Log L' = Log L \<and> repaired server L' F1"
proof -
  have "holds_log (Log L) (Log F1)" using inv lm by (intro success_holds_log [OF ex ae]) (simp_all add: sync_inv_def)
  moreover have "max (NextIndex L ! server) (aePrevLogIndex a + int (length (aeEntries a)) + 1) = last_of (Log L) + 1"
    using ex inv by (auto simp: excerpt_def sync_inv_def)
  ultimately show ?thesis
    using prep ae inv reply_success [of L r server enc a] by (auto simp: sync_inv_def repaired_def)
qed

text \<open>
  The loop ends after at most as many rounds as the next index lies above the first index of the
  leader's log.
\<close>

lemma syncLoop_result:
  assumes "sync_inv server L F" and "log_matching (Log L) (Log F)" and "nat (NextIndex L ! server - base_of (Log L)) < fuel"
  shows "\<exists>L' F'. syncLoop enc server fuel L F = Some (L', F') \<and> Log L' = Log L
    \<and> (repaired server L' F' \<or> snapshot_installed server L' F'
       \<or> 0 < base_of (Log F) \<and> NextIndex L' ! server \<le> base_of (Log L))"
  using assms
proof (induction fuel arbitrary: L F)
  case 0
  then show ?case by simp
next
  case (Suc fuel)
  note inv = Suc.prems(1)
  show ?case
  proof (cases "NextIndex L ! server \<le> base_of (Log L)")
    case True
    with sync_install [OF inv] show ?thesis by blast
  next
    case False
    with inv obtain a where prep: "sendSingleAppendEntries_prepare server (CurrentTerm L) L = Some (SendAppend a)"
      and ex: "excerpt a (Log L)" "aeTerm a = CurrentTerm L" and pi: "aePrevLogIndex a = NextIndex L ! server - 1"
      using prepare_excerpt [of L server] by (auto simp: sync_inv_def)
    have fr: "log_from (aePrevLogIndex a + 1) (aeEntries a)" using ex by (simp add: excerpt_def)
    have "CommandTerm (hd (Log F)) = aePrevLogTerm a" if "aePrevLogIndex a = base_of (Log F)"
      using inv ex that by (auto simp: sync_inv_def excerpt_def)
    then obtain F1 r where ae: "AppendEntries enc a F = Some (F1, r)" and wf1: "log_wf (Log F1)"
      using AppendEntries_no_panic_aux [OF _ fr, of F enc] inv by (auto simp: sync_inv_def)
    show ?thesis
    proof (cases "aerSuccess r")
      case True
      with sync_accepted [OF inv Suc.prems(2) prep ex(1) ae] show ?thesis by blast
    next
      case False
      with inv ex pi ae wf1 obtain m where m: "m < NextIndex L ! server"
        "sendSingleAppendEntries_reply enc server (CurrentTerm L) a r L
           = Some (L\<lparr>NextIndex := (NextIndex L)[server := m]\<rparr>, False)"
        "sync_inv server (L\<lparr>NextIndex := (NextIndex L)[server := m]\<rparr>) F1"
        and F1: "base_of (Log F1) = base_of (Log F)" "set (Log F1) \<subseteq> set (Log F)"
        by (rule sync_round_retry)
      have "nat (m - base_of (Log L)) < fuel"
        using m(1) Suc.prems(3) \<open>\<not> NextIndex L ! server \<le> base_of (Log L)\<close> by linarith
      with Suc.IH [OF m(3)] log_matching_subset [OF Suc.prems(2) F1(2)] m inv prep ae F1(1) show ?thesis
        by (simp add: sync_inv_def)
    qed
  qed
qed

text \<open>After a snapshot, the next run of the loop sends the whole rest of the log, and it is accepted.\<close>

lemma sync_after_snapshot:
  assumes "snapshot_installed server L F"
  shows "\<exists>L' F'. syncLoop enc server (Suc fuel) L F = Some (L', F') \<and> Log L' = Log L \<and> repaired server L' F'"
proof -
  have inv: "sync_inv server L F" and f: "Log F = [hd (Log L)]" and nxt: "NextIndex L ! server = base_of (Log L) + 1"
    using assms by (simp_all add: snapshot_installed_def)
  have wf: "log_wf (Log L)" "log_wf (Log F)" using inv by (simp_all add: sync_inv_def)
  obtain a where prep: "sendSingleAppendEntries_prepare server (CurrentTerm L) L = Some (SendAppend a)"
    and ex: "excerpt a (Log L)" and a: "aeTerm a = CurrentTerm L" "aePrevLogIndex a = base_of (Log L)"
    using prepare_excerpt [of L server] inv nxt by (auto simp: sync_inv_def)
  have "base_of (Log F) = base_of (Log L)" "last_of (Log F) = base_of (Log L)" using f by (simp_all add: base_of_def last_of_def)
  moreover have "aePrevLogTerm a = CommandTerm (hd (Log L))" using ex a(2) log_map_base [OF wf(1)] by (simp add: excerpt_def)
  ultimately have "\<exists>F1 r. AppendEntries enc a F = Some (F1, r) \<and> aerSuccess r"
    using inv a f overwrite_not_empty [OF wf(2), of a]
    by (auto simp: AppendEntries_wf [OF wf(2)] AppendEntries_ref_def prev_conflict_def Let_def sync_inv_def)
  then obtain F1 r where ae: "AppendEntries enc a F = Some (F1, r)" "aerSuccess r" by blast
  have "log_matching (Log L) (Log F)" using log_matching_base [OF wf(1)] f by simp
  from sync_accepted [OF inv this prep ex ae, of fuel] show ?thesis by blast
qed

section \<open>Applying, starting, restarting\<close>

definition apply_of :: "'c command \<Rightarrow> ('c, 'b) apply_msg" where
  "apply_of c = \<lparr>CommandValid = True, MsgCommand = Command c, MsgCommandIndex = CommandIndex c,
     UseSnapshot = False, Snapshot = []\<rparr>"

text \<open>What \<open>encoding/gob\<close> keeps of a log entry: \<open>w\<close> says what it keeps of a command (it drops channels).\<close>

definition wireCmd :: "('c \<Rightarrow> 'c) \<Rightarrow> 'c command \<Rightarrow> 'c command" where
  "wireCmd w c = c\<lparr>Command := map_option w (Command c)\<rparr>"

lemma wireCmd_simps [simp]:
  "CommandIndex (wireCmd w c) = CommandIndex c" "CommandTerm (wireCmd w c) = CommandTerm c"
  by (simp_all add: wireCmd_def)

lemma log_from_wire [simp]: "log_from b (map (wireCmd w) l) = log_from b l"
  by (induction l arbitrary: b) auto

lemma contig_wire [simp]: "contig (map (wireCmd w) l) = contig l"
  by (cases l) auto

lemma applyLoop_eq:
  "0 \<le> i \<Longrightarrow> i \<le> hi + 1 \<Longrightarrow> hi < int (length (Log rf)) \<Longrightarrow>
   applyLoop i hi rf = Some (rf\<lparr>ApplyCh := ApplyCh rf @ map apply_of (take (nat (hi + 1 - i)) (drop (nat i) (Log rf))),
                                LastApplied := LastApplied rf + (hi + 1 - i)\<rparr>)"
proof (induction i hi rf rule: applyLoop.induct)
  case (1 i hi rf)
  show ?case
  proof (cases "i \<le> hi")
    case True
    have "take (nat (hi + 1 - i)) (drop (nat i) (Log rf))
        = (Log rf ! nat i) # take (nat (hi + 1 - (i + 1))) (drop (nat (i + 1)) (Log rf))"
    proof -
      have "nat (hi + 1 - i) = Suc (nat (hi + 1 - (i + 1)))" "nat (i + 1) = Suc (nat i)" "nat i < length (Log rf)"
        using True "1.prems" by auto
      then show ?thesis by (simp add: Cons_nth_drop_Suc [symmetric])
    qed
    with True "1.prems" show ?thesis
      by (subst applyLoop.simps) (simp add: idx_in_range "1.IH" apply_of_def)
  next
    case False
    with "1.prems" show ?thesis by (subst applyLoop.simps) simp
  qed
qed

lemma applyCommitted_eq:
  assumes wf: "log_wf (Log rf)" and "base_of (Log rf) \<le> LastApplied rf"
    and "LastApplied rf \<le> CommitIndex rf" and "CommitIndex rf \<le> last_of (Log rf)"
  shows "applyCommitted rf = Some (rf\<lparr>LastApplied := CommitIndex rf,
     ApplyCh := ApplyCh rf @ map (\<lambda>i. apply_of (the (log_map (Log rf) i))) [LastApplied rf + 1 .. CommitIndex rf]\<rparr>)"
proof (cases "LastApplied rf < CommitIndex rf")
  case True
  let ?b = "base_of (Log rf)" and ?l = "Log rf"
  let ?k = "nat (LastApplied rf - ?b + 1)"
  have len: "CommitIndex rf - ?b < int (length ?l)" using assms(4) wf by (simp add: last_of_eq)
  have msgs: "map (\<lambda>i. apply_of (the (log_map ?l i))) [LastApplied rf + 1 .. CommitIndex rf]
      = map apply_of (take (nat (CommitIndex rf - ?b + 1 - (LastApplied rf - ?b + 1))) (drop ?k ?l))"
  proof (rule nth_equalityI)
    show "length (map (\<lambda>i. apply_of (the (log_map ?l i))) [LastApplied rf + 1 .. CommitIndex rf]) =
        length (map apply_of (take (nat (CommitIndex rf - ?b + 1 - (LastApplied rf - ?b + 1))) (drop ?k ?l)))"
      using assms len True by simp
  next
    fix j
    assume "j < length (map (\<lambda>i. apply_of (the (log_map ?l i))) [LastApplied rf + 1 .. CommitIndex rf])"
    then have j: "int j < CommitIndex rf - LastApplied rf" by simp
    then have e: "LastApplied rf + 1 + int j - ?b = int (?k + j)" and kj: "?k + j < length ?l"
      using assms(2) len by auto
    have "idx ?l (LastApplied rf + 1 + int j - ?b) = Some (?l ! (?k + j))"
      unfolding e using kj by (rule idx_int)
    then show "map (\<lambda>i. apply_of (the (log_map ?l i))) [LastApplied rf + 1 .. CommitIndex rf] ! j =
        map apply_of (take (nat (CommitIndex rf - ?b + 1 - (LastApplied rf - ?b + 1))) (drop ?k ?l)) ! j"
      using j wf len assms(2) by (auto simp: log_map_def log_wf_def)
  qed
  have start: "applyCommitted rf = applyLoop (LastApplied rf - ?b + 1) (CommitIndex rf - ?b) rf"
    using True wf by (simp add: applyCommitted_def log_wf_def)
  have loop: "applyLoop (LastApplied rf - ?b + 1) (CommitIndex rf - ?b) rf = Some
      (rf\<lparr>ApplyCh := ApplyCh rf @ map apply_of
            (take (nat (CommitIndex rf - ?b + 1 - (LastApplied rf - ?b + 1))) (drop ?k ?l)),
          LastApplied := LastApplied rf + (CommitIndex rf - ?b + 1 - (LastApplied rf - ?b + 1))\<rparr>)"
    using assms(2,3) len by (intro applyLoop_eq) auto
  show ?thesis unfolding msgs start loop by simp
next
  case False
  with assms show ?thesis by (simp add: applyCommitted_def)
qed

lemma checkIndx_Cons: "checkIndx (c # l) \<longleftrightarrow> \<not> log_from (CommandIndex c) (c # l)"
proof (induction l arbitrary: c)
  case Nil
  then show ?case by simp
next
  case (Cons a l)
  show ?case
  proof (cases "CommandIndex a = CommandIndex c + 1")
    case True
    with Cons.IH [of a] show ?thesis by simp
  qed simp
qed

lemma checkCommitIndex_eq:
  assumes wf: "log_wf (Log rf)" and "base_of (Log rf) \<le> CommitIndex rf"
    and ne: "MatchIndex rf \<noteq> []" and "\<forall>i \<in> set (MatchIndex rf). i \<le> last_of (Log rf)"
  shows "checkCommitIndex rf =
    Some (if CommitIndex rf < majority_index (MatchIndex rf)
             \<and> map_option CommandTerm (log_map (Log rf) (majority_index (MatchIndex rf))) = Some (CurrentTerm rf)
          then rf\<lparr>CommitIndex := majority_index (MatchIndex rf)\<rparr> else rf)"
proof -
  let ?v = "majority_index (MatchIndex rf)"
  have "?v \<le> last_of (Log rf)" using assms(4) majority_index_in [OF ne] by blast
  then have "?v - base_of (Log rf) < int (length (Log rf))" using wf by (simp add: last_of_eq)
  with assms(2) wf show ?thesis
    by (auto simp: checkCommitIndex_def findMajority_eq [OF ne] log_wf_def log_map_def idx_in_range)
qed

lemma Make_eq:
  assumes dec: "\<And>t v l. dec (enc (t, v, l)) = Some (t, v, map (wireCmd w) l)" and "\<And>x. enc x \<noteq> []"
    and "Log rf \<noteq> []"
  shows "\<exists>rf'. Make dec n i (persister (persist enc rf)) = Some rf'
    \<and> CurrentTerm rf' = CurrentTerm rf \<and> VotedFor rf' = VotedFor rf
    \<and> Log rf' = map (wireCmd w) (Log rf) \<and> State rf' = Follower
    \<and> CommitIndex rf' = base_of (Log rf) \<and> LastApplied rf' = base_of (Log rf)
    \<and> ApplyGo rf' = (if snapshot (persister rf) = [] then [] else [snapshot_msg (snapshot (persister rf))])"
proof -
  have "length (enc x) \<ge> 1" for x using assms(2) [of x] by (cases "enc x") auto
  then have ne: "\<not> length (enc x) < 1" for x by (metis not_le)
  show ?thesis
    using assms(3) ne
    by (auto simp: Make_def Let_def initNextIndex_eq readPersist_def readSnapshot_def dec
        ReadRaftState_def ReadSnapshot_def zero_Raft_def base_of_def hd_map Suc_le_eq)
qed

section \<open>A small leader\<close>

definition ex_leader :: "(nat, unit) Raft" where
  "ex_leader = (zero_Raft 3 1 MakePersister)\<lparr>State := Leader, CurrentTerm := 2, VotedFor := 1,
     Log := take 2 ex_log @ aeEntries ex_args, CommitIndex := 1, LastApplied := 0,
     NextIndex := [4, 4, 4], MatchIndex := [3, 3, 0]\<rparr>"

lemma ex_leader_facts:
  "sync_inv 0 ex_leader ex_rf" "log_wf (Log ex_leader)"
proof -
  have log: "Log ex_leader = take 2 ex_log @ aeEntries ex_args" "Log ex_rf = ex_log"
    by (simp_all add: ex_leader_def ex_rf_def)
  show "log_wf (Log ex_leader)" by code_simp
  have "State ex_leader = Leader" "length (MatchIndex ex_leader) = length (NextIndex ex_leader)"
    "0 < length (NextIndex ex_leader)" "NextIndex ex_leader ! 0 \<le> last_of (Log ex_leader) + 1"
    "CurrentTerm ex_rf \<le> CurrentTerm ex_leader" "0 \<le> CurrentTerm ex_leader" "log_wf (Log ex_rf)"
    "log_map (Log ex_leader) (base_of (Log ex_rf)) = Some (hd (Log ex_rf))"
    by code_simp+
  with \<open>log_wf (Log ex_leader)\<close> show "sync_inv 0 ex_leader ex_rf" by (simp add: sync_inv_def)
qed

section \<open>Properties\<close>

text \<open>
  C6. The leader's retry loop ends and repairs the follower: with more fuel than the next index lies above the start of
  the leader's log the loop returns, and then the follower has every entry of the leader's log, as far back as its own log
  reaches, and the leader has recorded this; or the loop ended with a snapshot that the follower installed, and the next
  run of the loop, with any fuel, has that result; or the next index has fallen to the start of the leader's log and the
  follower, which has compacted its own log, refuses the snapshot, whose index the leader leaves at 0. \<open>sync_inv\<close> asks
  for contiguous logs, a follower not ahead in term, and a follower whose first entry has the term the leader has there;
  \<open>log_matching\<close> is Raft's promise about the logs before the loop.
\<close>

theorem replication_loop_repairs_follower:
  assumes "sync_inv server L F" and "log_matching (Log L) (Log F)"
    and "nat (NextIndex L ! server - base_of (Log L)) < fuel" and "0 < fuel'"
  shows "\<exists>L' F'. syncLoop enc server fuel L F = Some (L', F') \<and> Log L' = Log L
    \<and> (repaired server L' F'
       \<or> (\<exists>L2 F2. syncLoop enc server fuel' L' F' = Some (L2, F2) \<and> Log L2 = Log L \<and> repaired server L2 F2)
       \<or> 0 < base_of (Log F) \<and> NextIndex L' ! server \<le> base_of (Log L))"
proof -
  obtain k where k: "fuel' = Suc k" using assms(4) gr0_implies_Suc by blast
  from syncLoop_result [OF assms(1-3)] sync_after_snapshot [of server _ _ enc k] show ?thesis unfolding k by metis
qed

text \<open>A follower with a conflicting tail, and one that needs the snapshot.\<close>

definition ex_compacted :: "(nat, unit) Raft" where
  "ex_compacted = ex_leader\<lparr>Log := drop 2 (Log ex_leader), NextIndex := [4, 4, 4]\<rparr>"

definition ex_short :: "(nat, unit) Raft" where
  "ex_short = ex_rf\<lparr>Log := take 1 ex_log\<rparr>"

theorem replication_loop_repairs_follower_witness:
  "(\<exists>L' F'. syncLoop ex_enc 0 5 ex_leader ex_rf = Some (L', F') \<and> holds_log (Log ex_leader) (Log F'))
   \<and> (\<exists>L' F' L2 F2. syncLoop ex_enc 0 5 ex_compacted ex_short = Some (L', F')
        \<and> syncLoop ex_enc 0 1 L' F' = Some (L2, F2) \<and> holds_log (Log ex_compacted) (Log F2))"
proof
  have "nat (NextIndex ex_leader ! 0 - base_of (Log ex_leader)) < 5" "log_matching (Log ex_leader) (Log ex_rf)"
    and base: "base_of (Log ex_rf) = 0" by code_simp+
  from replication_loop_repairs_follower [OF ex_leader_facts(1) this(2,1), of 1 ex_enc] base
  obtain L' F' where run: "syncLoop ex_enc 0 5 ex_leader ex_rf = Some (L', F')" "Log L' = Log ex_leader"
    and r: "repaired 0 L' F' \<or> (\<exists>L2 F2. syncLoop ex_enc 0 1 L' F' = Some (L2, F2) \<and> Log L2 = Log ex_leader \<and> repaired 0 L2 F2)"
    by auto
  have "map_option (\<lambda>(L', F'). map_option (\<lambda>(L2, F2). Log F2 = Log F') (syncLoop ex_enc 0 1 L' F')) (syncLoop ex_enc 0 5 ex_leader ex_rf)
      = Some (Some True)" by code_simp
  with run r have "holds_log (Log ex_leader) (Log F')" by (auto simp: repaired_def)
  with run show "\<exists>L' F'. syncLoop ex_enc 0 5 ex_leader ex_rf = Some (L', F') \<and> holds_log (Log ex_leader) (Log F')" by blast
next
  have inv: "sync_inv 0 ex_compacted ex_short"
  proof -
    have "State ex_compacted = Leader" "length (MatchIndex ex_compacted) = length (NextIndex ex_compacted)"
      "0 < length (NextIndex ex_compacted)" "NextIndex ex_compacted ! 0 \<le> last_of (Log ex_compacted) + 1"
      "CurrentTerm ex_short \<le> CurrentTerm ex_compacted" "0 \<le> CurrentTerm ex_compacted" "log_wf (Log ex_short)" "log_wf (Log ex_compacted)"
      "log_map (Log ex_compacted) (base_of (Log ex_short)) = None"
      by code_simp+
    then show ?thesis by (simp add: sync_inv_def)
  qed
  have "nat (NextIndex ex_compacted ! 0 - base_of (Log ex_compacted)) < 5" "log_matching (Log ex_compacted) (Log ex_short)"
    and base: "base_of (Log ex_short) = 0" by code_simp+
  from replication_loop_repairs_follower [OF inv this(2,1), of 1 ex_enc] base
  obtain L' F' where run: "syncLoop ex_enc 0 5 ex_compacted ex_short = Some (L', F')" "Log L' = Log ex_compacted"
    and r: "repaired 0 L' F' \<or> (\<exists>L2 F2. syncLoop ex_enc 0 1 L' F' = Some (L2, F2) \<and> Log L2 = Log ex_compacted \<and> repaired 0 L2 F2)"
    by auto
  have "map_option (\<lambda>(L', F'). MatchIndex L' ! 0 = last_of (Log L')) (syncLoop ex_enc 0 5 ex_compacted ex_short) = Some False" by code_simp
  with run r obtain L2 F2 where "syncLoop ex_enc 0 1 L' F' = Some (L2, F2)" "Log L2 = Log ex_compacted" "repaired 0 L2 F2"
    by (auto simp: repaired_def)
  with run show "\<exists>L' F' L2 F2. syncLoop ex_enc 0 5 ex_compacted ex_short = Some (L', F')
        \<and> syncLoop ex_enc 0 1 L' F' = Some (L2, F2) \<and> holds_log (Log ex_compacted) (Log F2)"
    by (metis repaired_def)
qed

text \<open>
  What the leader sends: when the next index of a server lies in its log, the leader's request
  carries exactly the rest of its log after the previous index, with the term of the entry there, and
  a commit index that the request covers.
\<close>

theorem leader_request_is_excerpt:
  assumes "log_wf (Log rf)" and "State rf = Leader" and "server < length (NextIndex rf)"
    and "base_of (Log rf) < NextIndex rf ! server" and "NextIndex rf ! server \<le> last_of (Log rf) + 1"
    and "CommitIndex rf \<le> last_of (Log rf)"
  shows "\<exists>a. sendSingleAppendEntries_prepare server (CurrentTerm rf) rf = Some (SendAppend a)
    \<and> excerpt a (Log rf) \<and> aePrevLogIndex a = NextIndex rf ! server - 1 \<and> aeTerm a = CurrentTerm rf
    \<and> aeLeaderCommit a \<le> aePrevLogIndex a + int (length (aeEntries a))"
  using prepare_excerpt [OF assms(1-5)] assms(6) by (metis excerpt_def)

theorem leader_request_is_excerpt_witness:
  "\<exists>a. sendSingleAppendEntries_prepare 2 2 ex_leader = Some (SendAppend a) \<and> excerpt a (Log ex_leader)"
proof -
  have "State ex_leader = Leader" "2 < length (NextIndex ex_leader)"
    "base_of (Log ex_leader) < NextIndex ex_leader ! 2"
    "NextIndex ex_leader ! 2 \<le> last_of (Log ex_leader) + 1"
    "CommitIndex ex_leader \<le> last_of (Log ex_leader)" "CurrentTerm ex_leader = 2"
    by code_simp+
  with leader_request_is_excerpt [OF ex_leader_facts(2), of 2] show ?thesis by auto
qed

text \<open>
  findMajority returns the greatest index that a majority stores: more than half of the peers have
  a match index at least as high, and no higher index has that.
\<close>

theorem findMajority_is_greatest_majority_index:
  assumes "MatchIndex rf \<noteq> []"
  shows "\<exists>v. findMajority rf = Some v
    \<and> length (MatchIndex rf) < 2 * card (stored_by (MatchIndex rf) v)
    \<and> (\<forall>v' > v. 2 * card (stored_by (MatchIndex rf) v') \<le> length (MatchIndex rf))"
  using majority_index_quorum [OF assms] findMajority_eq [OF assms] by auto

theorem findMajority_is_greatest_majority_index_witness:
  "\<exists>v. findMajority ex_leader = Some v \<and> 3 < 2 * card (stored_by (MatchIndex ex_leader) v)"
proof -
  have "MatchIndex ex_leader \<noteq> []" "length (MatchIndex ex_leader) = 3" by code_simp+
  with findMajority_is_greatest_majority_index [of ex_leader] show ?thesis by auto
qed

text \<open>
  The quorums meet: every set of voters large enough to elect a leader contains a peer that has
  stored the log up to the index the old leader may commit.
\<close>

theorem election_meets_commit:
  assumes "findMajority rf = Some v" and "election_quorum (length (MatchIndex rf)) S"
  shows "\<exists>p \<in> S. v \<le> MatchIndex rf ! p"
proof -
  have "commit_quorum (length (MatchIndex rf)) (stored_by (MatchIndex rf) v)"
    using findMajority_SomeD [OF assms(1)] by (auto simp: commit_quorum_def)
  then obtain p where "p \<in> stored_by (MatchIndex rf) v" "p \<in> S"
    using quorums.quorums_meet assms(2) by blast
  then show ?thesis by (auto simp: stored_by_def)
qed

theorem election_meets_commit_witness: "\<exists>p \<in> {0, 2}. 3 \<le> MatchIndex ex_leader ! p"
proof -
  have "findMajority ex_leader = Some 3" "length (MatchIndex ex_leader) = 3" by code_simp+
  moreover have "election_quorum 3 {0, 2}" by (simp add: election_quorum_def)
  ultimately show ?thesis using election_meets_commit [of ex_leader 3 "{0, 2}"] by simp
qed

text \<open>
  C13. The leader commits by counting, and only entries of its own term: checkCommitIndex never panics
  when the match indices lie in the log, never moves the commit index back, and moves it only to an
  index that a majority stores and whose entry has the current term.
\<close>

theorem checkCommitIndex_commits_by_majority:
  assumes "log_wf (Log rf)" and "base_of (Log rf) \<le> CommitIndex rf" and "MatchIndex rf \<noteq> []"
    and "\<forall>i \<in> set (MatchIndex rf). i \<le> last_of (Log rf)"
  shows "\<exists>rf'. checkCommitIndex rf = Some rf' \<and> CommitIndex rf \<le> CommitIndex rf'
    \<and> (CommitIndex rf' \<noteq> CommitIndex rf \<longrightarrow>
         length (MatchIndex rf) < 2 * card (stored_by (MatchIndex rf) (CommitIndex rf'))
         \<and> map_option CommandTerm (log_map (Log rf) (CommitIndex rf')) = Some (CurrentTerm rf))
    \<and> rf' = rf\<lparr>CommitIndex := CommitIndex rf'\<rparr>"
  using majority_index_quorum(1) [OF assms(3)] by (auto simp: checkCommitIndex_eq [OF assms])

theorem checkCommitIndex_commits_by_majority_witness:
  "\<exists>rf'. checkCommitIndex ex_leader = Some rf' \<and> CommitIndex ex_leader \<le> CommitIndex rf'"
proof -
  have "base_of (Log ex_leader) \<le> CommitIndex ex_leader" "MatchIndex ex_leader \<noteq> []"
    "\<forall>i \<in> set (MatchIndex ex_leader). i \<le> last_of (Log ex_leader)"
    by code_simp+
  from checkCommitIndex_commits_by_majority [OF ex_leader_facts(2) this] show ?thesis by blast
qed

text \<open>
  C28. The main loop applies exactly the committed entries, in order and once: it sends the entries
  with the indices after the last applied one up to the commit index, and then everything committed
  is applied.
\<close>

theorem applyCommitted_in_order:
  assumes "log_wf (Log rf)" and "base_of (Log rf) \<le> LastApplied rf"
    and "LastApplied rf \<le> CommitIndex rf" and "CommitIndex rf \<le> last_of (Log rf)"
  shows "\<exists>rf'. applyCommitted rf = Some rf' \<and> LastApplied rf' = CommitIndex rf \<and> Log rf' = Log rf
    \<and> ApplyCh rf' = ApplyCh rf @
        map (\<lambda>i. apply_of (the (log_map (Log rf) i))) [LastApplied rf + 1 .. CommitIndex rf]
    \<and> map MsgCommandIndex (drop (length (ApplyCh rf)) (ApplyCh rf')) = [LastApplied rf + 1 .. CommitIndex rf]"
proof -
  have "CommandIndex (the (log_map (Log rf) i)) = i"
    if i: "i \<in> set [LastApplied rf + 1 .. CommitIndex rf]" for i
  proof -
    have "i \<in> dom (log_map (Log rf))" using i assms by (auto simp: dom_log_map)
    then show ?thesis using log_map_index [OF assms(1)] by auto
  qed
  then have "map (\<lambda>i. CommandIndex (the (log_map (Log rf) i))) [LastApplied rf + 1 .. CommitIndex rf]
      = [LastApplied rf + 1 .. CommitIndex rf]"
    by (intro map_idI)
  then show ?thesis by (simp add: applyCommitted_eq [OF assms] apply_of_def o_def)
qed

theorem applyCommitted_in_order_witness:
  "\<exists>rf'. applyCommitted ex_leader = Some rf' \<and> LastApplied rf' = 1"
proof -
  have "base_of (Log ex_leader) \<le> LastApplied ex_leader" "LastApplied ex_leader \<le> CommitIndex ex_leader"
    "CommitIndex ex_leader \<le> last_of (Log ex_leader)" "CommitIndex ex_leader = 1"
    by code_simp+
  with applyCommitted_in_order [OF ex_leader_facts(2)] show ?thesis by auto
qed

text \<open>
  Restarting from what was saved restores the peer: Make on the persister of a peer that has just
  saved its state gives a follower with the same term, vote and log (up to what the encoder drops of
  a command), whose applied and committed index is the start of the log, and which will deliver the
  saved snapshot. The encoder \<open>enc\<close> and decoder \<open>dec\<close> of \<open>encoding/gob\<close> are assumed to invert each
  other up to \<open>w\<close>, and an encoding is never empty.
\<close>

theorem restart_restores_saved_state:
  assumes "\<And>t v l. dec (enc (t, v, l)) = Some (t, v, map (wireCmd w) l)" and "\<And>x. enc x \<noteq> []"
    and "Log rf \<noteq> []"
  shows "\<exists>rf'. Make dec n i (persister (persist enc rf)) = Some rf'
    \<and> CurrentTerm rf' = CurrentTerm rf \<and> VotedFor rf' = VotedFor rf
    \<and> Log rf' = map (wireCmd w) (Log rf) \<and> State rf' = Follower
    \<and> CommitIndex rf' = base_of (Log rf) \<and> LastApplied rf' = base_of (Log rf)
    \<and> ApplyGo rf' = (if snapshot (persister rf) = [] then [] else [snapshot_msg (snapshot (persister rf))])"
  using assms by (rule Make_eq)

theorem restart_restores_saved_state_witness:
  "\<exists>rf'. Make (\<lambda>bs. map_option (\<lambda>(t, v, l). (t, v, map (wireCmd id) l)) (idx bs 0)) 3 0
        (persister (persist (\<lambda>x. [x])
          ((zero_Raft 3 0 MakePersister)\<lparr>CurrentTerm := 4, Log := ex_log\<rparr>))) = Some rf'
    \<and> CurrentTerm rf' = 4 \<and> Log rf' = map (wireCmd id) ex_log"
proof -
  let ?rf = "(zero_Raft 3 0 MakePersister)\<lparr>CurrentTerm := 4, Log := ex_log\<rparr>
      :: (nat, int \<times> int \<times> nat command list) Raft"
  have "Log ?rf \<noteq> []" by (simp add: ex_log_def)
  from restart_restores_saved_state [where dec = "\<lambda>bs. map_option (\<lambda>(t, v, l). (t, v, map (wireCmd id) l)) (idx bs 0)"
      and enc = "\<lambda>x. [x]" and w = id and n = 3 and i = 0, OF _ _ this]
  show ?thesis by auto
qed

text \<open>
  A leader's snapshot never reaches a follower that has taken a snapshot of its own: the request
  the leader prepares leaves \<open>SnapshotIndex\<close> at zero, so a follower whose log starts after index 0
  refuses it without any change, and the refusal changes nothing at the leader either.
\<close>

theorem leader_snapshot_refused_by_compacted_follower:
  assumes "sendSingleAppendEntries_prepare server t L = Some (SendInstall a)"
    and "Log F \<noteq> []" and "0 < base_of (Log F)" and "CurrentTerm F \<le> t" and "0 \<le> t"
  shows "InstallSnapshot enc a F = Some (F, \<lparr>isrTerm = 0, isrSuccess = False\<rparr>)
    \<and> sendSingleInstallSnapshot_reply enc server t a \<lparr>isrTerm = 0, isrSuccess = False\<rparr> L = Some L"
  using assms
  by (auto simp: sendSingleAppendEntries_prepare_def InstallSnapshot_def sendSingleInstallSnapshot_reply_def
      base_of_def Option.bind_eq_Some_conv split: if_splits)

theorem leader_snapshot_refused_by_compacted_follower_witness:
  "\<exists>a. sendSingleAppendEntries_prepare 0 2
        (ex_leader\<lparr>Log := drop 3 (Log ex_leader), NextIndex := [2, 4, 4]\<rparr>) = Some (SendInstall a)
     \<and> InstallSnapshot ex_enc a (ex_rf\<lparr>Log := drop 1 ex_log\<rparr>)
        = Some (ex_rf\<lparr>Log := drop 1 ex_log\<rparr>, \<lparr>isrTerm = 0, isrSuccess = False\<rparr>)"
proof -
  let ?L = "ex_leader\<lparr>Log := drop 3 (Log ex_leader), NextIndex := [2, 4, 4]\<rparr>"
  let ?F = "ex_rf\<lparr>Log := drop 1 ex_log\<rparr>"
  let ?a = "\<lparr>isTerm = 2, isLeaderId = 1, isSnapshotIndex = 0, isSnapshotData = [],
      isLastSnapshotCommand = \<lparr>CommandIndex = 3, Command = Some 5, CommandTerm = 2\<rparr>\<rparr>
      :: (nat, unit) InstallSnapshotArgs"
  have "sendSingleAppendEntries_prepare 0 2 ?L = Some (SendInstall ?a)"
    "Log ?F \<noteq> []" "0 < base_of (Log ?F)" "CurrentTerm ?F \<le> 2" by code_simp+
  with leader_snapshot_refused_by_compacted_follower [of 0 2 ?L ?a ?F ex_enc] show ?thesis by auto
qed

text \<open>
  Start appends at the leader and only there: on a leader it adds one entry with the next index
  and the current term, keeps the log contiguous and every old entry, records it as stored by the
  leader itself and returns that index; on any other peer it changes nothing.
\<close>

theorem Start_appends_at_leader:
  assumes "log_wf (Log rf)" and "me rf < length (NextIndex rf)" and "length (MatchIndex rf) = length (NextIndex rf)"
  shows "if State rf = Leader
    then \<exists>rf'. Start enc cmd rf = Some (rf', last_of (Log rf) + 1, CurrentTerm rf, True)
      \<and> log_wf (Log rf') \<and> last_of (Log rf') = last_of (Log rf) + 1
      \<and> log_map (Log rf') = (log_map (Log rf))(last_of (Log rf) + 1 \<mapsto>
           \<lparr>CommandIndex = last_of (Log rf) + 1, Command = Some cmd, CommandTerm = CurrentTerm rf\<rparr>)
      \<and> MatchIndex rf' ! me rf = last_of (Log rf) + 1
    else Start enc cmd rf = Some (rf, - 1, - 1, False)"
proof (cases "State rf = Leader")
  case True
  let ?c = "\<lparr>CommandIndex = last_of (Log rf) + 1, Command = Some cmd, CommandTerm = CurrentTerm rf\<rparr>"
  have ne: "Log rf \<noteq> []" using assms(1) by (simp add: log_wf_def)
  have "log_wf (Log rf @ [?c])"
    using assms(1) ne by (simp add: log_wf_iff log_from_append last_of_eq)
  moreover have "log_map (Log rf @ [?c]) = (log_map (Log rf))(last_of (Log rf) + 1 \<mapsto> ?c)"
    using assms(1) ne
    by (auto simp: log_map_append entries_map_def idx_def fun_eq_iff last_of_eq log_map_def
        nth_append nat_less_iff)
  ultimately show ?thesis
    using True ne assms(2,3)
    by (simp add: Start_def GetState_def Start_append_def Let_def last_of_def)
next
  case False
  then show ?thesis by (simp add: Start_def GetState_def)
qed

theorem Start_appends_at_leader_witness:
  "\<exists>rf'. Start ex_enc 6 ex_leader = Some (rf', 4, 2, True) \<and> last_of (Log rf') = 4"
proof -
  have "me ex_leader < length (NextIndex ex_leader)" "State ex_leader = Leader"
    "length (MatchIndex ex_leader) = length (NextIndex ex_leader)"
    "last_of (Log ex_leader) = 3" "CurrentTerm ex_leader = 2"
    by code_simp+
  with Start_appends_at_leader [OF ex_leader_facts(2), of ex_enc 6] show ?thesis by auto
qed

text \<open>
  The debugging check checkIndx fires exactly on the logs that are not contiguous.
\<close>

theorem checkIndx_iff_gap: "checkIndx (Log rf) \<longleftrightarrow> \<not> contig (Log rf)"
  by (cases "Log rf") (auto simp only: checkIndx_Cons contig.simps checkIndx.simps)

end
