(* ===== verification/Raft_Cluster.thy ===== *)
theory Raft_Cluster
  imports Raft_Peer
begin

text \<open>
  A cluster of Raft peers as a state machine. The state has the peers, the place in its code where
  each peer's main goroutine is (\<open>pc\<close>), and the work in progress: goroutines between two locked
  regions and messages in flight. An action is one locked region of one goroutine
  (\<open>src/src/raft/raft.go\<close>), the delivery of one message, its loss (\<open>src/src/labrpc/labrpc.go\<close> may
  lose a request or a reply, delays both arbitrarily, and never duplicates one), a call of the
  service, or a restart of a peer from its persister.

  \<^item> The main goroutine reads the state, blocks in the \<open>select\<close> of that state, runs the chosen case
    region by region, and then applies what is committed. Timers may fire at any time. The
    \<open>default\<close> case may be taken although a goroutine waits to send, since that goroutine may not have
    reached its send yet.
  \<^item> Reads of the state and of the term that the code makes one after the other, each under its own
    lock, to decide whether to send are one action: the term of a peer never decreases.
  \<^item> A panic ends the process: the action has no result.
  \<^item> The content of a message is what the sender had when it prepared it; \<open>w\<close> is what \<open>encoding/gob\<close>
    keeps of a command (no channels).
\<close>

section \<open>States and actions\<close>

datatype pc =
    PcTop
  | PcSelect role
  | PcToFollower
  | PcLeaderToFollower
  | PcCandState
  | PcCandTerm
  | PcCandArgs
  | PcCandBroadcast RequestVoteArgs
  | PcTestLeader
  | PcBroadcast
  | PcCheckCommit
  | PcApply

datatype choice = OnAppendEntry | OnRequestVote | OnTimer | OnDefault

datatype ('c, 'b) work =
    WVote nat nat RequestVoteArgs int
  | WVoteReq nat nat RequestVoteArgs int
  | WVoteRep nat int RequestVoteReply
  | WBcast nat
  | WAppend nat nat int
  | WAppendSend nat nat "'c AppendEntriesArgs" int
  | WAppendReq nat nat "'c AppendEntriesArgs" int
  | WAppendRep nat nat "'c AppendEntriesArgs" int AppendEntriesReply
  | WInstall nat nat "('c, 'b) InstallSnapshotArgs" int
  | WInstallReq nat nat "('c, 'b) InstallSnapshotArgs" int
  | WInstallRep nat nat "('c, 'b) InstallSnapshotArgs" int InstallSnapshotReply
  | WStart nat 'c int

record ('c, 'b) cluster =
  nodes :: "('c, 'b) Raft list"
  pcs :: "pc list"
  work :: "('c, 'b) work list"

datatype ('c, 'b) action =
    Select nat choice int
  | Main nat int
  | Work nat
  | Lose nat
  | ClientStart nat 'c
  | TakeSnapshot nat "'b list" "('c, 'b) apply_msg"
  | DeliverSnapshot nat nat
  | Restart nat
  | KillNode nat

section \<open>The main goroutine\<close>

fun select_case :: "role \<Rightarrow> choice \<Rightarrow> int \<Rightarrow> ('c, 'b) Raft \<Rightarrow> (('c, 'b) Raft \<times> pc) option" where
  "select_case st OnAppendEntry r rf =
     (if AppendEntryCh rf = 0 then None
      else let rf' = rf\<lparr>AppendEntryCh := AppendEntryCh rf - 1\<rparr> in
           Some (case st of
                   Follower \<Rightarrow> (resetTimer r rf', PcApply)
                 | Candidate \<Rightarrow> (resetTimer r rf', PcToFollower)
                 | Leader \<Rightarrow> (rf', PcLeaderToFollower)))"
| "select_case st OnRequestVote r rf =
     (if st \<noteq> Follower \<or> RequestVoteCh rf = 0 then None
      else Some (resetTimer r (rf\<lparr>RequestVoteCh := RequestVoteCh rf - 1\<rparr>), PcApply))"
| "select_case st OnTimer r rf =
     (case st of
        Follower \<Rightarrow> Some (rf, PcCandState)
      | Candidate \<Rightarrow> Some (rf\<lparr>Timer := generate_rand r\<rparr>, PcCandState)
      | Leader \<Rightarrow> None)"
| "select_case st OnDefault r rf =
     (case st of
        Follower \<Rightarrow> None
      | Candidate \<Rightarrow> Some (rf, PcTestLeader)
      | Leader \<Rightarrow> Some (rf, PcBroadcast))"

fun main_step ::
  "('c, 'b) encoder \<Rightarrow> nat \<Rightarrow> int \<Rightarrow> pc \<Rightarrow> ('c, 'b) Raft
     \<Rightarrow> (('c, 'b) Raft \<times> pc \<times> ('c, 'b) work list) option" where
  "main_step enc i r PcTop rf =
     (if Process rf then None else Some (rf, PcSelect (getState rf), []))"
| "main_step enc i r (PcSelect st) rf = None"
| "main_step enc i r PcToFollower rf = Some (updateToFollower rf, PcApply, [])"
| "main_step enc i r PcLeaderToFollower rf = Some (resetTimer r (updateToFollower rf), PcApply, [])"
| "main_step enc i r PcCandState rf = Some (becomeCandidate rf, PcCandTerm, [])"
| "main_step enc i r PcCandTerm rf = Some (updateBeforeRequestVote enc r rf, PcCandArgs, [])"
| "main_step enc i r PcCandArgs rf =
     do { args \<leftarrow> candidateArgs rf; Some (rf, PcCandBroadcast args, []) }"
| "main_step enc i r (PcCandBroadcast args) rf =
     Some (rf, PcApply, map (\<lambda>(j, a, t). WVote i j a t) (broadcastRequestVote args rf))"
| "main_step enc i r PcTestLeader rf = do { rf' \<leftarrow> testLeader rf; Some (rf', PcApply, []) }"
| "main_step enc i r PcBroadcast rf =
     Some (rf, PcCheckCommit, map (\<lambda>(j, t). WAppend i j t) (broadcastAppendEntries rf))"
| "main_step enc i r PcCheckCommit rf = do { rf' \<leftarrow> checkCommitIndex rf; Some (rf', PcApply, []) }"
| "main_step enc i r PcApply rf = do { rf' \<leftarrow> applyCommitted rf; Some (rf', PcTop, []) }"

section \<open>Goroutines and messages\<close>

definition wireAppend :: "('c \<Rightarrow> 'c) \<Rightarrow> 'c AppendEntriesArgs \<Rightarrow> 'c AppendEntriesArgs" where
  "wireAppend w a = a\<lparr>aeEntries := map (wireCmd w) (aeEntries a)\<rparr>"

definition wireInstall ::
  "('c \<Rightarrow> 'c) \<Rightarrow> ('c, 'b) InstallSnapshotArgs \<Rightarrow> ('c, 'b) InstallSnapshotArgs" where
  "wireInstall w a = a\<lparr>isLastSnapshotCommand := wireCmd w (isLastSnapshotCommand a)\<rparr>"

definition on_node ::
  "nat \<Rightarrow> (('c, 'b) Raft \<Rightarrow> (('c, 'b) Raft \<times> 'x) option) \<Rightarrow> ('c, 'b) Raft list
     \<Rightarrow> (('c, 'b) Raft list \<times> 'x) option" where
  "on_node i f ns = do { rf \<leftarrow> idx ns (int i); (rf', x) \<leftarrow> f rf; Some (ns[i := rf'], x) }"

text \<open>One piece of work: the peer it changes, how, and the work that follows from it.\<close>

fun do_work ::
  "('c, 'b) encoder \<Rightarrow> ('c \<Rightarrow> 'c) \<Rightarrow> ('c, 'b) work
     \<Rightarrow> nat \<times> (('c, 'b) Raft \<Rightarrow> (('c, 'b) Raft \<times> ('c, 'b) work list) option)" where
  "do_work enc w (WVote i j args t) =
     (i, \<lambda>rf. Some (rf, if requestVote_wanted t rf then [WVoteReq i j args t] else []))"
| "do_work enc w (WVoteReq i j args t) =
     (j, \<lambda>rf. do { (rf', r) \<leftarrow> RequestVote enc args rf; Some (rf', [WVoteRep i t r]) })"
| "do_work enc w (WVoteRep i t r) =
     (i, \<lambda>rf. do { rf' \<leftarrow> sendSingleRequestVote_reply enc t r rf; Some (rf', []) })"
| "do_work enc w (WBcast i) =
     (i, \<lambda>rf. Some (rf, map (\<lambda>(j, t). WAppend i j t) (broadcastAppendEntries rf)))"
| "do_work enc w (WAppend i j t) =
     (i, \<lambda>rf. do { act \<leftarrow> sendSingleAppendEntries_prepare j t rf;
                   Some (rf, case act of Quit \<Rightarrow> [] | SendInstall a \<Rightarrow> [WInstall i j a t]
                                       | SendAppend a \<Rightarrow> [WAppendSend i j a t]) })"
| "do_work enc w (WAppendSend i j a t) =
     (i, \<lambda>rf. Some (rf, if append_wanted t rf then [WAppendReq i j a t] else []))"
| "do_work enc w (WAppendReq i j a t) =
     (j, \<lambda>rf. do { (rf', r) \<leftarrow> AppendEntries enc (wireAppend w a) rf; Some (rf', [WAppendRep i j a t r]) })"
| "do_work enc w (WAppendRep i j a t r) =
     (i, \<lambda>rf. do { (rf', ready) \<leftarrow> sendSingleAppendEntries_reply enc j t a r rf;
                   Some (rf', if ready then [] else [WAppend i j t]) })"
| "do_work enc w (WInstall i j a t) =
     (i, \<lambda>rf. Some (rf, if append_wanted t rf then [WInstallReq i j a t] else []))"
| "do_work enc w (WInstallReq i j a t) =
     (j, \<lambda>rf. do { (rf', r) \<leftarrow> InstallSnapshot enc (wireInstall w a) rf; Some (rf', [WInstallRep i j a t r]) })"
| "do_work enc w (WInstallRep i j a t r) =
     (i, \<lambda>rf. do { rf' \<leftarrow> sendSingleInstallSnapshot_reply enc j t a r rf; Some (rf', []) })"
| "do_work enc w (WStart i c t) =
     (i, \<lambda>rf. do { (rf', index) \<leftarrow> Start_append enc c t rf; Some (rf', [WBcast i]) })"

text \<open>Only messages can be lost; the goroutine that waits for the reply then ends.\<close>

fun is_message :: "('c, 'b) work \<Rightarrow> bool" where
  "is_message (WVoteReq i j a t) = True"
| "is_message (WVoteRep i t r) = True"
| "is_message (WAppendReq i j a t) = True"
| "is_message (WAppendRep i j a t r) = True"
| "is_message (WInstallReq i j a t) = True"
| "is_message (WInstallRep i j a t r) = True"
| "is_message x = False"

fun owner :: "('c, 'b) work \<Rightarrow> nat" where
  "owner (WVote i j a t) = i" | "owner (WVoteReq i j a t) = i" | "owner (WVoteRep i t r) = i"
| "owner (WBcast i) = i" | "owner (WAppend i j t) = i" | "owner (WAppendSend i j a t) = i"
| "owner (WAppendReq i j a t) = i" | "owner (WAppendRep i j a t r) = i"
| "owner (WInstall i j a t) = i" | "owner (WInstallReq i j a t) = i"
| "owner (WInstallRep i j a t r) = i" | "owner (WStart i c t) = i"

definition drop_nth :: "nat \<Rightarrow> 'a list \<Rightarrow> 'a list" where
  "drop_nth k xs = take k xs @ drop (Suc k) xs"

section \<open>Actions\<close>

fun do_action ::
  "('c, 'b) encoder \<Rightarrow> ('c, 'b) decoder \<Rightarrow> ('c \<Rightarrow> 'c) \<Rightarrow> ('c, 'b) action \<Rightarrow> ('c, 'b) cluster
     \<Rightarrow> ('c, 'b) cluster option" where
  "do_action enc dec w (Select i ch r) s =
     do {
       pc \<leftarrow> idx (pcs s) (int i);
       case pc of
         PcSelect st \<Rightarrow>
           do { (ns, pc') \<leftarrow> on_node i (select_case st ch r) (nodes s);
                Some (s\<lparr>nodes := ns, pcs := (pcs s)[i := pc']\<rparr>) }
       | _ \<Rightarrow> None
     }"
| "do_action enc dec w (Main i r) s =
     do {
       pc \<leftarrow> idx (pcs s) (int i);
       (ns, pc', ws) \<leftarrow> on_node i (main_step enc i r pc) (nodes s);
       Some (s\<lparr>nodes := ns, pcs := (pcs s)[i := pc'], work := work s @ ws\<rparr>)
     }"
| "do_action enc dec w (Work k) s =
     do {
       x \<leftarrow> idx (work s) (int k);
       (ns, ws) \<leftarrow> on_node (fst (do_work enc w x)) (snd (do_work enc w x)) (nodes s);
       Some (s\<lparr>nodes := ns, work := drop_nth k (work s) @ ws\<rparr>)
     }"
| "do_action enc dec w (Lose k) s =
     do {
       x \<leftarrow> idx (work s) (int k);
       if is_message x then Some (s\<lparr>work := drop_nth k (work s)\<rparr>) else None
     }"
| "do_action enc dec w (ClientStart i c) s =
     do {
       rf \<leftarrow> idx (nodes s) (int i);
       let (t, isLeader) = GetState rf;
       Some (if isLeader then s\<lparr>work := work s @ [WStart i c t]\<rparr> else s)
     }"
| "do_action enc dec w (TakeSnapshot i snap m) s =
     do {
       (ns, u) \<leftarrow> on_node i (\<lambda>rf. if m \<in> set (ApplyCh rf)
                                  then do { rf' \<leftarrow> StartSnapshot enc snap m rf; Some (rf', ()) }
                                  else None) (nodes s);
       Some (s\<lparr>nodes := ns\<rparr>)
     }"
| "do_action enc dec w (DeliverSnapshot i k) s =
     do {
       (ns, u) \<leftarrow> on_node i (\<lambda>rf. do { m \<leftarrow> idx (ApplyGo rf) (int k);
                                       Some (rf\<lparr>ApplyCh := ApplyCh rf @ [m],
                                                ApplyGo := drop_nth k (ApplyGo rf)\<rparr>, ()) }) (nodes s);
       Some (s\<lparr>nodes := ns\<rparr>)
     }"
| "do_action enc dec w (Restart i) s =
     do {
       (ns, u) \<leftarrow> on_node i (\<lambda>rf. do { rf' \<leftarrow> Make dec (length (nodes s)) i (Copy (persister rf));
                                       Some (rf', ()) }) (nodes s);
       Some (s\<lparr>nodes := ns, pcs := (pcs s)[i := PcTop], work := filter (\<lambda>x. owner x \<noteq> i) (work s)\<rparr>)
     }"
| "do_action enc dec w (KillNode i) s =
     do {
       (ns, u) \<leftarrow> on_node i (\<lambda>rf. Some (Kill rf, ())) (nodes s);
       Some (s\<lparr>nodes := ns\<rparr>)
     }"

definition init_cluster :: "('c, 'b) decoder \<Rightarrow> nat \<Rightarrow> ('c, 'b) cluster option" where
  "init_cluster dec n =
     do {
       ns \<leftarrow> those (map (\<lambda>i. Make dec n i MakePersister) [0..<n]);
       Some \<lparr>nodes = ns, pcs = replicate n PcTop, work = []\<rparr>
     }"

inductive reachable ::
  "('c, 'b) encoder \<Rightarrow> ('c, 'b) decoder \<Rightarrow> ('c \<Rightarrow> 'c) \<Rightarrow> nat \<Rightarrow> ('c, 'b) cluster \<Rightarrow> bool"
  for enc :: "('c, 'b) encoder" and dec :: "('c, 'b) decoder" and w :: "'c \<Rightarrow> 'c" and n :: nat
where
  start: "init_cluster dec n = Some s \<Longrightarrow> reachable enc dec w n s"
| step: "reachable enc dec w n s \<Longrightarrow> do_action enc dec w a s = Some t \<Longrightarrow> reachable enc dec w n t"

fun run ::
  "('c, 'b) encoder \<Rightarrow> ('c, 'b) decoder \<Rightarrow> ('c \<Rightarrow> 'c) \<Rightarrow> ('c, 'b) action list \<Rightarrow> ('c, 'b) cluster
     \<Rightarrow> ('c, 'b) cluster option" where
  "run enc dec w [] s = Some s"
| "run enc dec w (a # as) s = do { t \<leftarrow> do_action enc dec w a s; run enc dec w as t }"

lemma run_reachable:
  "reachable enc dec w n s \<Longrightarrow> run enc dec w as s = Some t \<Longrightarrow> reachable enc dec w n t"
  by (induction as arbitrary: s) (auto simp: Option.bind_eq_Some_conv intro: reachable.step)

section \<open>What every step keeps\<close>

text \<open>
  \<open>saved\<close>: the persister holds the peer's term and log, up to what the encoder drops of commands; a
  peer that has never saved anything is in its initial state.
\<close>

definition saved :: "('c, 'b) decoder \<Rightarrow> ('c \<Rightarrow> 'c) \<Rightarrow> ('c, 'b) Raft \<Rightarrow> bool" where
  "saved dec w rf \<longleftrightarrow>
     (if raftstate (persister rf) = []
      then CurrentTerm rf = 0 \<and> Log rf = [\<lparr>CommandIndex = 0, Command = None, CommandTerm = 0\<rparr>]
      else \<exists>v. dec (raftstate (persister rf)) = Some (CurrentTerm rf, v, map (wireCmd w) (Log rf)))"

definition node_ok :: "('c, 'b) decoder \<Rightarrow> ('c \<Rightarrow> 'c) \<Rightarrow> ('c, 'b) Raft \<Rightarrow> bool" where
  "node_ok dec w rf \<longleftrightarrow> contig (Log rf) \<and> saved dec w rf"

text \<open>A step of one peer that keeps this and does not lower the term.\<close>

definition improves :: "('c, 'b) decoder \<Rightarrow> ('c \<Rightarrow> 'c) \<Rightarrow> ('c, 'b) Raft \<Rightarrow> ('c, 'b) Raft \<Rightarrow> bool" where
  "improves dec w rf rf' \<longleftrightarrow>
     (node_ok dec w rf \<longrightarrow> node_ok dec w rf' \<and> CurrentTerm rf \<le> CurrentTerm rf')"

fun work_ok :: "('c, 'b) work \<Rightarrow> bool" where
  "work_ok (WAppendSend i j a t) = log_from (aePrevLogIndex a + 1) (aeEntries a)"
| "work_ok (WAppendReq i j a t) = log_from (aePrevLogIndex a + 1) (aeEntries a)"
| "work_ok x = True"

definition core :: "('c, 'b) Raft \<Rightarrow> 'b list \<times> int \<times> 'c command list" where
  "core rf = (raftstate (persister rf), CurrentTerm rf, Log rf)"

lemma improves_core: "core rf' = core rf \<Longrightarrow> improves dec w rf rf'"
  by (simp add: core_def improves_def node_ok_def saved_def)

lemma wireCmd_idem: "(\<And>c. w (w c) = w c) \<Longrightarrow> wireCmd w (wireCmd w c) = wireCmd w c"
  by (simp add: wireCmd_def option.map_comp o_def)

text \<open>
  The documented behaviour of the encoder and decoder of \<open>encoding/gob\<close> that the code relies on.
  Inside this locale every step of a peer is shown to \<open>improve\<close> it.
\<close>

locale gob_codec =
  fixes enc :: "('c, 'b) encoder" and dec :: "('c, 'b) decoder" and w :: "'c \<Rightarrow> 'c"
  assumes dec_enc: "dec (enc (t, v, l)) = Some (t, v, map (wireCmd w) l)"
    and enc_not_empty: "enc x \<noteq> []"
    and wire_idem: "w (w c) = w c"
begin

lemma improves_persist:
  assumes "contig (Log rf) \<Longrightarrow> contig (Log rfm)" and "CurrentTerm rf \<le> CurrentTerm rfm"
    and "core rf' = core (persist enc rfm)"
  shows "improves dec w rf rf'"
  using assms by (auto simp: improves_def node_ok_def saved_def core_def dec_enc enc_not_empty)

lemma improves_persist_self:
  assumes "contig (Log rf) \<Longrightarrow> contig (Log rfm)" and "CurrentTerm rf \<le> CurrentTerm rfm"
  shows "improves dec w rf (persist enc rfm)"
  using assms by (rule improves_persist) simp_all

lemma RequestVote_improves:
  "RequestVote enc args rf = Some (rf', r) \<Longrightarrow> improves dec w rf rf'"
  by (auto simp: RequestVote_def Let_def Option.bind_eq_Some_conv split: if_splits
      intro!: improves_persist_self)

lemma AppendEntries_improves:
  assumes ae: "AppendEntries enc args rf = Some (rf', r)"
    and fr: "log_from (aePrevLogIndex args + 1) (aeEntries args)"
  shows "improves dec w rf rf'"
proof (cases "contig (Log rf) \<and> Log rf \<noteq> []")
  case True
  then have wf: "log_wf (Log rf)" by (simp add: log_wf_def)
  have "contig (overwrite args (Log rf))"
    if "\<not> already_there args (Log rf)" "\<not> last_of (Log rf) < aePrevLogIndex args"
    using overwrite_wf(1) [OF wf fr] overwrite_not_empty [OF wf that(1)] that(2) by (simp add: log_wf_def)
  then show ?thesis
    using ae AppendEntries_wf [OF wf, of enc args]
    by (auto simp: AppendEntries_ref_def Let_def accept_def contig_take split: if_splits
        intro!: improves_persist_self)
next
  case False
  show ?thesis
  proof (cases "contig (Log rf)")
    case True
    with False ae show ?thesis
      by (auto simp: AppendEntries_def split: if_splits intro!: improves_persist_self)
  next
    case False
    then show ?thesis by (simp add: improves_def node_ok_def)
  qed
qed

lemma InstallSnapshot_improves:
  assumes "InstallSnapshot enc args rf = Some (rf', r)"
  shows "improves dec w rf rf'"
proof (cases "Log rf' = [isLastSnapshotCommand args]")
  case True
  let ?rfm = "rf\<lparr>Log := [isLastSnapshotCommand args]\<rparr>"
  have "core rf' = core rf \<or> core rf' = core (persist enc ?rfm)"
    using assms
    by (auto simp: InstallSnapshot_def Let_def Option.bind_eq_Some_conv core_def persist_def
        SaveRaftState_def SaveSnapshot_def split: if_splits)
  then show ?thesis by (auto intro: improves_core improves_persist [where rfm = ?rfm])
next
  case False
  with assms have "rf' = rf"
    by (auto simp: InstallSnapshot_def Let_def Option.bind_eq_Some_conv split: if_splits)
  then show ?thesis by (simp add: improves_core)
qed

lemma StartSnapshot_improves:
  assumes "StartSnapshot enc snap m rf = Some rf'"
  shows "improves dec w rf rf'"
proof (cases "rf' = rf")
  case True
  then show ?thesis by (simp add: improves_core)
next
  case False
  with assms obtain l lo where "slice_from (Log rf) lo = Some l" "core rf' = core (persist enc (rf\<lparr>Log := l\<rparr>))"
    by (auto simp: StartSnapshot_def Let_def Option.bind_eq_Some_conv core_def SaveSnapshot_def split: if_splits)
  then show ?thesis
    by (intro improves_persist [where rfm = "rf\<lparr>Log := l\<rparr>"]) (auto simp: go_simps contig_drop)
qed

lemma updateState_improves:
  assumes "updateState enc st (rf\<lparr>CurrentTerm := t\<rparr>) = Some rf'" and "CurrentTerm rf \<le> t"
    and "State rf \<noteq> st" and "st = Follower"
  shows "improves dec w rf rf'"
  using assms by (auto simp: updateState_def intro!: improves_persist_self)

lemma requestVote_reply_improves:
  "sendSingleRequestVote_reply enc t r rf = Some rf' \<Longrightarrow> improves dec w rf rf'"
  by (auto simp: sendSingleRequestVote_reply_def core_def split: if_splits
      intro: improves_core updateState_improves [where rf = rf and t = "rvrTerm r" and st = Follower])

lemma appendEntries_reply_improves:
  assumes "sendSingleAppendEntries_reply enc j t a r rf = Some (rf', d)"
  shows "improves dec w rf rf'"
proof (cases "State rf = Leader \<and> CurrentTerm rf = t \<and> \<not> (\<not> aerSuccess r \<and> aerTerm r > CurrentTerm rf)")
  case True
  with assms have "\<exists>nx mt. rf' = rf\<lparr>NextIndex := nx, MatchIndex := mt\<rparr> \<or> rf' = rf\<lparr>NextIndex := nx\<rparr>"
    unfolding sendSingleAppendEntries_reply_def Let_def
    by (cases "aerSuccess r") (clarsimp split: Option.bind_split_asm, blast)+
  then show ?thesis by (auto simp: core_def intro!: improves_core)
next
  case False
  with assms show ?thesis
    by (cases "State rf = Leader \<and> CurrentTerm rf = t")
      (auto simp: sendSingleAppendEntries_reply_def improves_core intro!: improves_persist_self)
qed

lemma installSnapshot_reply_improves:
  "sendSingleInstallSnapshot_reply enc j t a r rf = Some rf' \<Longrightarrow> improves dec w rf rf'"
  by (auto simp: sendSingleInstallSnapshot_reply_def core_def Option.bind_eq_Some_conv split: if_splits
      intro: improves_core updateState_improves [where rf = rf and t = "isrTerm r" and st = Follower])

lemma Start_append_improves:
  assumes "Start_append enc c t rf = Some (rf', k)"
  shows "improves dec w rf rf'"
proof -
  let ?rfm = "rf\<lparr>Log := Log rf @ [\<lparr>CommandIndex = last_of (Log rf) + 1, Command = Some c, CommandTerm = t\<rparr>]\<rparr>"
  have ne: "Log rf \<noteq> []" using assms by (cases "Log rf = []") (auto simp: Start_append_def)
  have "contig (Log ?rfm)" if "contig (Log rf)"
  proof -
    have "log_wf (Log rf)" using that ne by (simp add: log_wf_def)
    then show ?thesis
      by (auto simp: log_wf_iff last_of_eq [OF \<open>log_wf (Log rf)\<close>] log_from_append contig_log_from)
  qed
  moreover have "core rf' = core (persist enc ?rfm)"
    using assms ne by (auto simp: Start_append_def Let_def Option.bind_eq_Some_conv core_def)
  ultimately show ?thesis by (intro improves_persist [where rfm = ?rfm]) auto
qed

lemma select_case_improves: "select_case st ch r rf = Some (rf', p) \<Longrightarrow> improves dec w rf rf'"
  by (cases ch) (auto simp: resetTimer_def core_def Let_def intro!: improves_core split: if_splits role.splits)

lemma applyLoop_core: "applyLoop i hi rf = Some rf' \<Longrightarrow> core rf' = core rf"
proof (induction i hi rf rule: applyLoop.induct)
  case (1 i hi rf)
  from "1.prems" show ?case
    by (subst (asm) applyLoop.simps)
      (auto simp: Option.bind_eq_Some_conv core_def Let_def split: if_splits dest!: "1.IH")
qed

lemma initNextIndex_core: "initNextIndexAndMatchIndex rf = Some rf' \<Longrightarrow> core rf' = core rf"
  by (auto simp: initNextIndexAndMatchIndex_def core_def Option.bind_eq_Some_conv split: if_splits)

lemma main_step_improves:
  assumes "main_step enc i r p rf = Some (rf', p', ws)"
  shows "improves dec w rf rf'"
proof (cases p)
  case PcCandTerm
  with assms show ?thesis
    by (auto simp: updateBeforeRequestVote_def core_def
        intro!: improves_persist [of _ "rf\<lparr>CurrentTerm := CurrentTerm rf + 1, VotedFor := int (me rf)\<rparr>"])
next
  case PcApply
  with assms show ?thesis
    by (auto simp: applyCommitted_def Option.bind_eq_Some_conv split: if_splits
        intro!: improves_core dest: applyLoop_core)
next
  case PcTestLeader
  with assms show ?thesis
    by (auto simp: testLeader_def Option.bind_eq_Some_conv split: if_splits
        intro!: improves_core dest!: initNextIndex_core) (simp add: core_def)
qed (use assms in \<open>auto simp: updateToFollower_def resetTimer_def becomeCandidate_def setState_def core_def
    checkCommitIndex_def Option.bind_eq_Some_conv split: if_splits intro!: improves_core\<close>)

lemma Make_improves:
  assumes "Make dec n i (Copy (persister rf)) = Some rf'"
  shows "improves dec w rf rf'"
proof (cases "raftstate (persister rf) = []")
  case True
  with assms show ?thesis
    by (auto simp: improves_def node_ok_def saved_def Make_def Let_def initNextIndex_eq zero_Raft_def
        readPersist_def readSnapshot_def persister_defs split: if_splits)
next
  case False
  have two: "map (wireCmd w) (map (wireCmd w) l) = map (wireCmd w) l" for l
    by (simp add: wireCmd_idem [OF wire_idem])
  from False have "\<not> length (raftstate (persister rf)) < 1" by (cases "raftstate (persister rf)") auto
  with False assms two show ?thesis
    by (auto simp: improves_def node_ok_def saved_def Make_def Let_def initNextIndex_eq zero_Raft_def
        readPersist_def readSnapshot_def persister_defs Option.bind_eq_Some_conv split: if_splits)
qed

end

lemma prepare_log_from:
  assumes "contig (Log rf)" and "sendSingleAppendEntries_prepare j t rf = Some (SendAppend a)"
  shows "log_from (aePrevLogIndex a + 1) (aeEntries a)"
proof -
  have ne: "Log rf \<noteq> []"
    using assms(2) by (auto simp: sendSingleAppendEntries_prepare_def Option.bind_eq_Some_conv split: if_splits)
  have wf: "log_wf (Log rf)" using ne assms(1) by (simp add: log_wf_def)
  obtain lo where "aePrevLogIndex a - base_of (Log rf) = lo"
    and "aeEntries a = [] \<or> slice_from (Log rf) (lo + 1) = Some (aeEntries a)"
    using assms(2) ne
    by (auto simp: sendSingleAppendEntries_prepare_def Option.bind_eq_Some_conv split: if_splits)
  then show ?thesis
    using log_from_drop [of "base_of (Log rf)" "Log rf" "nat (lo + 1)"] wf
    by (auto simp: go_simps log_wf_iff nat_le_iff)
qed

section \<open>Invariants of the cluster\<close>

definition cluster_ok :: "('c, 'b) decoder \<Rightarrow> ('c \<Rightarrow> 'c) \<Rightarrow> nat \<Rightarrow> ('c, 'b) cluster \<Rightarrow> bool" where
  "cluster_ok dec w n s \<longleftrightarrow>
     length (nodes s) = n \<and> (\<forall>rf \<in> set (nodes s). node_ok dec w rf) \<and> (\<forall>x \<in> set (work s). work_ok x)"

lemma list_all2_improves:
  assumes "list_all2 (improves dec w) ns ns'" and "\<forall>rf \<in> set ns. node_ok dec w rf"
  shows "length ns' = length ns" and "\<forall>rf \<in> set ns'. node_ok dec w rf"
    and "k < length ns \<Longrightarrow> CurrentTerm (ns ! k) \<le> CurrentTerm (ns' ! k)"
  using assms by (auto simp: list_all2_conv_all_nth in_set_conv_nth [of _ ns'] improves_def)

lemma improves_refl [simp]: "improves dec w rf rf"
  by (simp add: improves_def)

lemma on_node_improves:
  assumes "on_node i f ns = Some (ns', x)" and "\<And>rf rf' x. f rf = Some (rf', x) \<Longrightarrow> improves dec w rf rf'"
  shows "list_all2 (improves dec w) ns ns'"
  using assms by (auto simp: on_node_def Option.bind_eq_Some_conv go_simps list_all2_conv_all_nth nth_list_update)

lemma set_drop_nth: "set (drop_nth k xs) \<subseteq> set xs"
  by (auto simp: drop_nth_def dest: in_set_takeD in_set_dropD)

context gob_codec
begin

lemma do_work_improves:
  assumes "snd (do_work enc w x) rf = Some (rf', ws)" and "work_ok x"
  shows "improves dec w rf rf'" and "contig (Log rf) \<Longrightarrow> \<forall>y \<in> set ws. work_ok y"
proof -
  have "log_from (aePrevLogIndex (wireAppend w a) + 1) (aeEntries (wireAppend w a))"
    if "log_from (aePrevLogIndex a + 1) (aeEntries a)" for a
    using that by (simp add: wireAppend_def)
  with assms show "improves dec w rf rf'"
    by (cases x) (auto simp: Option.bind_eq_Some_conv intro: RequestVote_improves AppendEntries_improves
        InstallSnapshot_improves requestVote_reply_improves appendEntries_reply_improves
        installSnapshot_reply_improves Start_append_improves)
  show "\<forall>y \<in> set ws. work_ok y" if "contig (Log rf)"
  proof (cases x)
    case (WAppend i j t)
    with assms obtain act where "sendSingleAppendEntries_prepare j t rf = Some act"
      and "ws = (case act of Quit \<Rightarrow> [] | SendInstall a \<Rightarrow> [WInstall i j a t]
                           | SendAppend a \<Rightarrow> [WAppendSend i j a t])"
      by (auto simp: Option.bind_eq_Some_conv)
    then show ?thesis using prepare_log_from [OF that] by (cases act) auto
  qed (use assms in \<open>auto simp: Option.bind_eq_Some_conv split: if_splits\<close>)
qed

lemma cluster_work_ok:
  assumes "cluster_ok dec w n s" and "do_action enc dec w (Work k) s = Some t"
  shows "list_all2 (improves dec w) (nodes s) (nodes t) \<and> (\<forall>x \<in> set (work t). work_ok x)"
proof -
  have ok: "\<forall>x \<in> set (work s). work_ok x" using assms(1) by (simp add: cluster_ok_def)
  from assms(2) obtain x ns ws where x: "x \<in> set (work s)"
    and on: "on_node (fst (do_work enc w x)) (snd (do_work enc w x)) (nodes s) = Some (ns, ws)"
    and t: "t = s\<lparr>nodes := ns, work := drop_nth k (work s) @ ws\<rparr>"
    by (auto simp: Option.bind_eq_Some_conv dest: idx_mem)
  note improve = do_work_improves [OF _ bspec [OF ok x]]
  have "list_all2 (improves dec w) (nodes s) ns"
    using on improve(1) by (rule on_node_improves)
  moreover obtain rf rf' where rf: "rf \<in> set (nodes s)" "snd (do_work enc w x) rf = Some (rf', ws)"
    using on by (auto simp: on_node_def Option.bind_eq_Some_conv dest: idx_mem)
  moreover from rf(1) have "contig (Log rf)"
    using assms(1) by (auto simp: cluster_ok_def node_ok_def)
  ultimately show ?thesis
    using t ok improve(2) set_drop_nth [of k "work s"] by auto
qed

lemma cluster_main_ok:
  assumes "do_action enc dec w (Main i r) s = Some t" and ok: "\<forall>x \<in> set (work s). work_ok x"
  shows "list_all2 (improves dec w) (nodes s) (nodes t) \<and> (\<forall>x \<in> set (work t). work_ok x)"
proof -
  from assms(1) obtain p ns p' ws where on: "on_node i (main_step enc i r p) (nodes s) = Some (ns, p', ws)"
    and t: "t = s\<lparr>nodes := ns, pcs := (pcs s)[i := p'], work := work s @ ws\<rparr>"
    by (auto simp: Option.bind_eq_Some_conv)
  have "\<forall>x \<in> set ws. work_ok x"
    using on by (cases p) (auto simp: on_node_def Option.bind_eq_Some_conv split: if_splits)
  moreover have "list_all2 (improves dec w) (nodes s) ns"
    using on by (rule on_node_improves) (auto intro: main_step_improves)
  ultimately show ?thesis using t ok by auto
qed

lemma cluster_select_ok:
  assumes "do_action enc dec w (Select i ch r) s = Some t" and "\<forall>x \<in> set (work s). work_ok x"
  shows "list_all2 (improves dec w) (nodes s) (nodes t) \<and> (\<forall>x \<in> set (work t). work_ok x)"
proof -
  from assms(1) obtain p where "(case p of
       PcSelect st \<Rightarrow>
         do { (ns, pc') \<leftarrow> on_node i (select_case st ch r) (nodes s);
              Some (s\<lparr>nodes := ns, pcs := (pcs s)[i := pc']\<rparr>) }
     | _ \<Rightarrow> None) = Some t"
    by (auto simp: Option.bind_eq_Some_conv [of "idx (pcs s) (int i)"])
  then obtain st p' where "on_node i (select_case st ch r) (nodes s) = Some (nodes t, p')" and "work t = work s"
    by (cases p) (auto simp: Option.bind_eq_Some_conv)
  moreover from this(1) have "list_all2 (improves dec w) (nodes s) (nodes t)"
    by (rule on_node_improves) (rule select_case_improves)
  ultimately show ?thesis using assms(2) by simp
qed

text \<open>The actions that change one peer and take no work: \<open>f\<close> is what they do to it.\<close>

lemma cluster_node_ok:
  assumes "on_node i f (nodes s) = Some (nodes t, u)" and "set (work t) \<subseteq> set (work s)" and "\<forall>x \<in> set (work s). work_ok x"
    and "\<And>rf rf' u. f rf = Some (rf', u) \<Longrightarrow> improves dec w rf rf'"
  shows "list_all2 (improves dec w) (nodes s) (nodes t) \<and> (\<forall>x \<in> set (work t). work_ok x)"
  using on_node_improves [OF assms(1)] assms(2-4) by auto

lemma cluster_step_ok:
  assumes "cluster_ok dec w n s" and "do_action enc dec w a s = Some t"
  shows "list_all2 (improves dec w) (nodes s) (nodes t)" and "\<forall>x \<in> set (work t). work_ok x"
proof -
  have ok: "\<forall>x \<in> set (work s). work_ok x" using assms(1) by (simp add: cluster_ok_def)
  have "list_all2 (improves dec w) (nodes s) (nodes t) \<and> (\<forall>x \<in> set (work t). work_ok x)"
  proof (cases a)
    case (Select i ch r)
    with assms(2) ok show ?thesis using cluster_select_ok by blast
  next
    case (Main i r)
    with assms(2) ok show ?thesis using cluster_main_ok by blast
  next
    case (Work k)
    with assms show ?thesis using cluster_work_ok by blast
  next
    case (Lose k)
    with assms(2) ok set_drop_nth [of k "work s"] show ?thesis
      by (auto simp: Option.bind_eq_Some_conv list.rel_refl split: if_splits)
  next
    case (ClientStart i c)
    with assms(2) ok show ?thesis
      by (auto simp: Option.bind_eq_Some_conv list.rel_refl GetState_def split: if_splits)
  next
    case (TakeSnapshot i snap m)
    with assms(2) have "on_node i (\<lambda>rf. if m \<in> set (ApplyCh rf)
        then do { rf' \<leftarrow> StartSnapshot enc snap m rf; Some (rf', ()) } else None) (nodes s) = Some (nodes t, ())" "work t = work s"
      by (auto simp: Option.bind_eq_Some_conv)
    then show ?thesis
      using ok by (intro cluster_node_ok) (auto simp: Option.bind_eq_Some_conv split: if_splits intro: StartSnapshot_improves)
  next
    case (DeliverSnapshot i k)
    with assms(2) have "on_node i (\<lambda>rf. do { m \<leftarrow> idx (ApplyGo rf) (int k);
          Some (rf\<lparr>ApplyCh := ApplyCh rf @ [m], ApplyGo := drop_nth k (ApplyGo rf)\<rparr>, ()) }) (nodes s) = Some (nodes t, ())" "work t = work s"
      by (auto simp: Option.bind_eq_Some_conv)
    then show ?thesis using ok by (intro cluster_node_ok) (auto simp: Option.bind_eq_Some_conv core_def intro!: improves_core)
  next
    case (Restart i)
    with assms(2) have "on_node i (\<lambda>rf. do {
          rf' \<leftarrow> Make dec (length (nodes s)) i (Copy (persister rf)); Some (rf', ()) }) (nodes s) = Some (nodes t, ())"
      "set (work t) \<subseteq> set (work s)"
      by (auto simp: Option.bind_eq_Some_conv)
    then show ?thesis using ok by (rule cluster_node_ok) (auto simp: Option.bind_eq_Some_conv intro: Make_improves)
  next
    case (KillNode i)
    with assms(2) have "on_node i (\<lambda>rf. Some (Kill rf, ())) (nodes s) = Some (nodes t, ())" "work t = work s"
      by (auto simp: Option.bind_eq_Some_conv)
    then show ?thesis using ok by (intro cluster_node_ok) (auto simp: Kill_def core_def intro!: improves_core)
  qed
  then show "list_all2 (improves dec w) (nodes s) (nodes t)" and "\<forall>x \<in> set (work t). work_ok x"
    by auto
qed

lemma Make_fresh: "Make dec n i MakePersister = Some rf \<Longrightarrow> node_ok dec w rf"
  by (auto simp: node_ok_def saved_def Make_def Let_def initNextIndex_eq zero_Raft_def
      readPersist_def readSnapshot_def persister_defs split: if_splits)

lemma Make_empty_log: "node_ok dec w rf \<Longrightarrow> Log rf = [] \<Longrightarrow> Make dec n i (Copy (persister rf)) = None"
  by (cases "raftstate (persister rf)")
    (auto simp: node_ok_def saved_def Make_def Let_def initNextIndex_eq zero_Raft_def readPersist_def persister_defs)

lemma Make_recovers:
  assumes "node_ok dec w rf" and "Log rf \<noteq> []"
  shows "\<exists>rf'. Make dec n i (Copy (persister rf)) = Some rf' \<and> CurrentTerm rf' = CurrentTerm rf
    \<and> map (wireCmd w) (Log rf') = map (wireCmd w) (Log rf) \<and> State rf' = Follower
    \<and> CommitIndex rf' = base_of (Log rf) \<and> LastApplied rf' = base_of (Log rf)"
proof (cases "raftstate (persister rf) = []")
  case True
  with assms show ?thesis
    by (auto simp: node_ok_def saved_def Make_def Let_def initNextIndex_eq zero_Raft_def
        readPersist_def readSnapshot_def persister_defs base_of_def)
next
  case False
  from False have "\<not> length (raftstate (persister rf)) < 1" by (cases "raftstate (persister rf)") auto
  with False assms show ?thesis
    by (auto simp: node_ok_def saved_def Make_def Let_def initNextIndex_eq zero_Raft_def
        readPersist_def readSnapshot_def persister_defs wireCmd_idem [OF wire_idem] base_of_def hd_map)
qed

lemma init_cluster_ok:
  assumes "init_cluster dec n = Some s"
  shows "cluster_ok dec w n s"
proof -
  obtain ns where th: "those (map (\<lambda>i. Make dec n i MakePersister) [0..<n]) = Some ns"
    and s: "s = \<lparr>nodes = ns, pcs = replicate n PcTop, work = []\<rparr>"
    using assms by (auto simp: init_cluster_def Option.bind_eq_Some_conv)
  from th have len: "length ns = n" by (simp add: those_eq_Some)
  with th have "node_ok dec w (ns ! i)" if "i < n" for i
    using that by (intro Make_fresh [of n i]) (simp add: those_eq_Some)
  then show ?thesis
    using s len by (auto simp: cluster_ok_def in_set_conv_nth)
qed

lemma reachable_ok: "reachable enc dec w n s \<Longrightarrow> cluster_ok dec w n s"
proof (induction rule: reachable.induct)
  case (start s)
  then show ?case by (rule init_cluster_ok)
next
  case (step s a t)
  note imp = cluster_step_ok [OF step.IH step.hyps(2)]
  show ?case
    using step.IH list_all2_improves(1,2) [OF imp(1)] imp(2) by (simp add: cluster_ok_def)
qed

lemma reachable_node_ok: "reachable enc dec w n s \<Longrightarrow> i < n \<Longrightarrow> node_ok dec w (nodes s ! i)"
  using reachable_ok by (fastforce simp: cluster_ok_def)

lemma step_term_mono:
  assumes "reachable enc dec w n s" and "do_action enc dec w a s = Some t" and "i < n"
  shows "CurrentTerm (nodes s ! i) \<le> CurrentTerm (nodes t ! i)"
  using cluster_step_ok(1) [OF reachable_ok [OF assms(1)] assms(2)] list_all2_improves(3) reachable_ok [OF assms(1)]
    assms(3) unfolding cluster_ok_def by blast

end

section \<open>Two leaders in one term\<close>

text \<open>An encoder whose bytes are the encoded values themselves, and its decoder.\<close>

definition val_enc :: "(nat, int \<times> int \<times> nat command list) encoder" where
  "val_enc x = [x]"

fun val_dec :: "(nat, int \<times> int \<times> nat command list) decoder" where
  "val_dec [] = None"
| "val_dec (x # xs) = Some x"

text \<open>
  Peer 0 collects the votes for term 1 and is about to run \<open>testLeader\<close>. Meanwhile peer 2 times out
  twice and asks it for a vote in term 2, which it grants, becoming a follower in term 2. Then
  \<open>testLeader\<close> only looks at the number of votes and makes peer 0 a leader, now of term 2, and the
  granted vote makes peer 2 a leader of term 2 as well.
\<close>

definition become_candidate :: "nat \<Rightarrow> ('c, 'b) action list" where
  "become_candidate i = [Main i 0, Select i OnTimer 0, Main i 0, Main i 0, Main i 0, Main i 0]"

definition two_leaders :: "('c, 'b) action list" where
  "two_leaders =
     become_candidate 0 @ [Main 0 0, Work 0, Work 1, Work 1, Main 0 0, Select 0 OnDefault 0]
     @ become_candidate 2 @ [Main 2 0] @ become_candidate 2
     @ [Work 3, Work 4, Work 4, Main 0 0, Main 2 0, Main 2 0, Select 2 OnDefault 0, Main 2 0]"

definition leaders_of :: "int \<Rightarrow> ('c, 'b) cluster \<Rightarrow> nat list" where
  "leaders_of t s =
     filter (\<lambda>i. State (nodes s ! i) = Leader \<and> CurrentTerm (nodes s ! i) = t) [0..<length (nodes s)]"

lemma two_leaders_log:
  "map_option (\<lambda>s. Log (nodes s ! 2) \<noteq> [])
     (Option.bind (init_cluster val_dec 3) (run val_enc val_dec id two_leaders)) = Some True"
  by code_simp

lemma two_leaders_run:
  "map_option (leaders_of 2) (Option.bind (init_cluster val_dec 3) (run val_enc val_dec id two_leaders))
     = Some [0, 2]"
  by code_simp

text \<open>
  The run goes on: a client gives one command to each of the two leaders. Peer 0 replicates its
  command to peer 1 and commits it; peer 1 then takes the entries of peer 2, which have the same
  term and index, and peer 2 commits its command at that index too.
\<close>

definition leader_round :: "nat \<Rightarrow> ('c, 'b) action list" where
  "leader_round i = [Main i 0, Main i 0, Select i OnDefault 0, Main i 0, Main i 0, Main i 0]"

definition diverge :: "(nat, 'b) action list" where
  "diverge =
     [ClientStart 0 7, Work 4, Work 4, Work 4, Work 5, Work 5, Work 5] @ leader_round 0
     @ [ClientStart 2 9, Work 7, Work 7, Work 8, Work 8, Work 8, Work 8] @ leader_round 2"

text \<open>The commands that peer \<open>i\<close> has handed to its client for index \<open>k\<close>.\<close>

definition applied_at :: "nat \<Rightarrow> int \<Rightarrow> ('c, 'b) cluster \<Rightarrow> 'c option list" where
  "applied_at i k s =
     map MsgCommand (filter (\<lambda>m. CommandValid m \<and> MsgCommandIndex m = k) (ApplyCh (nodes s ! i)))"

lemma diverge_run:
  "map_option (\<lambda>s. (leaders_of 2 s, applied_at 0 1 s, applied_at 2 1 s))
     (Option.bind (init_cluster val_dec 3) (run val_enc val_dec id (two_leaders @ diverge)))
   = Some ([0, 2], [Some 7], [Some 9])"
  by code_simp

lemma wireCmd_id: "wireCmd id = id"
  by (rule ext) (simp add: wireCmd_def option.map_id)

interpretation val: gob_codec val_enc val_dec id
  by unfold_locales (simp_all add: val_enc_def wireCmd_id)

lemma init_reachable: "init_cluster dec n = Some s \<Longrightarrow> run enc dec w as s = Some t \<Longrightarrow> reachable enc dec w n t"
  by (rule run_reachable) (rule reachable.start)

section \<open>Properties\<close>

text \<open>
  C5. In every reachable state of the cluster, whatever the interleaving of goroutines, lost
  messages and restarts, the log of every peer is contiguous, and the persister holds the current
  term and log of the peer.
\<close>

theorem reachable_logs_contiguous_and_saved:
  assumes "gob_codec enc dec w" and "reachable enc dec w n s" and "i < n"
  shows "contig (Log (nodes s ! i)) \<and> saved dec w (nodes s ! i)"
  using gob_codec.reachable_node_ok [OF assms] by (simp add: node_ok_def)

theorem reachable_logs_contiguous_and_saved_witness:
  "\<exists>s. reachable val_enc val_dec id 3 s \<and> contig (Log (nodes s ! 2)) \<and> saved val_dec id (nodes s ! 2)"
proof -
  obtain s where "Option.bind (init_cluster val_dec 3) (run val_enc val_dec id two_leaders) = Some s"
    using two_leaders_run by auto
  then have r: "reachable val_enc val_dec id 3 s"
    by (auto simp: Option.bind_eq_Some_conv intro: init_reachable)
  with reachable_logs_contiguous_and_saved [OF val.gob_codec_axioms r, of 2] show ?thesis by auto
qed

text \<open>
  C15. Along every execution of the cluster the term of a peer never decreases, across crashes and
  restarts too.
\<close>

theorem terms_never_decrease:
  assumes "gob_codec enc dec w" and "reachable enc dec w n s" and "run enc dec w as s = Some t"
    and "i < n"
  shows "CurrentTerm (nodes s ! i) \<le> CurrentTerm (nodes t ! i)"
  using assms(2,3)
proof (induction as arbitrary: s)
  case (Cons a as)
  then obtain u where u: "do_action enc dec w a s = Some u" "run enc dec w as u = Some t"
    by (auto simp: Option.bind_eq_Some_conv)
  have "CurrentTerm (nodes s ! i) \<le> CurrentTerm (nodes u ! i)"
    using gob_codec.step_term_mono [OF assms(1) Cons.prems(1) u(1) assms(4)] .
  also have "\<dots> \<le> CurrentTerm (nodes t ! i)"
    using Cons.IH [OF reachable.step [OF Cons.prems(1) u(1)] u(2)] .
  finally show ?case .
qed simp

theorem terms_never_decrease_witness:
  "\<exists>s t. run val_enc val_dec id two_leaders s = Some t \<and> CurrentTerm (nodes s ! 2) \<le> CurrentTerm (nodes t ! 2)"
proof -
  obtain s t where st: "init_cluster val_dec 3 = Some s" "run val_enc val_dec id two_leaders s = Some t"
    using two_leaders_run by (auto simp: Option.bind_eq_Some_conv)
  with terms_never_decrease [OF val.gob_codec_axioms reachable.start [OF st(1)] st(2), of 2]
  show ?thesis by auto
qed

text \<open>
  C14. Crash and restart, in every reachable state: the restart panics (\<open>readPersist\<close> reads the first entry of the saved
  log) exactly when the peer's log is empty, and otherwise the restarted peer has the term and, up to what the encoder
  drops of commands, the log it had before, is a follower, counts as committed and applied what the first entry of the
  log stands for, and no other peer changes.
\<close>

theorem crash_recovery_keeps_log:
  assumes "gob_codec enc dec w" and "reachable enc dec w n s" and "i < n"
  shows "(do_action enc dec w (Restart i) s = None \<longleftrightarrow> Log (nodes s ! i) = [])
    \<and> (\<forall>t. do_action enc dec w (Restart i) s = Some t \<longrightarrow>
         CurrentTerm (nodes t ! i) = CurrentTerm (nodes s ! i)
       \<and> map (wireCmd w) (Log (nodes t ! i)) = map (wireCmd w) (Log (nodes s ! i))
       \<and> State (nodes t ! i) = Follower
       \<and> CommitIndex (nodes t ! i) = base_of (Log (nodes s ! i)) \<and> LastApplied (nodes t ! i) = base_of (Log (nodes s ! i))
       \<and> (\<forall>j. j \<noteq> i \<longrightarrow> nodes t ! j = nodes s ! j))"
proof -
  have len: "length (nodes s) = n"
    using gob_codec.reachable_ok [OF assms(1,2)] by (simp add: cluster_ok_def)
  note ok = gob_codec.reachable_node_ok [OF assms]
  show ?thesis
  proof (cases "Log (nodes s ! i) = []")
    case True
    with gob_codec.Make_empty_log [OF assms(1) ok] show ?thesis using len assms(3) by (simp add: on_node_def)
  next
    case False
    from gob_codec.Make_recovers [OF assms(1) ok this, of n i] False show ?thesis
      using len assms(3) by (auto simp: on_node_def)
  qed
qed

theorem crash_recovery_keeps_log_witness:
  "\<exists>s t. reachable val_enc val_dec id 3 s \<and> do_action val_enc val_dec id (Restart 2) s = Some t
    \<and> CurrentTerm (nodes t ! 2) = CurrentTerm (nodes s ! 2) \<and> State (nodes t ! 2) = Follower"
proof -
  obtain s where "Option.bind (init_cluster val_dec 3) (run val_enc val_dec id two_leaders) = Some s"
    and ne: "Log (nodes s ! 2) \<noteq> []"
    using two_leaders_log by auto
  then have r: "reachable val_enc val_dec id 3 s"
    by (auto simp: Option.bind_eq_Some_conv intro: init_reachable)
  note restart = crash_recovery_keeps_log [OF val.gob_codec_axioms r, of 2]
  then obtain t where "do_action val_enc val_dec id (Restart 2) s = Some t" using ne by fastforce
  with restart r show ?thesis by fastforce
qed

text \<open>
  Election safety fails: three peers can reach a state where two of them are leaders of the same
  term. \<open>testLeader\<close> counts the votes without looking at the state and term they were given in, so a
  candidate that has meanwhile voted for a later term becomes a leader of that later term.
\<close>

theorem two_leaders_in_one_term:
  "\<exists>s. reachable val_enc val_dec id 3 s \<and> leaders_of 2 s = [0, 2]"
proof -
  obtain s where "Option.bind (init_cluster val_dec 3) (run val_enc val_dec id two_leaders) = Some s"
    and "leaders_of 2 s = [0, 2]"
    using two_leaders_run by auto
  then show ?thesis by (auto simp: Option.bind_eq_Some_conv intro: init_reachable)
qed

text \<open>
  C19. The cluster does not have state machine safety, without any crash, loss or duplication of a
  message: three peers can reach a state where two of them lead the same term and have handed two
  different commands with the same index to their clients. The cause is the election: \<open>testLeader\<close>
  counts the votes without looking at the state and term they were given in.
\<close>

theorem peers_apply_different_commands:
  "\<exists>s. reachable val_enc val_dec id 3 s \<and> leaders_of 2 s = [0, 2]
    \<and> applied_at 0 1 s = [Some 7] \<and> applied_at 2 1 s = [Some 9]"
proof -
  obtain s
    where "Option.bind (init_cluster val_dec 3) (run val_enc val_dec id (two_leaders @ diverge)) = Some s"
      and "leaders_of 2 s = [0, 2]" "applied_at 0 1 s = [Some 7]" "applied_at 2 1 s = [Some 9]"
    using diverge_run by auto
  then show ?thesis by (auto simp: Option.bind_eq_Some_conv intro: init_reachable)
qed

end
