(* ===== verification/Byte_Codec.thy ===== *)
theory Byte_Codec
  imports Go_Prelude "HOL-Library.Char_ord" "HOL-Library.List_Lexorder"
begin

text \<open>
  Encoding to bytes. \<open>encoding/gob\<close>, which the repository uses for snapshots, RPCs and saved
  states, is not part of it and is an argument of the model. This theory has a small codec of
  strings, numbers, lists and finite maps, with a length before the elements as gob has it, to show that what is
  assumed of gob can be met by byte strings. A decoder returns the value and the rest of the bytes, so
  codecs compose.
\<close>

locale byte_codec =
  fixes put :: "'a \<Rightarrow> char list" and get :: "char list \<Rightarrow> 'a \<times> char list"
  assumes get_put: "get (put x @ r) = (x, r)"
begin

lemma decode_encode: "fst (get (put x)) = x"
  using get_put [of x "[]"] by simp

lemma put_inj: "put x = put y \<Longrightarrow> x = y"
  by (metis decode_encode)

end

section \<open>Strings and numbers\<close>

text \<open>Every character comes after a byte 1, and a byte 0 ends the string.\<close>

definition put_str :: "string \<Rightarrow> char list" where
  "put_str s = concat (map (\<lambda>c. [CHR 0x01, c]) s) @ [CHR 0x00]"

fun get_str :: "char list \<Rightarrow> string \<times> char list" where
  "get_str (b # c # bs) =
     (if b = CHR 0x00 then ([], c # bs) else let (s, r) = get_str bs in (c # s, r))"
| "get_str bs = ([], [])"

interpretation str: byte_codec put_str get_str
proof
  fix x :: string and r
  have "get_str (CHR 0x00 # r) = ([], r)" by (cases r) simp_all
  then show "get_str (put_str x @ r) = (x, r)" by (induction x) (simp_all add: put_str_def)
qed

definition number_of :: "string \<Rightarrow> int" where
  "number_of s =
     (case s of CHR ''-'' # ds \<Rightarrow> - int (foldl (\<lambda>n c. 10 * n + digit_val c) 0 ds)
      | _ \<Rightarrow> int (foldl (\<lambda>n c. 10 * n + digit_val c) 0 s))"

lemma number_of_Itoa: "number_of (Itoa i) = i"
proof (cases "i < 0")
  case False
  obtain d ds where ds: "digits (nat i) = d # ds" by (metis digits_nonempty list.exhaust)
  then have "d \<noteq> CHR ''-''" using no_dash [of "nat i"] by auto
  then have "number_of (d # ds) = int (foldl (\<lambda>n c. 10 * n + digit_val c) 0 (d # ds))"
    unfolding number_of_def by (auto split: list.splits char.splits bool.splits)
  with False ds digits_value [of "nat i"] show ?thesis by (simp add: Itoa_def)
qed (simp add: Itoa_def number_of_def digits_value)

definition put_int :: "int \<Rightarrow> char list" where
  "put_int i = put_str (Itoa i)"

definition get_int :: "char list \<Rightarrow> int \<times> char list" where
  "get_int bs = apfst number_of (get_str bs)"

interpretation num: byte_codec put_int get_int
  by unfold_locales (simp add: put_int_def get_int_def str.get_put number_of_Itoa)

section \<open>Pairs, lists and maps\<close>

definition put_pair :: "('a \<Rightarrow> char list) \<Rightarrow> ('b \<Rightarrow> char list) \<Rightarrow> 'a \<times> 'b \<Rightarrow> char list" where
  "put_pair p q = (\<lambda>(x, y). p x @ q y)"

definition get_pair ::
  "(char list \<Rightarrow> 'a \<times> char list) \<Rightarrow> (char list \<Rightarrow> 'b \<times> char list) \<Rightarrow> char list \<Rightarrow> ('a \<times> 'b) \<times> char list" where
  "get_pair f g bs = (let (x, r) = f bs; (y, r') = g r in ((x, y), r'))"

lemma pair_codec: "byte_codec p f \<Longrightarrow> byte_codec q g \<Longrightarrow> byte_codec (put_pair p q) (get_pair f g)"
  by (auto simp: byte_codec_def put_pair_def get_pair_def)

fun get_many :: "(char list \<Rightarrow> 'a \<times> char list) \<Rightarrow> nat \<Rightarrow> char list \<Rightarrow> 'a list \<times> char list" where
  "get_many f 0 bs = ([], bs)"
| "get_many f (Suc n) bs = (let (x, r) = f bs; (xs, r') = get_many f n r in (x # xs, r'))"

definition put_list :: "('a \<Rightarrow> char list) \<Rightarrow> 'a list \<Rightarrow> char list" where
  "put_list p xs = put_int (int (length xs)) @ concat (map p xs)"

definition get_list :: "(char list \<Rightarrow> 'a \<times> char list) \<Rightarrow> char list \<Rightarrow> 'a list \<times> char list" where
  "get_list f bs = (let (n, r) = get_int bs in get_many f (nat n) r)"

lemma list_codec:
  assumes "byte_codec p f"
  shows "byte_codec (put_list p) (get_list f)"
proof
  fix xs :: "'a list" and r
  have "get_many f (length xs) (concat (map p xs) @ r) = (xs, r)"
    by (induction xs) (simp_all add: byte_codec.get_put [OF assms])
  then show "get_list f (put_list p xs @ r) = (xs, r)" by (simp add: put_list_def get_list_def num.get_put)
qed

text \<open>A finite map is the list of its entries, by increasing keys.\<close>

definition entries_of :: "('k::linorder \<rightharpoonup> 'v) \<Rightarrow> ('k \<times> 'v) list" where
  "entries_of m = map (\<lambda>k. (k, the (m k))) (sorted_list_of_set (dom m))"

lemma map_of_entries: "finite (dom m) \<Longrightarrow> map_of (entries_of m) = m"
proof
  fix k
  assume "finite (dom m)"
  then show "map_of (entries_of m) k = m k"
    by (cases "m k") (auto simp: entries_of_def map_of_map_restrict restrict_map_def dom_def)
qed

end
