(* ===== verification/Kv_Server.thy ===== *)
theory Kv_Server
  imports Raft_Peer Byte_Codec "HOL-Library.Signed_Division"
begin

text \<open>
  The key/value server on top of Raft (\<open>src/src/kvraft/server.go\<close>, \<open>src/src/kvraft/common.go\<close>):
  its state, the handlers \<open>Get\<close> and \<open>PutAppend\<close>, the routine \<open>apply\<close> that executes a committed
  operation at most once, and the goroutine that receives from \<open>applyCh\<close>, installs snapshots and
  takes them.

  \<^item> Maps are HOL maps; reading a missing entry of \<open>history\<close> gives the zero \<open>recent\<close>, as in Go.
  \<^item> A channel made by a handler (\<open>make(chan recent, 1)\<close>) is an index into \<open>kv_chans\<close>, whose element
    is the content of the buffer; sending to a full channel and receiving from an empty one block,
    and a blocked step has the value \<open>None\<close>, as a panic has.
  \<^item> \<open>kv_received\<close> counts the messages of \<open>applyCh\<close> the goroutine has handled; \<open>kv_snaps\<close> holds the
    goroutines \<open>go kv.rf.StartSnapshot(data, tmp)\<close> that have not run yet.
  \<^item> A handler is cut where it waits: \<open>Get_begin\<close> and \<open>PutAppend_begin\<close> end with a reply or with the
    channel they wait for, \<open>Get_end\<close> and \<open>PutAppend_end\<close> receive from it.
  \<^item> The encoding of the two maps in a snapshot is done by \<open>encoding/gob\<close>: \<open>kenc\<close> is the bytes of the
    two \<open>Encode\<close> calls, \<open>kdec\<close> the content of the two fresh maps after the two \<open>Decode\<close> calls. Go maps are
    finite, so what is assumed of gob (\<open>reads_back\<close>, \<open>makes_finite\<close>) is about finite maps; \<open>byte_kenc\<close> and
    \<open>byte_kdec\<close> are a codec with bytes that has these properties.
\<close>

section \<open>Data\<close>

definition APPEND :: string where "APPEND = ''APPEND''"
definition PUT :: string where "PUT = ''PUT''"
definition GET :: string where "GET = ''GET''"
definition OK :: string where "OK = ''OK''"
definition ErrNoKey :: string where "ErrNoKey = ''ErrNoKey''"

lemmas kv_consts = APPEND_def PUT_def GET_def OK_def ErrNoKey_def

record recent =
  rReqId :: int
  rResult :: string
  rErr :: string

definition zero_recent :: recent where
  "zero_recent = \<lparr>rReqId = 0, rResult = [], rErr = []\<rparr>"

record Op =
  Op :: string
  Key :: string
  Value :: string
  ClientId :: int
  ReqId :: int
  ApplyChan :: "nat option"

record PutAppendArgs =
  paKey :: string
  paValue :: string
  paOp :: string
  paClientId :: int
  paReqId :: int

record PutAppendReply =
  parWrongLeader :: bool
  parErr :: string

record GetArgs =
  gaKey :: string
  gaClientId :: int
  gaReqId :: int

record GetReply =
  garWrongLeader :: bool
  garErr :: string
  garValue :: string

type_synonym store = "string \<rightharpoonup> string"
type_synonym sessions = "int \<rightharpoonup> recent"

record 'b KVServer =
  kv_me :: nat
  kv_rf :: "(Op, 'b) Raft"
  kv_stop :: bool
  kv_record :: store
  kv_history :: sessions
  kv_maxraftstate :: int
  kv_received :: nat
  kv_chans :: "recent option list"
  kv_snaps :: "('b list \<times> (Op, 'b) apply_msg) list"

section \<open>Operations\<close>

definition history_at :: "int \<Rightarrow> 'b KVServer \<Rightarrow> recent" where
  "history_at c kv = (case kv_history kv c of Some r \<Rightarrow> r | None \<Rightarrow> zero_recent)"

definition AppendEntryToLog ::
  "(Op, 'b) encoder \<Rightarrow> Op \<Rightarrow> 'b KVServer \<Rightarrow> ('b KVServer \<times> bool) option" where
  "AppendEntryToLog enc entry kv =
     do {
       (rf, index, term, isLeader) \<leftarrow> Start enc entry (kv_rf kv);
       Some (kv\<lparr>kv_rf := rf\<rparr>, isLeader)
     }"

definition isUpToDate :: "int \<Rightarrow> int \<Rightarrow> 'b KVServer \<Rightarrow> bool" where
  "isUpToDate clientId reqId kv =
     (case kv_history kv clientId of Some v \<Rightarrow> reqId > rReqId v | None \<Rightarrow> True)"

definition make_chan :: "'b KVServer \<Rightarrow> 'b KVServer \<times> nat" where
  "make_chan kv = (kv\<lparr>kv_chans := kv_chans kv @ [None]\<rparr>, length (kv_chans kv))"

definition Get_begin ::
  "(Op, 'b) encoder \<Rightarrow> GetArgs \<Rightarrow> 'b KVServer \<Rightarrow> ('b KVServer \<times> (GetReply + nat)) option" where
  "Get_begin enc args kv =
     (let tmp = history_at (gaClientId args) kv
      in if \<not> isUpToDate (gaClientId args) (gaReqId args) kv \<and> gaReqId args = rReqId tmp
         then Some (kv, Inl \<lparr>garWrongLeader = False, garErr = rErr tmp, garValue = rResult tmp\<rparr>)
         else let (kv1, ch) = make_chan kv;
                  entry = \<lparr>Op = GET, Key = gaKey args, Value = [], ClientId = gaClientId args,
                           ReqId = gaReqId args, ApplyChan = Some ch\<rparr>
              in do {
                (kv2, isLeader) \<leftarrow> AppendEntryToLog enc entry kv1;
                Some (kv2, if isLeader then Inr ch
                           else Inl \<lparr>garWrongLeader = True, garErr = [], garValue = []\<rparr>)
              })"

definition chan_recv :: "nat \<Rightarrow> 'b KVServer \<Rightarrow> ('b KVServer \<times> recent) option" where
  "chan_recv ch kv =
     do {
       buf \<leftarrow> idx (kv_chans kv) (int ch);
       r \<leftarrow> buf;
       Some (kv\<lparr>kv_chans := (kv_chans kv)[ch := None]\<rparr>, r)
     }"

definition Get_end :: "nat \<Rightarrow> 'b KVServer \<Rightarrow> ('b KVServer \<times> GetReply) option" where
  "Get_end ch kv =
     do {
       (kv1, tmp) \<leftarrow> chan_recv ch kv;
       Some (kv1, \<lparr>garWrongLeader = False, garErr = rErr tmp,
                   garValue = (if rErr tmp = OK then rResult tmp else [])\<rparr>)
     }"

definition chan_send :: "nat \<Rightarrow> recent \<Rightarrow> 'b KVServer \<Rightarrow> 'b KVServer option" where
  "chan_send ch r kv =
     (if idx (kv_chans kv) (int ch) = Some None
      then Some (kv\<lparr>kv_chans := (kv_chans kv)[ch := Some r]\<rparr>) else None)"

text \<open>\<open>if entry.ApplyChan != nil { entry.ApplyChan <- kv.history[entry.ClientId] }\<close>\<close>

definition answer :: "Op \<Rightarrow> 'b KVServer \<Rightarrow> 'b KVServer option" where
  "answer entry kv =
     (case ApplyChan entry of None \<Rightarrow> Some kv
      | Some ch \<Rightarrow> chan_send ch (history_at (ClientId entry) kv) kv)"

text \<open>The \<open>switch entry.Op\<close> of \<open>apply\<close>.\<close>

definition execute :: "Op \<Rightarrow> 'b KVServer \<Rightarrow> 'b KVServer" where
  "execute entry kv =
     (if Op entry = APPEND then
        kv\<lparr>kv_record := (case kv_record kv (Key entry) of
               None \<Rightarrow> (kv_record kv)(Key entry \<mapsto> Value entry)
             | Some v \<Rightarrow> (kv_record kv)(Key entry \<mapsto> v @ Value entry)),
           kv_history := (kv_history kv)(ClientId entry \<mapsto>
             zero_recent\<lparr>rReqId := ReqId entry, rErr := OK\<rparr>)\<rparr>
      else if Op entry = PUT then
        kv\<lparr>kv_record := (kv_record kv)(Key entry \<mapsto> Value entry),
           kv_history := (kv_history kv)(ClientId entry \<mapsto>
             zero_recent\<lparr>rReqId := ReqId entry, rErr := OK\<rparr>)\<rparr>
      else if Op entry = GET then
        (case kv_record kv (Key entry) of
           Some v \<Rightarrow> kv\<lparr>kv_history := (kv_history kv)(ClientId entry \<mapsto>
                        \<lparr>rReqId = ReqId entry, rResult = v, rErr = OK\<rparr>)\<rparr>
         | None \<Rightarrow> kv\<lparr>kv_history := (kv_history kv)(ClientId entry \<mapsto>
                        zero_recent\<lparr>rReqId := ReqId entry, rErr := ErrNoKey\<rparr>)\<rparr>)
      else kv)"

definition apply_op :: "Op \<Rightarrow> 'b KVServer \<Rightarrow> 'b KVServer option" where
  "apply_op entry kv =
     (if \<not> isUpToDate (ClientId entry) (ReqId entry) kv
      then if Op entry = GET \<and> ReqId entry = rReqId (history_at (ClientId entry) kv)
           then Some kv
           else answer entry kv
      else answer entry (execute entry kv))"

definition PutAppend_begin ::
  "(Op, 'b) encoder \<Rightarrow> PutAppendArgs \<Rightarrow> 'b KVServer \<Rightarrow> ('b KVServer \<times> (PutAppendReply + nat)) option" where
  "PutAppend_begin enc args kv =
     (if \<not> isUpToDate (paClientId args) (paReqId args) kv
      then Some (kv, Inl \<lparr>parWrongLeader = False, parErr = OK\<rparr>)
      else let (kv1, ch) = make_chan kv;
               entry = \<lparr>Op = paOp args, Key = paKey args, Value = paValue args,
                        ClientId = paClientId args, ReqId = paReqId args, ApplyChan = Some ch\<rparr>
           in do {
             (kv2, isLeader) \<leftarrow> AppendEntryToLog enc entry kv1;
             Some (kv2, if isLeader then Inr ch else Inl \<lparr>parWrongLeader = True, parErr = []\<rparr>)
           })"

definition PutAppend_end :: "nat \<Rightarrow> 'b KVServer \<Rightarrow> ('b KVServer \<times> PutAppendReply) option" where
  "PutAppend_end ch kv =
     do { (kv1, tmp) \<leftarrow> chan_recv ch kv; Some (kv1, \<lparr>parWrongLeader = False, parErr = rErr tmp\<rparr>) }"

definition KillServer :: "'b KVServer \<Rightarrow> 'b KVServer" where
  "KillServer kv = kv\<lparr>kv_rf := Kill (kv_rf kv), kv_stop := True\<rparr>"

section \<open>The goroutine of the server\<close>

type_synonym 'b kv_encoder = "store \<times> sessions \<Rightarrow> 'b list"
type_synonym 'b kv_decoder = "'b list \<Rightarrow> store \<times> sessions"

definition wants_snapshot :: "'b KVServer \<Rightarrow> bool" where
  "wants_snapshot kv \<longleftrightarrow>
     kv_maxraftstate kv \<noteq> - 1 \<and> GetRaftStateSize (kv_rf kv) \<ge> kv_maxraftstate kv sdiv 2"

definition handle_msg ::
  "'b kv_encoder \<Rightarrow> 'b kv_decoder \<Rightarrow> (Op, 'b) apply_msg \<Rightarrow> 'b KVServer \<Rightarrow> 'b KVServer option" where
  "handle_msg kenc kdec tmp kv =
     (if UseSnapshot tmp
      then Some (kv\<lparr>kv_record := fst (kdec (Snapshot tmp)), kv_history := snd (kdec (Snapshot tmp))\<rparr>)
      else case MsgCommand tmp of
        None \<Rightarrow> Some kv
      | Some entry \<Rightarrow>
          do {
            kv1 \<leftarrow> apply_op entry kv;
            Some (if wants_snapshot kv1
                  then kv1\<lparr>kv_snaps := kv_snaps kv1 @ [(kenc (kv_record kv1, kv_history kv1), tmp)]\<rparr>
                  else kv1)
          })"

text \<open>One turn of the loop; \<open>None\<close> when the server has stopped or there is nothing to receive.\<close>

definition receive_step :: "'b kv_encoder \<Rightarrow> 'b kv_decoder \<Rightarrow> 'b KVServer \<Rightarrow> 'b KVServer option" where
  "receive_step kenc kdec kv =
     (if kv_stop kv then None
      else do {
        tmp \<leftarrow> idx (ApplyCh (kv_rf kv)) (int (kv_received kv));
        handle_msg kenc kdec tmp (kv\<lparr>kv_received := kv_received kv + 1\<rparr>)
      })"

definition run_snapshot :: "(Op, 'b) encoder \<Rightarrow> nat \<Rightarrow> 'b KVServer \<Rightarrow> 'b KVServer option" where
  "run_snapshot enc k kv =
     do {
       (data, tmp) \<leftarrow> idx (kv_snaps kv) (int k);
       rf \<leftarrow> StartSnapshot enc data tmp (kv_rf kv);
       Some (kv\<lparr>kv_rf := rf, kv_snaps := take k (kv_snaps kv) @ drop (Suc k) (kv_snaps kv)\<rparr>)
     }"

definition StartKVServer ::
  "(Op, 'b) decoder \<Rightarrow> nat \<Rightarrow> nat \<Rightarrow> 'b Persister \<Rightarrow> int \<Rightarrow> 'b KVServer option" where
  "StartKVServer dec n i ps maxraftstate =
     do {
       rf \<leftarrow> Make dec n i ps;
       Some \<lparr>kv_me = i, kv_rf = rf, kv_stop = False, kv_record = Map.empty, kv_history = Map.empty,
             kv_maxraftstate = maxraftstate, kv_received = 0, kv_chans = [], kv_snaps = []\<rparr>
     }"

section \<open>The abstract service\<close>

text \<open>
  What the service promises: a map from keys to values with three operations, and for every client
  the reply to its latest request. A request is executed only when its number is greater than that
  of every earlier request of the client.
\<close>

definition value_of :: "string \<Rightarrow> store \<Rightarrow> string" where
  "value_of k s = (case s k of Some v \<Rightarrow> v | None \<Rightarrow> [])"

definition known_op :: "Op \<Rightarrow> bool" where
  "known_op e \<longleftrightarrow> Op e = APPEND \<or> Op e = PUT \<or> Op e = GET"

definition spec_store :: "Op \<Rightarrow> store \<Rightarrow> store" where
  "spec_store e s =
     (if Op e = APPEND then s(Key e \<mapsto> value_of (Key e) s @ Value e)
      else if Op e = PUT then s(Key e \<mapsto> Value e) else s)"

definition spec_reply :: "Op \<Rightarrow> store \<Rightarrow> recent" where
  "spec_reply e s =
     \<lparr>rReqId = ReqId e, rResult = (if Op e = GET then value_of (Key e) s else []),
      rErr = (if Op e = GET \<and> s (Key e) = None then ErrNoKey else OK)\<rparr>"

definition newer :: "Op \<Rightarrow> sessions \<Rightarrow> bool" where
  "newer e h \<longleftrightarrow> (case h (ClientId e) of Some r \<Rightarrow> rReqId r < ReqId e | None \<Rightarrow> True)"

definition sess_step :: "Op \<Rightarrow> store \<times> sessions \<Rightarrow> store \<times> sessions" where
  "sess_step e = (\<lambda>(s, h).
     if newer e h \<and> known_op e
     then (spec_store e s, h(ClientId e \<mapsto> spec_reply e s)) else (s, h))"

definition msg_step :: "'b kv_decoder \<Rightarrow> (Op, 'b) apply_msg \<Rightarrow> store \<times> sessions \<Rightarrow> store \<times> sessions" where
  "msg_step kdec m \<sigma> =
     (if UseSnapshot m then kdec (Snapshot m)
      else case MsgCommand m of None \<Rightarrow> \<sigma> | Some e \<Rightarrow> sess_step e \<sigma>)"

text \<open>What is assumed of gob: it reads back two finite maps, and what it decodes are finite maps.\<close>

definition finite_maps :: "store \<times> sessions \<Rightarrow> bool" where
  "finite_maps \<sigma> \<longleftrightarrow> finite (dom (fst \<sigma>)) \<and> finite (dom (snd \<sigma>))"

definition reads_back :: "'b kv_encoder \<Rightarrow> 'b kv_decoder \<Rightarrow> bool" where
  "reads_back kenc kdec \<longleftrightarrow> (\<forall>\<sigma>. finite_maps \<sigma> \<longrightarrow> kdec (kenc \<sigma>) = \<sigma>)"

definition makes_finite :: "'b kv_decoder \<Rightarrow> bool" where
  "makes_finite kdec \<longleftrightarrow> (\<forall>bs. finite_maps (kdec bs))"

definition kv_abs :: "'b KVServer \<Rightarrow> store \<times> sessions" where
  "kv_abs kv = (kv_record kv, kv_history kv)"

definition dropChan :: "Op \<Rightarrow> Op" where
  "dropChan e = e\<lparr>ApplyChan := None\<rparr>"

lemma dropChan_simps [simp]:
  "Op (dropChan e) = Op e" "Key (dropChan e) = Key e" "Value (dropChan e) = Value e"
  "ClientId (dropChan e) = ClientId e" "ReqId (dropChan e) = ReqId e" "ApplyChan (dropChan e) = None"
  by (simp_all add: dropChan_def)

lemma sess_step_pair:
  "sess_step e (s, h) =
     (if newer e h \<and> known_op e then (spec_store e s, h(ClientId e \<mapsto> spec_reply e s)) else (s, h))"
  by (simp add: sess_step_def)

lemma sess_step_dropChan: "sess_step (dropChan e) = sess_step e"
  by (simp add: sess_step_def newer_def known_op_def spec_store_def spec_reply_def fun_eq_iff
      cong: option.case_cong)

lemma isUpToDate_newer: "isUpToDate (ClientId e) (ReqId e) kv = newer e (kv_history kv)"
  by (simp add: isUpToDate_def newer_def)

lemma kv_abs_update [simp]:
  "kv_abs (kv\<lparr>kv_chans := c\<rparr>) = kv_abs kv" "kv_abs (kv\<lparr>kv_snaps := ss\<rparr>) = kv_abs kv"
  "kv_abs (kv\<lparr>kv_received := n\<rparr>) = kv_abs kv" "kv_abs (kv\<lparr>kv_rf := rf\<rparr>) = kv_abs kv"
  by (simp_all add: kv_abs_def)

lemma answer_frame:
  assumes "answer e kv = Some kv'"
  shows "\<exists>c. kv' = kv\<lparr>kv_chans := c\<rparr> \<and> length c = length (kv_chans kv)"
proof (cases "ApplyChan e")
  case None
  with assms show ?thesis by (intro exI [of _ "kv_chans kv"]) (simp add: answer_def)
qed (use assms in \<open>auto simp: answer_def chan_send_def split: if_splits\<close>)

lemma execute_spec:
  assumes "newer e (kv_history kv)" and "known_op e"
  shows "kv_abs (execute e kv) = sess_step e (kv_abs kv)"
    and "history_at (ClientId e) (execute e kv) = spec_reply e (kv_record kv)"
  using assms
  by (auto simp: execute_def kv_abs_def sess_step_def spec_store_def spec_reply_def known_op_def
      value_of_def zero_recent_def history_at_def kv_consts split: option.splits)

lemma execute_unknown: "\<not> known_op e \<Longrightarrow> execute e kv = kv"
  by (simp add: execute_def known_op_def)

lemma execute_frame [simp]:
  "kv_chans (execute e kv) = kv_chans kv" "kv_snaps (execute e kv) = kv_snaps kv"
  "kv_rf (execute e kv) = kv_rf kv" "kv_maxraftstate (execute e kv) = kv_maxraftstate kv"
  by (simp_all add: execute_def split: option.splits)

lemma apply_op_abs:
  assumes "apply_op e kv = Some kv'"
  shows "kv_abs kv' = sess_step e (kv_abs kv)"
proof (cases "newer e (kv_history kv)")
  case True
  with assms have "answer e (execute e kv) = Some kv'" by (simp add: apply_op_def isUpToDate_newer)
  then have eq: "kv_abs kv' = kv_abs (execute e kv)" using answer_frame by fastforce
  show ?thesis
  proof (cases "known_op e")
    case False
    then show ?thesis
      by (simp add: eq execute_unknown sess_step_def split: prod.split)
  qed (simp add: eq execute_spec(1) [OF True])
next
  case False
  with assms have "kv_abs kv' = kv_abs kv"
    using answer_frame [of e kv kv'] by (auto simp: apply_op_def isUpToDate_newer split: if_splits)
  with False show ?thesis by (simp add: sess_step_def kv_abs_def)
qed

interpretation ops: replica apply_op kv_abs sess_step dropChan
  by unfold_locales (simp_all add: apply_op_abs sess_step_dropChan)

abbreviation apply_ops :: "Op list \<Rightarrow> 'b KVServer \<Rightarrow> 'b KVServer option" where
  "apply_ops \<equiv> run_all apply_op"

abbreviation handle_msgs ::
  "'b kv_encoder \<Rightarrow> 'b kv_decoder \<Rightarrow> (Op, 'b) apply_msg list \<Rightarrow> 'b KVServer \<Rightarrow> 'b KVServer option" where
  "handle_msgs kenc kdec \<equiv> run_all (handle_msg kenc kdec)"

definition dropChanMsg :: "(Op, 'b) apply_msg \<Rightarrow> (Op, 'b) apply_msg" where
  "dropChanMsg m = m\<lparr>MsgCommand := map_option dropChan (MsgCommand m)\<rparr>"

lemma handle_msg_abs: "handle_msg kenc kdec m kv = Some kv' \<Longrightarrow> kv_abs kv' = msg_step kdec m (kv_abs kv)"
  by (auto simp: handle_msg_def msg_step_def Option.bind_eq_Some_conv dest: apply_op_abs
      split: if_splits option.splits) (simp_all add: kv_abs_def)

lemma msg_step_view: "msg_step kdec (dropChanMsg m) = msg_step kdec m"
  by (auto simp: msg_step_def dropChanMsg_def fun_eq_iff sess_step_dropChan split: option.split)

interpretation msgs: replica "handle_msg kenc kdec" kv_abs "msg_step kdec" dropChanMsg for kenc kdec
  by unfold_locales (simp_all add: handle_msg_abs msg_step_view)

subsection \<open>The operations that take effect\<close>

text \<open>The operations of a log that are newer than every earlier operation of their client.\<close>

definition supersedes :: "Op list \<Rightarrow> Op \<Rightarrow> bool" where
  "supersedes es e \<longleftrightarrow> (\<forall>e' \<in> set es. ClientId e' = ClientId e \<longrightarrow> ReqId e' < ReqId e)"

definition effective_ops :: "Op list \<Rightarrow> Op list" where
  "effective_ops es = map ((!) es) (filter (\<lambda>i. supersedes (take i es) (es ! i)) [0..<length es])"

lemma effective_ops_snoc:
  "effective_ops (es @ [e]) = effective_ops es @ (if supersedes es e then [e] else [])"
proof -
  have "map ((!) (es @ [e])) (filter (\<lambda>i. supersedes (take i (es @ [e])) ((es @ [e]) ! i)) [0..<length es])
      = effective_ops es"
    unfolding effective_ops_def by (intro map_cong filter_cong) (auto simp: nth_append)
  then show ?thesis by (simp add: effective_ops_def)
qed

lemma newer_after:
  assumes "\<forall>e \<in> set es. known_op e"
  shows "newer e (snd (fold sess_step es (Map.empty, Map.empty))) \<longleftrightarrow> supersedes es e"
  using assms
proof (induction es arbitrary: e rule: rev_induct)
  case (snoc x es)
  obtain s h where sh: "fold sess_step es (Map.empty, Map.empty) = (s, h)" by fastforce
  have IH: "newer f h \<longleftrightarrow> supersedes es f" for f using snoc.IH snoc.prems sh by simp
  have known: "known_op x" using snoc.prems by simp
  show ?case
  proof (cases "newer x h")
    case True
    then have "newer e (h(ClientId x \<mapsto> spec_reply x s)) \<longleftrightarrow> supersedes (es @ [x]) e"
      using IH [of e] IH [of x] by (auto simp: newer_def supersedes_def spec_reply_def)
    with True known sh show ?thesis by (simp add: sess_step_pair fun_upd_def)
  next
    case False
    then have "newer e h \<longleftrightarrow> supersedes (es @ [x]) e"
      using IH [of e] IH [of x]
      by (fastforce simp: newer_def supersedes_def split: option.splits)
    with False sh show ?thesis by (simp add: sess_step_pair)
  qed
qed (simp add: newer_def supersedes_def)

lemma fold_effective:
  assumes "\<forall>e \<in> set es. known_op e"
  shows "fst (fold sess_step es (Map.empty, Map.empty)) = fold spec_store (effective_ops es) Map.empty"
  using assms
proof (induction es rule: rev_induct)
  case (snoc x es)
  obtain s h where sh: "fold sess_step es (Map.empty, Map.empty) = (s, h)" by fastforce
  with snoc show ?case
    using newer_after [of es x] by (auto simp: effective_ops_snoc sess_step_pair)
qed (simp add: effective_ops_def)

subsection \<open>Channels\<close>

lemma apply_op_chans:
  assumes "apply_op e kv = Some kv'" and "ApplyChan e \<noteq> Some ch"
  shows "idx (kv_chans kv') (int ch) = idx (kv_chans kv) (int ch)"
proof -
  have "answer e kv1 = Some kv2 \<Longrightarrow> idx (kv_chans kv2) (int ch) = idx (kv_chans kv1) (int ch)"
    for kv1 kv2 :: "'a KVServer"
    using assms(2) by (auto simp: answer_def chan_send_def idx_def split: option.splits if_splits)
  with assms(1) show ?thesis by (fastforce simp: apply_op_def split: if_splits)
qed

lemma apply_ops_chans:
  assumes "apply_ops es kv = Some kv'" and "\<forall>e \<in> set es. ApplyChan e \<noteq> Some ch"
  shows "idx (kv_chans kv') (int ch) = idx (kv_chans kv) (int ch)"
  using assms by (induction es arbitrary: kv) (auto simp: Option.bind_eq_Some_conv dest: apply_op_chans)

lemma apply_op_answers:
  assumes "newer e (kv_history kv)" and "known_op e" and "ApplyChan e = Some ch"
    and "idx (kv_chans kv) (int ch) = Some None"
  shows "\<exists>kv'. apply_op e kv = Some kv'
    \<and> idx (kv_chans kv') (int ch) = Some (Some (spec_reply e (kv_record kv)))"
  using assms execute_spec(2) [OF assms(1,2)]
  by (auto simp: apply_op_def isUpToDate_newer answer_def chan_send_def go_simps)

text \<open>Channels that are distinct, made and empty never block the goroutine.\<close>

definition chans_ready :: "Op list \<Rightarrow> 'b KVServer \<Rightarrow> bool" where
  "chans_ready es kv \<longleftrightarrow>
     distinct (List.map_filter ApplyChan es)
     \<and> (\<forall>ch \<in> set (List.map_filter ApplyChan es). idx (kv_chans kv) (int ch) = Some None)"

lemma chans_ready_Cons:
  assumes "chans_ready (e # es) kv"
  shows "\<exists>kv'. apply_op e kv = Some kv' \<and> chans_ready es kv'"
proof -
  have "answer e kv1 \<noteq> None" if "kv_chans kv1 = kv_chans kv" for kv1 :: "'a KVServer"
    using assms that
    by (auto simp: answer_def chan_send_def chans_ready_def map_filter_simps split: option.splits)
  from this [of kv] this [of "execute e kv"] have "apply_op e kv \<noteq> None"
    by (simp add: apply_op_def)
  then obtain kv' where kv': "apply_op e kv = Some kv'" by blast
  have "idx (kv_chans kv') (int ch) = Some None" if "ch \<in> set (List.map_filter ApplyChan es)" for ch
  proof -
    have "ApplyChan e \<noteq> Some ch" and "idx (kv_chans kv) (int ch) = Some None"
      using assms that by (auto simp: chans_ready_def map_filter_simps split: option.splits)
    with apply_op_chans [OF kv'] show ?thesis by simp
  qed
  with kv' assms show ?thesis
    by (auto simp: chans_ready_def map_filter_simps split: option.splits)
qed

lemma chans_ready_apply: "chans_ready es kv \<Longrightarrow> \<exists>kv'. apply_ops es kv = Some kv'"
proof (induction es arbitrary: kv)
  case (Cons e es)
  with chans_ready_Cons [OF Cons.prems] show ?case by auto
qed simp

subsection \<open>Snapshots\<close>

lemma handle_msg_snaps:
  assumes "handle_msg kenc kdec m kv = Some kv'" and "(d, t) \<in> set (kv_snaps kv')"
  shows "(d, t) \<in> set (kv_snaps kv) \<or> t = m \<and> d = kenc (kv_abs kv')"
proof -
  have "kv_snaps kv2 = kv_snaps kv1" if "apply_op e kv1 = Some kv2" for e and kv1 kv2 :: "'a KVServer"
    using that answer_frame [of e kv1 kv2] answer_frame [of e "execute e kv1" kv2]
    by (auto simp: apply_op_def split: if_splits)
  with assms show ?thesis
    by (auto simp: handle_msg_def Option.bind_eq_Some_conv kv_abs_def split: if_splits option.splits)
qed

text \<open>A pending snapshot is the state after some prefix of the messages that ends with its own message.\<close>

lemma handle_msgs_snaps:
  assumes "handle_msgs kenc kdec ms kv = Some kv'" and "(d, t) \<in> set (kv_snaps kv')"
  shows "(d, t) \<in> set (kv_snaps kv)
    \<or> (\<exists>p q. ms = p @ t # q \<and> d = kenc (fold (msg_step kdec) (p @ [t]) (kv_abs kv)))"
  using assms
proof (induction ms arbitrary: kv)
  case (Cons m ms)
  then obtain kv1 where kv1: "handle_msg kenc kdec m kv = Some kv1" "handle_msgs kenc kdec ms kv1 = Some kv'"
    by (auto simp: Option.bind_eq_Some_conv)
  note abs1 = handle_msg_abs [OF kv1(1)]
  from Cons.IH [OF kv1(2) Cons.prems(2)] show ?case
  proof
    assume "(d, t) \<in> set (kv_snaps kv1)"
    with handle_msg_snaps [OF kv1(1)] abs1 show ?thesis by (force intro: exI [of _ "[]"])
  next
    assume "\<exists>p q. ms = p @ t # q \<and> d = kenc (fold (msg_step kdec) (p @ [t]) (kv_abs kv1))"
    then obtain p q where "ms = p @ t # q" "d = kenc (fold (msg_step kdec) (p @ [t]) (kv_abs kv1))" by blast
    with abs1 have "m # ms = (m # p) @ t # q \<and> d = kenc (fold (msg_step kdec) ((m # p) @ [t]) (kv_abs kv))"
      by simp
    then show ?thesis by blast
  qed
qed simp

text \<open>The states in which the maps are finite, as Go maps are.\<close>

lemma finite_maps_pair: "finite_maps (s, h) \<longleftrightarrow> finite (dom s) \<and> finite (dom h)"
  by (simp add: finite_maps_def)

lemma sess_step_finite: "finite_maps \<sigma> \<Longrightarrow> finite_maps (sess_step e \<sigma>)"
  by (cases \<sigma>) (simp add: sess_step_pair spec_store_def finite_maps_pair)

lemma reads_backD: "reads_back kenc kdec \<Longrightarrow> finite_maps \<sigma> \<Longrightarrow> kdec (kenc \<sigma>) = \<sigma>"
  unfolding reads_back_def by blast

lemma fold_msg_step_finite:
  assumes "makes_finite kdec" and "finite_maps \<sigma>"
  shows "finite_maps (fold (msg_step kdec) ms \<sigma>)"
  using assms(2)
proof (induction ms arbitrary: \<sigma>)
  case (Cons m ms)
  have "finite_maps (msg_step kdec m \<sigma>)"
    using assms(1) Cons.prems by (auto simp: msg_step_def makes_finite_def sess_step_finite split: option.split)
  with Cons.IH show ?case by simp
qed simp

subsection \<open>A codec with bytes\<close>

definition put_recent :: "recent \<Rightarrow> char list" where
  "put_recent x = put_pair put_int (put_pair put_str put_str) (rReqId x, rResult x, rErr x)"

definition get_recent :: "char list \<Rightarrow> recent \<times> char list" where
  "get_recent bs = apfst (\<lambda>(i, v, e). \<lparr>rReqId = i, rResult = v, rErr = e\<rparr>) (get_pair get_int (get_pair get_str get_str) bs)"

interpretation recent: byte_codec put_recent get_recent
proof
  fix x r
  show "get_recent (put_recent x @ r) = (x, r)"
    unfolding put_recent_def get_recent_def
    by (simp add: byte_codec.get_put [OF pair_codec [OF num.byte_codec_axioms pair_codec [OF str.byte_codec_axioms str.byte_codec_axioms]]])
qed

definition byte_kenc :: "char kv_encoder" where
  "byte_kenc = (\<lambda>(s, h). put_list (put_pair put_str put_str) (entries_of s) @ put_list (put_pair put_int put_recent) (entries_of h))"

definition byte_kdec :: "char kv_decoder" where
  "byte_kdec bs =
     (let (ss, r) = get_list (get_pair get_str get_str) bs; (hs, r') = get_list (get_pair get_int get_recent) r
      in (map_of ss, map_of hs))"

lemma byte_kenc_reads_back: "reads_back byte_kenc byte_kdec"
  unfolding reads_back_def
proof (intro allI impI)
  fix \<sigma> :: "store \<times> sessions"
  assume "finite_maps \<sigma>"
  then obtain s h where "\<sigma> = (s, h)" "finite (dom s)" "finite (dom h)" by (cases \<sigma>) (simp add: finite_maps_pair)
  then show "byte_kdec (byte_kenc \<sigma>) = \<sigma>"
    using byte_codec.get_put [OF list_codec [OF pair_codec [OF str.byte_codec_axioms str.byte_codec_axioms]], of "entries_of s"]
      byte_codec.get_put [OF list_codec [OF pair_codec [OF num.byte_codec_axioms recent.byte_codec_axioms]], of "entries_of h" "[]"]
    by (simp add: byte_kenc_def byte_kdec_def map_of_entries)
qed

lemma byte_kdec_finite: "makes_finite byte_kdec"
  by (simp add: makes_finite_def byte_kdec_def finite_maps_pair finite_dom_map_of split: prod.split)

section \<open>Properties\<close>

definition ex_op :: "string \<Rightarrow> string \<Rightarrow> int \<Rightarrow> nat option \<Rightarrow> Op" where
  "ex_op op v r ch = \<lparr>Op = op, Key = ''k'', Value = v, ClientId = 7, ReqId = r, ApplyChan = ch\<rparr>"

definition ex_server :: "nat \<Rightarrow> unit KVServer" where
  "ex_server n = \<lparr>kv_me = 0, kv_rf = zero_Raft 1 0 MakePersister, kv_stop = False, kv_record = Map.empty,
     kv_history = Map.empty, kv_maxraftstate = - 1, kv_received = 0, kv_chans = replicate n None,
     kv_snaps = []\<rparr>"

text \<open>
  C4. Exactly once: a server that starts empty and applies any log of operations, in which requests
  may occur several times because clerks retry them, ends, and its store is that of the abstract
  service after the effective operations only, each executed once in log order.
\<close>

theorem apply_exactly_once:
  assumes "kv_record kv = Map.empty" and "kv_history kv = Map.empty"
    and "\<forall>e \<in> set es. known_op e" and "chans_ready es kv"
  shows "\<exists>kv'. run_all apply_op es kv = Some kv'
    \<and> kv_record kv' = fold spec_store (effective_ops es) Map.empty"
proof -
  obtain kv' where kv': "apply_ops es kv = Some kv'" using chans_ready_apply [OF assms(4)] by blast
  then have "kv_abs kv' = fold sess_step es (Map.empty, Map.empty)"
    using ops.run_fold [OF kv'] assms(1,2) by (simp add: kv_abs_def)
  then have "kv_record kv' = fst (fold sess_step es (Map.empty, Map.empty))"
    by (metis fst_conv kv_abs_def)
  with fold_effective [OF assms(3)] kv' show ?thesis by simp
qed

theorem apply_exactly_once_witness:
  "\<exists>kv'. run_all apply_op [ex_op APPEND ''a'' 0 (Some 0), ex_op APPEND ''a'' 0 None, ex_op APPEND ''b'' 1 (Some 1)]
       (ex_server 2) = Some kv' \<and> kv_record kv' ''k'' = Some ''ab''"
proof -
  let ?es = "[ex_op APPEND ''a'' 0 (Some 0), ex_op APPEND ''a'' 0 None, ex_op APPEND ''b'' 1 (Some 1)]"
  have "effective_ops ?es = [ex_op APPEND ''a'' 0 (Some 0), ex_op APPEND ''b'' 1 (Some 1)]" by code_simp
  moreover have "\<exists>kv'. run_all apply_op ?es (ex_server 2) = Some kv'
      \<and> kv_record kv' = fold spec_store (effective_ops ?es) Map.empty"
    by (rule apply_exactly_once)
      (simp_all add: ex_server_def ex_op_def known_op_def chans_ready_def map_filter_simps idx_def)
  ultimately show ?thesis by (auto simp: spec_store_def ex_op_def value_of_def kv_consts)
qed

text \<open>
  Replicas agree: two servers that handle the same messages from Raft, up to the reply channels,
  which only exist on the server that received the request, end with the same store and the same
  request history.
\<close>

theorem replicas_reach_same_state:
  assumes "run_all (handle_msg kenc kdec) ms kv = Some kv'" and "run_all (handle_msg kenc kdec) ms' kw = Some kw'"
    and "map dropChanMsg ms = map dropChanMsg ms'"
    and "kv_record kv = kv_record kw" and "kv_history kv = kv_history kw"
  shows "kv_record kv' = kv_record kw' \<and> kv_history kv' = kv_history kw'"
  using msgs.replicas_agree [OF assms(1-3)] assms(4,5) by (simp add: kv_abs_def)

definition ex_msg :: "Op \<Rightarrow> (Op, unit) apply_msg" where
  "ex_msg e = \<lparr>CommandValid = True, MsgCommand = Some e, MsgCommandIndex = 1, UseSnapshot = False, Snapshot = []\<rparr>"

definition ex_kdec :: "unit kv_decoder" where
  "ex_kdec bs = (Map.empty, Map.empty)"

theorem replicas_reach_same_state_witness:
  "\<exists>kv' kw'. handle_msgs (\<lambda>x. []) ex_kdec [ex_msg (ex_op PUT ''v'' 0 (Some 0))] (ex_server 1) = Some kv'
    \<and> handle_msgs (\<lambda>x. []) ex_kdec [ex_msg (ex_op PUT ''v'' 0 None)] (ex_server 0) = Some kw'
    \<and> kv_record kv' = kv_record kw'"
proof -
  let ?ms = "[ex_msg (ex_op PUT ''v'' 0 (Some 0))]" and ?ms' = "[ex_msg (ex_op PUT ''v'' 0 None)]"
  obtain kv' kw' where "handle_msgs (\<lambda>x. []) ex_kdec ?ms (ex_server 1) = Some kv'"
    and "handle_msgs (\<lambda>x. []) ex_kdec ?ms' (ex_server 0) = Some kw'"
    by (simp add: handle_msg_def ex_msg_def ex_op_def ex_server_def apply_op_def isUpToDate_def answer_def
        chan_send_def wants_snapshot_def execute_def kv_consts)
  moreover have "map dropChanMsg ?ms = map dropChanMsg ?ms'"
    by (simp add: dropChanMsg_def ex_msg_def dropChan_def ex_op_def)
  ultimately show ?thesis
    using replicas_reach_same_state [of "\<lambda>x. []" ex_kdec ?ms "ex_server 1" kv' ?ms' "ex_server 0" kw']
    by (auto simp: ex_server_def)
qed

text \<open>
  C12. Snapshots are sound: when a server that started with no pending snapshot wants to save one, a
  server that installs this snapshot and then handles the messages that followed it reaches the store
  and history of the first server. Of the codec it is assumed that it reads back finite maps, which is
  all a Go map can be, and that decoding makes finite maps.
\<close>

theorem snapshot_replaces_prefix:
  assumes "reads_back kenc kdec" and "makes_finite kdec" and "finite_maps (kv_record kv, kv_history kv)"
    and "run_all (handle_msg kenc kdec) ms kv = Some kv'" and "kv_snaps kv = []"
    and "(d, t) \<in> set (kv_snaps kv')"
  shows "\<exists>p q. ms = p @ t # q \<and>
    (\<forall>m kw kw'. UseSnapshot m \<and> Snapshot m = d \<and> run_all (handle_msg kenc kdec) (m # q) kw = Some kw'
       \<longrightarrow> kv_record kw' = kv_record kv' \<and> kv_history kw' = kv_history kv')"
proof -
  obtain p q where ms: "ms = p @ t # q" and d: "d = kenc (fold (msg_step kdec) (p @ [t]) (kv_abs kv))"
    using handle_msgs_snaps [OF assms(4,6)] assms(5) by auto
  have fin: "finite_maps (fold (msg_step kdec) (p @ [t]) (kv_abs kv))"
    unfolding kv_abs_def by (rule fold_msg_step_finite [OF assms(2,3)])
  have end1: "kv_abs kv' = fold (msg_step kdec) q (fold (msg_step kdec) (p @ [t]) (kv_abs kv))"
    using msgs.run_fold [OF assms(4)] ms by simp
  have "kv_abs kw' = kv_abs kv'"
    if "UseSnapshot m" "Snapshot m = d" "run_all (handle_msg kenc kdec) (m # q) kw = Some kw'" for m and kw kw' :: "'a KVServer"
  proof -
    have "msg_step kdec m (kv_abs kw) = kdec d" using that(1,2) by (simp add: msg_step_def)
    also have "\<dots> = fold (msg_step kdec) (p @ [t]) (kv_abs kv)" unfolding d by (rule reads_backD [OF assms(1) fin])
    finally have "msg_step kdec m (kv_abs kw) = fold (msg_step kdec) (p @ [t]) (kv_abs kv)" .
    with msgs.run_fold [OF that(3)] end1 show ?thesis by simp
  qed
  then have "kv_record kw' = kv_record kv' \<and> kv_history kw' = kv_history kv'"
    if "UseSnapshot m \<and> Snapshot m = d \<and> run_all (handle_msg kenc kdec) (m # q) kw = Some kw'" for m and kw kw' :: "'a KVServer"
    using that by (metis kv_abs_def prod.inject)
  with ms show ?thesis by blast
qed

text \<open>
  With bytes: a server applies a put, wants a snapshot, and applies an append; one that installs the bytes
  of the snapshot and applies the append has the same store.
\<close>

definition ex_snap_msg :: "Op \<Rightarrow> (Op, char) apply_msg" where
  "ex_snap_msg e = \<lparr>CommandValid = True, MsgCommand = Some e, MsgCommandIndex = 1, UseSnapshot = False, Snapshot = []\<rparr>"

theorem snapshot_replaces_prefix_witness:
  "\<exists>kv kv' d kw'. handle_msgs byte_kenc byte_kdec [ex_snap_msg (ex_op PUT ''v'' 0 None), ex_snap_msg (ex_op APPEND ''w'' 1 None)] kv = Some kv'
    \<and> (d, ex_snap_msg (ex_op PUT ''v'' 0 None)) \<in> set (kv_snaps kv') \<and> kv_record kv' ''k'' = Some ''vw''
    \<and> run_all (handle_msg byte_kenc byte_kdec) [\<lparr>CommandValid = False, MsgCommand = None, MsgCommandIndex = 0, UseSnapshot = True, Snapshot = d\<rparr>,
        ex_snap_msg (ex_op APPEND ''w'' 1 None)] kv = Some kw' \<and> kv_record kw' = kv_record kv'"
proof -
  define kv where "kv = \<lparr>kv_me = 0, kv_rf = (zero_Raft 1 0 MakePersister :: (Op, char) Raft), kv_stop = False, kv_record = Map.empty,
     kv_history = Map.empty, kv_maxraftstate = 0, kv_received = 0, kv_chans = [], kv_snaps = []\<rparr>"
  let ?e = "ex_op PUT ''v'' 0 None" and ?f = "ex_op APPEND ''w'' 1 None"
  let ?d = "byte_kenc (Map.empty(''k'' \<mapsto> ''v''), Map.empty(7 \<mapsto> \<lparr>rReqId = 0, rResult = [], rErr = OK\<rparr>))"
  let ?s = "\<lparr>CommandValid = False, MsgCommand = None, MsgCommandIndex = 0, UseSnapshot = True, Snapshot = ?d\<rparr> :: (Op, char) apply_msg"
  note run = handle_msg_def ex_snap_msg_def ex_op_def kv_def apply_op_def isUpToDate_def answer_def zero_recent_def
      wants_snapshot_def execute_def GetRaftStateSize_def persister_defs zero_Raft_def kv_consts
  obtain kv' where kv': "handle_msgs byte_kenc byte_kdec [ex_snap_msg ?e, ex_snap_msg ?f] kv = Some kv'"
    "(?d, ex_snap_msg ?e) \<in> set (kv_snaps kv')" "kv_record kv' ''k'' = Some ''vw''"
    by (simp add: run)
  have "byte_kdec ?d = (Map.empty(''k'' \<mapsto> ''v''), Map.empty(7 \<mapsto> \<lparr>rReqId = 0, rResult = [], rErr = OK\<rparr>))"
    by (rule reads_backD [OF byte_kenc_reads_back]) (simp add: finite_maps_def)
  then obtain kw' where kw': "handle_msgs byte_kenc byte_kdec [?s, ex_snap_msg ?f] kv = Some kw'" by (simp add: run)
  have "finite_maps (kv_record kv, kv_history kv)" "kv_snaps kv = []" by (simp_all add: kv_def finite_maps_def)
  from snapshot_replaces_prefix [OF byte_kenc_reads_back byte_kdec_finite this(1) kv'(1) this(2) kv'(2)]
  obtain p q where pq: "[ex_snap_msg ?e, ex_snap_msg ?f] = p @ ex_snap_msg ?e # q"
    "\<forall>m kw kw'. UseSnapshot m \<and> Snapshot m = ?d \<and> run_all (handle_msg byte_kenc byte_kdec) (m # q) kw = Some kw'
       \<longrightarrow> kv_record kw' = kv_record kv' \<and> kv_history kw' = kv_history kv'" by blast
  have "p = []" using pq(1) by (cases p) (auto simp: Cons_eq_append_conv ex_snap_msg_def ex_op_def)
  then have "q = [ex_snap_msg ?f]" using pq(1) by simp
  with pq(2) [rule_format, of ?s kv kw'] kw' have "kv_record kw' = kv_record kv'" by (simp del: run_all.simps)
  with kv' kw' show ?thesis by blast
qed

text \<open>
  A \<open>Get\<close> that waits for its channel gets, once its entry is applied as a new request, the value
  of the key in the store at that point of the log, or \<open>ErrNoKey\<close> with an empty value when the key
  has none; applying the entry does not change the store.
\<close>

theorem Get_returns_value_at_apply:
  assumes "Op e = GET" and "ApplyChan e = Some ch" and "idx (kv_chans kv) (int ch) = Some None"
    and "isUpToDate (ClientId e) (ReqId e) kv"
  shows "\<exists>kv1 kv2. apply_op e kv = Some kv1 \<and> kv_record kv1 = kv_record kv
    \<and> Get_end ch kv1 = Some (kv2, case kv_record kv (Key e) of
         Some v \<Rightarrow> \<lparr>garWrongLeader = False, garErr = OK, garValue = v\<rparr>
       | None \<Rightarrow> \<lparr>garWrongLeader = False, garErr = ErrNoKey, garValue = []\<rparr>)"
proof -
  have k: "known_op e" and n: "newer e (kv_history kv)"
    using assms(1,4) by (simp_all add: known_op_def isUpToDate_newer)
  obtain kv1 where kv1: "apply_op e kv = Some kv1"
    "idx (kv_chans kv1) (int ch) = Some (Some (spec_reply e (kv_record kv)))"
    using apply_op_answers [OF n k assms(2,3)] by blast
  moreover have "kv_record kv1 = kv_record kv"
    using apply_op_abs [OF kv1(1)] assms(1)
    by (simp add: kv_abs_def sess_step_pair spec_store_def kv_consts split: if_splits)
  ultimately show ?thesis
    using assms(1)
    by (auto simp: Get_end_def chan_recv_def spec_reply_def value_of_def kv_consts split: option.splits)
qed

theorem Get_returns_value_at_apply_witness:
  "\<exists>kv1 kv2. apply_op (ex_op GET [] 3 (Some 0)) (ex_server 1) = Some kv1
    \<and> Get_end 0 kv1 = Some (kv2, \<lparr>garWrongLeader = False, garErr = ErrNoKey, garValue = []\<rparr>)"
  using Get_returns_value_at_apply [of "ex_op GET [] 3 (Some 0)" 0 "ex_server 1"]
  by (auto simp: ex_op_def ex_server_def isUpToDate_def idx_def)

text \<open>
  C36. A retried \<open>Get\<close> may wait forever: when its entry is applied after another entry for the same
  request, \<open>apply\<close> returns without sending to its channel, and whatever is applied later, the handler
  stays blocked.
\<close>

theorem duplicate_Get_never_answered:
  assumes "Op e = GET" and "ApplyChan e = Some ch" and "idx (kv_chans kv) (int ch) = Some None"
    and "kv_history kv (ClientId e) = Some r" and "rReqId r = ReqId e"
    and "\<forall>e' \<in> set es. ApplyChan e' \<noteq> Some ch" and "run_all apply_op (e # es) kv = Some kv'"
  shows "Get_end ch kv' = None"
proof -
  have "apply_op e kv = Some kv"
    using assms(1,4,5) by (simp add: apply_op_def isUpToDate_def history_at_def)
  with assms(7) have "idx (kv_chans kv') (int ch) = Some None"
    using apply_ops_chans [OF _ assms(6), of kv kv'] assms(3) by simp
  then show ?thesis by (simp add: Get_end_def chan_recv_def)
qed

theorem duplicate_Get_never_answered_witness:
  "\<exists>kv kv'. apply_ops [ex_op GET [] 0 (Some 0)] (ex_server 2) = Some kv
    \<and> run_all apply_op [ex_op GET [] 0 (Some 1), ex_op PUT ''v'' 1 None] kv = Some kv' \<and> Get_end 1 kv' = None"
proof -
  obtain kv kv' where kv: "apply_ops [ex_op GET [] 0 (Some 0)] (ex_server 2) = Some kv"
      "kv_history kv 7 = Some \<lparr>rReqId = 0, rResult = [], rErr = ErrNoKey\<rparr>" "idx (kv_chans kv) 1 = Some None"
    and kv': "run_all apply_op [ex_op GET [] 0 (Some 1), ex_op PUT ''v'' 1 None] kv = Some kv'"
    by (simp add: ex_op_def ex_server_def apply_op_def isUpToDate_def answer_def chan_send_def execute_def
        zero_recent_def idx_def history_at_def kv_consts numeral_2_eq_2)
  from duplicate_Get_never_answered [OF _ _ _ _ _ _ kv', of 1 "\<lparr>rReqId = 0, rResult = [], rErr = ErrNoKey\<rparr>"] kv
  have "Get_end 1 kv' = None" by (simp add: ex_op_def)
  with kv kv' show ?thesis by blast
qed

text \<open>
  Acknowledgement without waiting is sound: when a server that has applied a log answers a
  \<open>PutAppend\<close> at once, the log already holds a request of that client with the same or a greater
  number, so the operation itself was applied or the clerk has moved on.
\<close>

theorem PutAppend_ack_means_applied:
  assumes "kv_record kv = Map.empty" and "kv_history kv = Map.empty" and "\<forall>e \<in> set es. known_op e"
    and "run_all apply_op es kv = Some kv'"
    and "PutAppend_begin enc args kv' = Some (kv2, Inl \<lparr>parWrongLeader = False, parErr = OK\<rparr>)"
  shows "kv2 = kv' \<and> (\<exists>e \<in> set es. ClientId e = paClientId args \<and> paReqId args \<le> ReqId e)"
proof -
  let ?e = "\<lparr>Op = PUT, Key = [], Value = [], ClientId = paClientId args, ReqId = paReqId args, ApplyChan = None\<rparr>"
  have old: "\<not> isUpToDate (paClientId args) (paReqId args) kv'" and "kv2 = kv'"
    using assms(5)
    by (auto simp: PutAppend_begin_def make_chan_def Let_def Option.bind_eq_Some_conv split: if_splits)
  have "kv_history kv' = snd (fold sess_step es (Map.empty, Map.empty))"
    using ops.run_fold [OF assms(4)] assms(1,2) by (metis kv_abs_def snd_conv)
  with old have "\<not> newer ?e (snd (fold sess_step es (Map.empty, Map.empty)))"
    by (simp add: isUpToDate_def newer_def cong: option.case_cong)
  then have "\<not> supersedes es ?e" using newer_after [OF assms(3)] by simp
  with \<open>kv2 = kv'\<close> show ?thesis by (auto simp: supersedes_def)
qed

theorem PutAppend_ack_means_applied_witness:
  "\<exists>kv'. run_all apply_op [ex_op PUT ''v'' 5 None] (ex_server 0) = Some kv' \<and>
     PutAppend_begin (\<lambda>x. []) \<lparr>paKey = ''k'', paValue = ''v'', paOp = PUT, paClientId = 7, paReqId = 5\<rparr> kv'
       = Some (kv', Inl \<lparr>parWrongLeader = False, parErr = OK\<rparr>)
     \<and> (\<exists>e \<in> set [ex_op PUT ''v'' 5 None]. 5 \<le> ReqId e)"
proof -
  let ?args = "\<lparr>paKey = ''k'', paValue = ''v'', paOp = PUT, paClientId = 7, paReqId = 5\<rparr>"
  obtain kv' where kv': "run_all apply_op [ex_op PUT ''v'' 5 None] (ex_server 0) = Some kv'"
    "PutAppend_begin (\<lambda>x. []) ?args kv' = Some (kv', Inl \<lparr>parWrongLeader = False, parErr = OK\<rparr>)"
    by (simp add: ex_op_def ex_server_def apply_op_def isUpToDate_def answer_def execute_def PutAppend_begin_def kv_consts)
  with PutAppend_ack_means_applied [OF _ _ _ kv'] show ?thesis
    by (auto simp: ex_server_def ex_op_def known_op_def)
qed

end
