(* ===== verification/Kv_Snapshots.thy ===== *)
theory Kv_Snapshots
  imports Raft_Cluster Kv_Server
begin

text \<open>
  Snapshots across the two layers. Raft hands a snapshot to the service from a goroutine of its own
  (\<open>raft.go\<close>, \<open>readSnapshot\<close> and \<open>InstallSnapshot\<close>), while the main goroutine goes on applying entries. A run
  of the cluster shows what comes of it: after a restart the snapshot arrives behind an entry that was applied
  meanwhile, and the server puts the old maps in the place of the new ones.
\<close>

section \<open>A run with a restart\<close>

text \<open>
  What is saved: the state of a peer as a value, the snapshot of a server as the bytes of \<open>byte_kenc\<close> in one piece.
\<close>

type_synonym saved_value = "(int \<times> int \<times> Op command list) + char list"

fun snap_enc :: "(Op, saved_value) encoder" where
  "snap_enc (t, v, l) = [Inl (t, v, map (wireCmd dropChan) l)]"

fun snap_dec :: "(Op, saved_value) decoder" where
  "snap_dec (Inl x # xs) = Some x"
| "snap_dec xs = None"

definition snap_kenc :: "saved_value kv_encoder" where
  "snap_kenc \<sigma> = [Inr (byte_kenc \<sigma>)]"

fun snap_kdec :: "saved_value kv_decoder" where
  "snap_kdec (Inr bs # xs) = byte_kdec bs"
| "snap_kdec xs = (Map.empty, Map.empty)"

lemma dropChan_idem: "dropChan (dropChan e) = dropChan e"
  by (simp add: dropChan_def)

interpretation snap: gob_codec snap_enc snap_dec dropChan
  by unfold_locales (auto simp: dropChan_idem)

lemma snap_reads_back: "reads_back snap_kenc snap_kdec"
  using byte_kenc_reads_back unfolding reads_back_def by (simp add: snap_kenc_def)

definition put_op :: "string \<Rightarrow> int \<Rightarrow> Op" where
  "put_op v r = \<lparr>Op = PUT, Key = ''k'', Value = v, ClientId = 7, ReqId = r, ApplyChan = Some 0\<rparr>"

text \<open>A server as \<open>StartKVServer\<close> makes it, with the channel of one handler that waits.\<close>

definition waiting_server :: "(Op, saved_value) Raft \<Rightarrow> saved_value KVServer" where
  "waiting_server rf = \<lparr>kv_me = 0, kv_rf = rf, kv_stop = False, kv_record = Map.empty, kv_history = Map.empty,
     kv_maxraftstate = 0, kv_received = 0, kv_chans = [None], kv_snaps = []\<rparr>"

text \<open>The messages with the two puts.\<close>

definition first_msg :: "(Op, saved_value) apply_msg" where
  "first_msg = \<lparr>CommandValid = True, MsgCommand = Some (put_op ''a'' 0), MsgCommandIndex = 1, UseSnapshot = False, Snapshot = []\<rparr>"

definition second_msg :: "(Op, saved_value) apply_msg" where
  "second_msg = first_msg\<lparr>MsgCommand := Some (put_op ''b'' 1), MsgCommandIndex := 2\<rparr>"

text \<open>
  Peer 0 is elected with the vote of peer 1, gets the first put, replicates it to peer 1, commits and applies it, and saves the
  snapshot. It crashes and restarts, is elected again, gets the second put, commits and applies it, and only then does
  the goroutine of \<open>readSnapshot\<close> send the snapshot.
\<close>

definition elect0 :: "(Op, saved_value) action list" where
  "elect0 = become_candidate 0 @ [Main 0 0, Work 0, Work 1, Work 1, Main 0 0, Select 0 OnDefault 0, Main 0 0]"

definition put0 :: "Op \<Rightarrow> (Op, saved_value) action list" where
  "put0 e = [ClientStart 0 e, Work 1, Work 1, Work 1, Work 2, Work 2, Work 2] @ leader_round 0"

definition late_delivery :: "saved_value list \<Rightarrow> (Op, saved_value) action list" where
  "late_delivery d = elect0 @ put0 (put_op ''a'' 0) @ [TakeSnapshot 0 d first_msg, Restart 0]
     @ elect0 @ put0 (put_op ''b'' 1) @ [DeliverSnapshot 0 0]"

lemma late_delivery_run:
  "map_option (\<lambda>s. (LastApplied (nodes s ! 0), log_map (Log (nodes s ! 0)) 2, ApplyCh (nodes s ! 0)))
     (Option.bind (init_cluster snap_dec 3) (run snap_enc snap_dec dropChan (late_delivery [Inr bs])))
   = Some (2, Some \<lparr>CommandIndex = 2, Command = Some (put_op ''b'' 1), CommandTerm = 2\<rparr>, [second_msg, snapshot_msg [Inr bs]])"
  by code_simp

text \<open>The snapshot that the server made of the first message, and what the server does with the two messages after the restart.\<close>

definition first_maps :: "store \<times> sessions" where
  "first_maps = (Map.empty(''k'' \<mapsto> ''a''), Map.empty(7 \<mapsto> \<lparr>rReqId = 0, rResult = [], rErr = OK\<rparr>))"

lemmas server_defs = handle_msg_def first_msg_def second_msg_def put_op_def waiting_server_def apply_op_def isUpToDate_def answer_def
  chan_send_def history_at_def zero_recent_def wants_snapshot_def execute_def GetRaftStateSize_def persister_defs zero_Raft_def kv_consts

lemma first_snapshot_made:
  "\<exists>kv. handle_msg snap_kenc snap_kdec first_msg (waiting_server (zero_Raft 3 0 MakePersister)) = Some kv
     \<and> kv_snaps kv = [(snap_kenc first_maps, first_msg)]"
  by (simp add: server_defs first_maps_def)

lemma snapshot_read: "snap_kdec (snap_kenc first_maps) = first_maps"
  by (rule reads_backD [OF snap_reads_back]) (simp add: first_maps_def finite_maps_def)

lemma late_receive:
  assumes "ApplyCh rf = [second_msg, snapshot_msg (snap_kenc first_maps)]"
  shows "\<exists>kv. run_all (\<lambda>u. receive_step snap_kenc snap_kdec) [(), ()] (waiting_server rf) = Some kv \<and> kv_received kv = 2
    \<and> kv_record kv ''k'' = Some ''a'' \<and> kv_chans kv = [Some \<lparr>rReqId = 1, rResult = [], rErr = OK\<rparr>]"
  using assms snapshot_read
  by (simp add: receive_step_def idx_def snapshot_msg_def server_defs first_maps_def)

section \<open>Property\<close>

text \<open>
  C16. A snapshot that Raft delivers late undoes what was applied: in a state that the cluster can reach by two elections, two
  puts and one restart, without a lost message, peer 0 has applied and logged the second put, but the snapshot its service
  had saved after the first put comes last on \<open>applyCh\<close>. A server that handles these messages in turn has acknowledged the second put
  to its handler and ends with the value of the first.
\<close>

theorem late_snapshot_undoes_put:
  "(\<exists>kv. handle_msg snap_kenc snap_kdec first_msg (waiting_server (zero_Raft 3 0 MakePersister)) = Some kv
     \<and> kv_snaps kv = [(snap_kenc first_maps, first_msg)])
   \<and> (\<exists>s kv. reachable snap_enc snap_dec dropChan 3 s \<and> LastApplied (nodes s ! 0) = 2
    \<and> log_map (Log (nodes s ! 0)) 2 = Some \<lparr>CommandIndex = 2, Command = Some (put_op ''b'' 1), CommandTerm = 2\<rparr>
    \<and> ApplyCh (nodes s ! 0) = [second_msg, snapshot_msg (snap_kenc first_maps)]
    \<and> run_all (\<lambda>u. receive_step snap_kenc snap_kdec) [(), ()] (waiting_server (nodes s ! 0)) = Some kv
    \<and> kv_chans kv = [Some \<lparr>rReqId = 1, rResult = [], rErr = OK\<rparr>] \<and> kv_record kv ''k'' = Some ''a'')"
proof -
  obtain s where run: "Option.bind (init_cluster snap_dec 3) (run snap_enc snap_dec dropChan (late_delivery (snap_kenc first_maps))) = Some s"
    and s: "LastApplied (nodes s ! 0) = 2" "ApplyCh (nodes s ! 0) = [second_msg, snapshot_msg (snap_kenc first_maps)]"
      "log_map (Log (nodes s ! 0)) 2 = Some \<lparr>CommandIndex = 2, Command = Some (put_op ''b'' 1), CommandTerm = 2\<rparr>"
    using late_delivery_run [of "byte_kenc first_maps"] by (auto simp: snap_kenc_def)
  from run have "reachable snap_enc snap_dec dropChan 3 s" by (auto simp: Option.bind_eq_Some_conv intro: init_reachable)
  with s late_receive [OF s(2)] first_snapshot_made show ?thesis by blast
qed

end
