(* ===== verification/Labrpc.thy ===== *)
theory Labrpc
  imports Go_Prelude "HOL-Library.Word"
begin

text \<open>
  The simulated network (\<open>src/src/labrpc/labrpc.go\<close>): client ends, the switchboard \<open>Network\<close>, servers
  with their services, and the goroutine \<open>ProcessReq\<close> that carries one request.

  \<^item> End names, server names, Go types, values, bytes and receivers are the type parameters \<open>'e\<close>, \<open>'s\<close>,
    \<open>'t\<close>, \<open>'v\<close>, \<open>'b\<close> and \<open>'o\<close>. Servers are compared by pointer, so a \<open>*Server\<close> is an index into the
    list of the servers made so far; \<open>rcvr\<close> is an index into the list of receivers.
  \<^item> A Go map whose missing and \<open>nil\<close> entries read the same is a partial function.
  \<^item> \<open>encoding/gob\<close> and the run-time types of \<open>reflect\<close> are the record \<open>gob\<close>, an argument. A handler is the
    function of the method it is registered under, on the receiver, the argument and the fresh reply.
  \<^item> A panic and \<open>log.Fatalf\<close> end the process: \<open>None\<close>.
  \<^item> A random number is an argument. Sleeping takes no step of its own: between two steps of a request
    the other requests and the switchboard may take any number of steps.
\<close>

section \<open>Messages, ends and the switchboard\<close>

record ('t, 'v, 'b) gob =
  gEncode :: "'v \<Rightarrow> 'b list"
  gDecode :: "'b list \<Rightarrow> 'v \<Rightarrow> 'v \<times> bool"
  gZero :: "'t \<Rightarrow> 'v"
  gTypeOf :: "'v \<Rightarrow> 't"

record ('e, 't, 'b) reqMsg =
  rq_endname :: 'e
  rq_svcMeth :: string
  rq_argsType :: 't
  rq_args :: "'b list"

record 'b replyMsg =
  rp_ok :: bool
  rp_reply :: "'b list"

record 'e ClientEnd =
  ce_endname :: 'e

record ('e, 's) Network =
  nw_reliable :: bool
  nw_longDelays :: bool
  nw_longReordering :: bool
  nw_ends :: "'e \<rightharpoonup> 'e ClientEnd"
  nw_enabled :: "'e \<rightharpoonup> bool"
  nw_servers :: "'s \<rightharpoonup> nat"
  nw_connections :: "'e \<rightharpoonup> 's"
  nw_done :: bool
  nw_count :: "32 word"

definition MakeNetwork :: "('e, 's) Network" where
  "MakeNetwork =
     \<lparr>nw_reliable = True, nw_longDelays = False, nw_longReordering = False, nw_ends = Map.empty,
      nw_enabled = Map.empty, nw_servers = Map.empty, nw_connections = Map.empty, nw_done = False, nw_count = 0\<rparr>"

definition Cleanup :: "('e, 's) Network \<Rightarrow> ('e, 's) Network option" where
  "Cleanup rn = (if nw_done rn then None else Some (rn\<lparr>nw_done := True\<rparr>))"

definition Reliable :: "bool \<Rightarrow> ('e, 's) Network \<Rightarrow> ('e, 's) Network" where
  "Reliable yes rn = rn\<lparr>nw_reliable := yes\<rparr>"

definition LongReordering :: "bool \<Rightarrow> ('e, 's) Network \<Rightarrow> ('e, 's) Network" where
  "LongReordering yes rn = rn\<lparr>nw_longReordering := yes\<rparr>"

definition LongDelays :: "bool \<Rightarrow> ('e, 's) Network \<Rightarrow> ('e, 's) Network" where
  "LongDelays yes rn = rn\<lparr>nw_longDelays := yes\<rparr>"

definition is_enabled :: "('e, 's) Network \<Rightarrow> 'e \<Rightarrow> bool" where
  "is_enabled rn endname = (nw_enabled rn endname = Some True)"

definition ReadEndnameInfo ::
  "'e \<Rightarrow> ('e, 's) Network \<Rightarrow> bool \<times> 's option \<times> nat option \<times> bool \<times> bool" where
  "ReadEndnameInfo endname rn =
     (let servername = nw_connections rn endname
      in (is_enabled rn endname, servername, Option.bind servername (nw_servers rn),
          nw_reliable rn, nw_longReordering rn))"

definition IsServerDead :: "'e \<Rightarrow> 's \<Rightarrow> nat \<Rightarrow> ('e, 's) Network \<Rightarrow> bool" where
  "IsServerDead endname servername server rn =
     (\<not> is_enabled rn endname \<or> nw_servers rn servername \<noteq> Some server)"

definition MakeEnd :: "'e \<Rightarrow> ('e, 's) Network \<Rightarrow> (('e, 's) Network \<times> 'e ClientEnd) option" where
  "MakeEnd endname rn =
     (if nw_ends rn endname \<noteq> None then None
      else let e = \<lparr>ce_endname = endname\<rparr>
           in Some (rn\<lparr>nw_ends := (nw_ends rn)(endname \<mapsto> e),
                       nw_enabled := (nw_enabled rn)(endname \<mapsto> False),
                       nw_connections := (nw_connections rn)(endname := None)\<rparr>, e))"

definition AddServer :: "'s \<Rightarrow> nat \<Rightarrow> ('e, 's) Network \<Rightarrow> ('e, 's) Network" where
  "AddServer servername rs rn = rn\<lparr>nw_servers := (nw_servers rn)(servername \<mapsto> rs)\<rparr>"

definition DeleteServer :: "'s \<Rightarrow> ('e, 's) Network \<Rightarrow> ('e, 's) Network" where
  "DeleteServer servername rn = rn\<lparr>nw_servers := (nw_servers rn)(servername := None)\<rparr>"

definition Connect :: "'e \<Rightarrow> 's \<Rightarrow> ('e, 's) Network \<Rightarrow> ('e, 's) Network" where
  "Connect endname servername rn = rn\<lparr>nw_connections := (nw_connections rn)(endname \<mapsto> servername)\<rparr>"

definition Enable :: "'e \<Rightarrow> bool \<Rightarrow> ('e, 's) Network \<Rightarrow> ('e, 's) Network" where
  "Enable endname enabled rn = rn\<lparr>nw_enabled := (nw_enabled rn)(endname \<mapsto> enabled)\<rparr>"

definition GetTotalCount :: "('e, 's) Network \<Rightarrow> int" where
  "GetTotalCount rn = sint (nw_count rn)"

section \<open>Servers and services\<close>

record ('t, 'v, 'o) Method =
  m_Name :: string
  m_PkgPath :: string
  m_NumIn :: nat
  m_In_ptr :: "nat \<Rightarrow> bool"
  m_ReplyType :: 't
  m_NumOut :: nat
  m_Func :: "'o \<Rightarrow> 'v \<Rightarrow> 'v \<Rightarrow> 'o \<times> 'v"

record ('t, 'v, 'o) Service =
  sc_name :: string
  sc_rcvr :: nat
  sc_methods :: "string \<rightharpoonup> ('t, 'v, 'o) Method"

record ('t, 'v, 'o) Server =
  sv_services :: "string \<rightharpoonup> ('t, 'v, 'o) Service"
  sv_count :: int

definition MakeServer :: "('t, 'v, 'o) Server" where
  "MakeServer = \<lparr>sv_services = Map.empty, sv_count = 0\<rparr>"

definition AddService :: "('t, 'v, 'o) Service \<Rightarrow> ('t, 'v, 'o) Server \<Rightarrow> ('t, 'v, 'o) Server" where
  "AddService svc rs = rs\<lparr>sv_services := (sv_services rs)(sc_name svc \<mapsto> svc)\<rparr>"

definition Server_GetCount :: "('t, 'v, 'o) Server \<Rightarrow> int" where
  "Server_GetCount rs = sv_count rs"

text \<open>The receiver's type gives the name of the service and the list of its methods.\<close>

fun add_methods ::
  "('t, 'v, 'o) Method list \<Rightarrow> (string \<rightharpoonup> ('t, 'v, 'o) Method) \<Rightarrow> (string \<rightharpoonup> ('t, 'v, 'o) Method)" where
  "add_methods [] ms = ms"
| "add_methods (m # rest) ms =
     (if m_PkgPath m \<noteq> [] \<or> m_NumIn m \<noteq> 3 \<or> \<not> m_In_ptr m 2 \<or> m_NumOut m \<noteq> 0
      then add_methods rest ms
      else add_methods rest (ms(m_Name m \<mapsto> m)))"

definition MakeService ::
  "string \<Rightarrow> nat \<Rightarrow> ('t, 'v, 'o) Method list \<Rightarrow> ('t, 'v, 'o) Service" where
  "MakeService tname rcvr typ = \<lparr>sc_name = tname, sc_rcvr = rcvr, sc_methods = add_methods typ Map.empty\<rparr>"

text \<open>The last position of a character, \<open>strings.LastIndex\<close>.\<close>

fun LastIndex :: "string \<Rightarrow> char \<Rightarrow> int" where
  "LastIndex [] c = - 1"
| "LastIndex (a # s) c =
     (if LastIndex s c \<ge> 0 then LastIndex s c + 1 else if a = c then 0 else - 1)"

definition Service_dispatch ::
  "('t, 'v, 'b) gob \<Rightarrow> string \<Rightarrow> ('e, 't, 'b) reqMsg \<Rightarrow> ('t, 'v, 'o) Service \<Rightarrow> 'o list
     \<Rightarrow> ('o list \<times> 'b replyMsg) option" where
  "Service_dispatch g methname req svc objs =
     do {
       method \<leftarrow> sc_methods svc methname;
       let args = fst (gDecode g (rq_args req) (gZero g (rq_argsType req)));
       rcvr \<leftarrow> idx objs (int (sc_rcvr svc));
       let (rcvr', replyv) = m_Func method rcvr args (gZero g (m_ReplyType method));
       Some (objs[sc_rcvr svc := rcvr'], \<lparr>rp_ok = True, rp_reply = gEncode g replyv\<rparr>)
     }"

definition Server_dispatch ::
  "('t, 'v, 'b) gob \<Rightarrow> ('e, 't, 'b) reqMsg \<Rightarrow> ('t, 'v, 'o) Server \<Rightarrow> 'o list
     \<Rightarrow> (('t, 'v, 'o) Server \<times> 'o list \<times> 'b replyMsg) option" where
  "Server_dispatch g req rs objs =
     do {
       let rs' = rs\<lparr>sv_count := sv_count rs + 1\<rparr>;
       let dot = LastIndex (rq_svcMeth req) CHR ''.'';
       serviceName \<leftarrow> Go_Prelude.slice (rq_svcMeth req) 0 dot;
       methodName \<leftarrow> slice_from (rq_svcMeth req) (dot + 1);
       service \<leftarrow> sv_services rs' serviceName;
       (objs', r) \<leftarrow> Service_dispatch g methodName req service objs;
       Some (rs', objs', r)
     }"

section \<open>One request\<close>

text \<open>
  Where \<open>ProcessReq\<close> is: not begun, in the waiting loop, past it (with the reply, if one came), waiting
  for the timer that sends the reply, done. The server name, the server and the two switches are those
  read at the beginning. The handler's goroutine has not been started, is running, or has returned.
\<close>

datatype ('s, 'b) phase =
    PBegin
  | PWait 's nat bool bool
  | PEnd 's nat bool bool "'b replyMsg option"
  | PTimer "'b replyMsg"
  | PSent "'b replyMsg"

datatype 'b handler = HNone | HRunning nat | HDone "'b replyMsg"

record ('e, 't, 's, 'b) proc =
  p_req :: "('e, 't, 'b) reqMsg"
  p_phase :: "('s, 'b) phase"
  p_handler :: "'b handler"

abbreviation no_reply :: "'b replyMsg" where
  "no_reply \<equiv> \<lparr>rp_ok = False, rp_reply = []\<rparr>"

definition process_begin ::
  "nat \<Rightarrow> ('e, 's) Network \<Rightarrow> ('e, 't, 's, 'b) proc \<Rightarrow> ('e, 't, 's, 'b) proc" where
  "process_begin r rn p =
     (let (enabled, servername, server, reliable, longreordering) = ReadEndnameInfo (rq_endname (p_req p)) rn
      in case (enabled, servername, server) of
           (True, Some sn, Some s) \<Rightarrow>
             (if \<not> reliable \<and> r mod 1000 < 100 then p\<lparr>p_phase := PSent no_reply\<rparr>
              else p\<lparr>p_phase := PWait sn s reliable longreordering, p_handler := HRunning s\<rparr>)
         | _ \<Rightarrow> p\<lparr>p_phase := PTimer no_reply\<rparr>)"

text \<open>The two cases of the \<open>select\<close> in the waiting loop.\<close>

fun wait_reply :: "('e, 't, 's, 'b) proc \<Rightarrow> ('e, 't, 's, 'b) proc option" where
  "wait_reply p =
     (case (p_phase p, p_handler p) of
        (PWait sn s rel lr, HDone r) \<Rightarrow> Some (p\<lparr>p_phase := PEnd sn s rel lr (Some r)\<rparr>)
      | _ \<Rightarrow> None)"

fun wait_tick :: "('e, 's) Network \<Rightarrow> ('e, 't, 's, 'b) proc \<Rightarrow> ('e, 't, 's, 'b) proc option" where
  "wait_tick rn p =
     (case p_phase p of
        PWait sn s rel lr \<Rightarrow>
          Some (if IsServerDead (rq_endname (p_req p)) sn s rn then p\<lparr>p_phase := PEnd sn s rel lr None\<rparr> else p)
      | _ \<Rightarrow> None)"

fun process_end ::
  "nat \<Rightarrow> nat \<Rightarrow> ('e, 's) Network \<Rightarrow> ('e, 't, 's, 'b) proc \<Rightarrow> ('e, 't, 's, 'b) proc option" where
  "process_end r1 r2 rn p =
     (case p_phase p of
        PEnd sn s rel lr reply \<Rightarrow>
          (let serverDead = IsServerDead (rq_endname (p_req p)) sn s rn
           in Some (case reply of
                None \<Rightarrow> p\<lparr>p_phase := PSent no_reply\<rparr>
              | Some rep \<Rightarrow>
                  if serverDead then p\<lparr>p_phase := PSent no_reply\<rparr>
                  else if \<not> rel \<and> r1 mod 1000 < 100 then p\<lparr>p_phase := PSent no_reply\<rparr>
                  else if lr \<and> r2 mod 900 < 600 then p\<lparr>p_phase := PTimer rep\<rparr>
                  else p\<lparr>p_phase := PSent rep\<rparr>))
      | _ \<Rightarrow> None)"

fun timer_fires :: "('e, 't, 's, 'b) proc \<Rightarrow> ('e, 't, 's, 'b) proc option" where
  "timer_fires p = (case p_phase p of PTimer r \<Rightarrow> Some (p\<lparr>p_phase := PSent r\<rparr>) | _ \<Rightarrow> None)"

section \<open>Calls\<close>

text \<open>\<open>Call\<close> up to the \<open>select\<close>, and from the reply on; the reply variable of the caller is \<open>v\<close>.\<close>

definition Call_request ::
  "('t, 'v, 'b) gob \<Rightarrow> 'e ClientEnd \<Rightarrow> string \<Rightarrow> 'v \<Rightarrow> ('e, 't, 'b) reqMsg" where
  "Call_request g e svcMeth args =
     \<lparr>rq_endname = ce_endname e, rq_svcMeth = svcMeth, rq_argsType = gTypeOf g args, rq_args = gEncode g args\<rparr>"

definition Call_return :: "('t, 'v, 'b) gob \<Rightarrow> 'b replyMsg \<Rightarrow> 'v \<Rightarrow> (bool \<times> 'v) option" where
  "Call_return g rep v =
     (if rp_ok rep
      then let (v', ok) = gDecode g (rp_reply rep) v in if ok then Some (True, v') else None
      else Some (False, v))"

section \<open>The network as a state machine\<close>

record ('e, 't, 's, 'v, 'b, 'o) world =
  w_net :: "('e, 's) Network"
  w_servers :: "('t, 'v, 'o) Server list"
  w_objs :: "'o list"
  w_procs :: "('e, 't, 's, 'b) proc list"

datatype ('e, 't, 's, 'v, 'o) admin =
    AReliable bool
  | ALongReordering bool
  | ALongDelays bool
  | AMakeEnd 'e
  | AAddServer 's nat
  | ADeleteServer 's
  | AConnect 'e 's
  | AEnable 'e bool
  | ACleanup
  | AMakeServer
  | AAddService nat "('t, 'v, 'o) Service"

fun admin_op ::
  "('e, 't, 's, 'v, 'o) admin \<Rightarrow> ('e, 't, 's, 'v, 'b, 'o) world \<Rightarrow> ('e, 't, 's, 'v, 'b, 'o) world option" where
  "admin_op (AReliable yes) w = Some (w\<lparr>w_net := Reliable yes (w_net w)\<rparr>)"
| "admin_op (ALongReordering yes) w = Some (w\<lparr>w_net := LongReordering yes (w_net w)\<rparr>)"
| "admin_op (ALongDelays yes) w = Some (w\<lparr>w_net := LongDelays yes (w_net w)\<rparr>)"
| "admin_op (AMakeEnd e) w = do { (rn, c) \<leftarrow> MakeEnd e (w_net w); Some (w\<lparr>w_net := rn\<rparr>) }"
| "admin_op (AAddServer sn s) w = Some (w\<lparr>w_net := AddServer sn s (w_net w)\<rparr>)"
| "admin_op (ADeleteServer sn) w = Some (w\<lparr>w_net := DeleteServer sn (w_net w)\<rparr>)"
| "admin_op (AConnect e sn) w = Some (w\<lparr>w_net := Connect e sn (w_net w)\<rparr>)"
| "admin_op (AEnable e b) w = Some (w\<lparr>w_net := Enable e b (w_net w)\<rparr>)"
| "admin_op ACleanup w = do { rn \<leftarrow> Cleanup (w_net w); Some (w\<lparr>w_net := rn\<rparr>) }"
| "admin_op AMakeServer w = Some (w\<lparr>w_servers := w_servers w @ [MakeServer]\<rparr>)"
| "admin_op (AAddService s svc) w =
     do { rs \<leftarrow> idx (w_servers w) (int s); Some (w\<lparr>w_servers := (w_servers w)[s := AddService svc rs]\<rparr>) }"

text \<open>\<open>svr.GetCount()\<close> locks the mutex of the server, so it panics when the server is \<open>nil\<close>.\<close>

definition GetCount :: "'s \<Rightarrow> ('e, 't, 's, 'v, 'b, 'o) world \<Rightarrow> int option" where
  "GetCount servername w =
     do { s \<leftarrow> nw_servers (w_net w) servername; rs \<leftarrow> idx (w_servers w) (int s); Some (Server_GetCount rs) }"

datatype ('e, 't, 's, 'v, 'b, 'o) event =
    Submit "('e, 't, 'b) reqMsg"
  | Begin nat nat
  | Exec nat
  | Recv nat
  | Tick nat
  | Finish nat nat nat
  | Fire nat
  | Admin "('e, 't, 's, 'v, 'o) admin"

definition on_proc ::
  "nat \<Rightarrow> (('e, 't, 's, 'b) proc \<Rightarrow> ('e, 't, 's, 'b) proc option) \<Rightarrow> ('e, 't, 's, 'v, 'b, 'o) world
     \<Rightarrow> ('e, 't, 's, 'v, 'b, 'o) world option" where
  "on_proc k f w = do { p \<leftarrow> idx (w_procs w) (int k); p' \<leftarrow> f p; Some (w\<lparr>w_procs := (w_procs w)[k := p']\<rparr>) }"

text \<open>
  The goroutine of \<open>MakeNetwork\<close> takes a request unless the network is cleaned up, and starts
  \<open>ProcessReq\<close>. The handler's goroutine runs on the server it was started for, dead or not.
\<close>

fun net_exec ::
  "('t, 'v, 'b) gob \<Rightarrow> ('e, 't, 's, 'v, 'b, 'o) event \<Rightarrow> ('e, 't, 's, 'v, 'b, 'o) world
     \<Rightarrow> ('e, 't, 's, 'v, 'b, 'o) world option" where
  "net_exec g (Submit req) w =
     (if nw_done (w_net w) then None
      else Some (w\<lparr>w_net := (w_net w)\<lparr>nw_count := nw_count (w_net w) + 1\<rparr>,
                   w_procs := w_procs w @ [\<lparr>p_req = req, p_phase = PBegin, p_handler = HNone\<rparr>]\<rparr>))"
| "net_exec g (Begin k r) w =
     on_proc k (\<lambda>p. if p_phase p = PBegin then Some (process_begin r (w_net w) p) else None) w"
| "net_exec g (Exec k) w =
     do {
       p \<leftarrow> idx (w_procs w) (int k);
       case p_handler p of
         HRunning s \<Rightarrow> do {
           rs \<leftarrow> idx (w_servers w) (int s);
           (rs', objs', r) \<leftarrow> Server_dispatch g (p_req p) rs (w_objs w);
           Some (w\<lparr>w_servers := (w_servers w)[s := rs'], w_objs := objs',
                   w_procs := (w_procs w)[k := p\<lparr>p_handler := HDone r\<rparr>]\<rparr>) }
       | _ \<Rightarrow> None
     }"
| "net_exec g (Recv k) w = on_proc k wait_reply w"
| "net_exec g (Tick k) w = on_proc k (wait_tick (w_net w)) w"
| "net_exec g (Finish k r1 r2) w = on_proc k (process_end r1 r2 (w_net w)) w"
| "net_exec g (Fire k) w = on_proc k timer_fires w"
| "net_exec g (Admin a) w = admin_op a w"

definition start_world :: "'o list \<Rightarrow> ('e, 't, 's, 'v, 'b, 'o) world" where
  "start_world objs = \<lparr>w_net = MakeNetwork, w_servers = [], w_objs = objs, w_procs = []\<rparr>"

section \<open>What a handler has to do with a reply\<close>

text \<open>
  The handler of request \<open>k\<close> ran in this execution: at some point its request was dispatched on a
  server and gave the reply \<open>r\<close>.
\<close>

definition executed ::
  "('t, 'v, 'b) gob \<Rightarrow> ('e, 't, 's, 'v, 'b, 'o) world \<Rightarrow> ('e, 't, 's, 'v, 'b, 'o) event list \<Rightarrow> nat
     \<Rightarrow> ('e, 't, 'b) reqMsg \<Rightarrow> 'b replyMsg \<Rightarrow> bool" where
  "executed g w0 evs k req r \<longleftrightarrow>
     (\<exists>before after w rs rs' objs'. evs = before @ Exec k # after \<and> run_all (net_exec g) before w0 = Some w
        \<and> rs \<in> set (w_servers w) \<and> Server_dispatch g req rs (w_objs w) = Some (rs', objs', r))"

definition phase_ok :: "('e, 't, 's, 'b) proc \<Rightarrow> bool" where
  "phase_ok p \<longleftrightarrow>
     (case p_phase p of
        PBegin \<Rightarrow> p_handler p = HNone
      | PWait sn s rel lr \<Rightarrow> True
      | PEnd sn s rel lr reply \<Rightarrow> (\<forall>r. reply = Some r \<longrightarrow> p_handler p = HDone r)
      | PTimer r \<Rightarrow> rp_ok r \<longrightarrow> p_handler p = HDone r
      | PSent r \<Rightarrow> rp_ok r \<longrightarrow> p_handler p = HDone r)"

definition executions :: "'b handler \<Rightarrow> nat" where
  "executions h = (case h of HDone r \<Rightarrow> 1 | _ \<Rightarrow> 0)"

definition history_ok ::
  "('t, 'v, 'b) gob \<Rightarrow> ('e, 't, 's, 'v, 'b, 'o) world \<Rightarrow> ('e, 't, 's, 'v, 'b, 'o) event list
     \<Rightarrow> ('e, 't, 's, 'v, 'b, 'o) world \<Rightarrow> bool" where
  "history_ok g w0 evs w \<longleftrightarrow>
     (\<forall>k p. idx (w_procs w) (int k) = Some p \<longrightarrow>
        phase_ok p \<and> count_list evs (Exec k) = executions (p_handler p)
        \<and> (\<forall>r. p_handler p = HDone r \<longrightarrow> executed g w0 evs k (p_req p) r))
     \<and> (\<forall>k. length (w_procs w) \<le> k \<longrightarrow> count_list evs (Exec k) = 0)"

lemma executed_mono: "executed g w0 evs k req r \<Longrightarrow> executed g w0 (evs @ [e]) k req r"
  unfolding executed_def by (metis append_Cons append_assoc)

lemma on_procE:
  assumes "on_proc k f w = Some w'"
  obtains p p' where "idx (w_procs w) (int k) = Some p" "f p = Some p'" "w' = w\<lparr>w_procs := (w_procs w)[k := p']\<rparr>"
  using assms by (auto simp: on_proc_def Option.bind_eq_Some_conv)

lemma net_exec_ExecE:
  assumes "net_exec g (Exec k) w = Some w'"
  obtains p s rs rs' objs' r where "idx (w_procs w) (int k) = Some p" "p_handler p = HRunning s"
    "idx (w_servers w) (int s) = Some rs" "Server_dispatch g (p_req p) rs (w_objs w) = Some (rs', objs', r)"
    "w' = w\<lparr>w_servers := (w_servers w)[s := rs'], w_objs := objs', w_procs := (w_procs w)[k := p\<lparr>p_handler := HDone r\<rparr>]\<rparr>"
proof -
  from assms obtain p where p: "idx (w_procs w) (int k) = Some p" by (auto simp: Option.bind_eq_Some_conv)
  with assms show ?thesis by (cases "p_handler p") (auto simp: Option.bind_eq_Some_conv intro!: that)
qed

lemma idx_update: "idx (xs[k := x]) (int j) = (if j = k \<and> k < length xs then Some x else idx xs (int j))"
  by (auto simp: idx_def)

lemma idx_append:
  "idx (xs @ [x]) (int k) = (if k < length xs then idx xs (int k) else if k = length xs then Some x else None)"
  by (simp add: idx_def nth_append)

lemma count_list_snoc [simp]: "count_list (xs @ [x]) y = count_list xs y + (if x = y then 1 else 0)"
  by (induction xs) auto

lemma count_list_end [simp]: "(\<forall>k. e \<noteq> Exec k) \<Longrightarrow> count_list (evs @ [e]) (Exec k) = count_list evs (Exec k)"
  by simp

lemma history_ok_proc:
  assumes ok: "history_ok g w0 evs w" and "on_proc k f w = Some w'" and e: "\<forall>j. e \<noteq> Exec j"
    and keeps: "\<And>p p'. f p = Some p' \<Longrightarrow> phase_ok p \<Longrightarrow>
      phase_ok p' \<and> p_req p' = p_req p \<and> (p_handler p' = p_handler p \<or> p_handler p = HNone \<and> (\<exists>s. p_handler p' = HRunning s))"
  shows "history_ok g w0 (evs @ [e]) w'"
proof -
  obtain p p' where p: "idx (w_procs w) (int k) = Some p" "f p = Some p'" "w' = w\<lparr>w_procs := (w_procs w)[k := p']\<rparr>"
    using assms(2) by (rule on_procE)
  have old: "phase_ok q \<and> count_list evs (Exec j) = executions (p_handler q)
      \<and> (\<forall>r. p_handler q = HDone r \<longrightarrow> executed g w0 evs j (p_req q) r)" if "idx (w_procs w) (int j) = Some q" for j q
    using ok that by (simp add: history_ok_def)
  from keeps [OF p(2)] old [OF p(1)] have "phase_ok p' \<and> executions (p_handler p') = executions (p_handler p)
      \<and> (\<forall>r. p_handler p' = HDone r \<longrightarrow> executed g w0 evs k (p_req p') r)"
    by (auto simp: executions_def)
  with old p ok e show ?thesis
    unfolding history_ok_def by (auto simp: idx_update executed_mono split: if_splits)
qed

lemma history_ok_same_procs:
  assumes "history_ok g w0 evs w" and "w_procs w' = w_procs w" and "\<forall>j. e \<noteq> Exec j"
  shows "history_ok g w0 (evs @ [e]) w'"
  using assms by (auto simp: history_ok_def executed_mono)

lemma admin_op_procs: "admin_op a w = Some w' \<Longrightarrow> w_procs w' = w_procs w"
  by (cases a) (auto simp: Option.bind_eq_Some_conv)

lemmas request_steps = phase_ok_def Let_def process_begin_def ReadEndnameInfo_def

lemma history_ok_exec:
  assumes ok: "history_ok g w0 evs w" and "net_exec g (Exec k) w = Some w'" and run: "run_all (net_exec g) evs w0 = Some w"
  shows "history_ok g w0 (evs @ [Exec k]) w'"
proof -
  obtain p s rs rs' objs' r where p: "idx (w_procs w) (int k) = Some p" "p_handler p = HRunning s"
    "idx (w_servers w) (int s) = Some rs" "Server_dispatch g (p_req p) rs (w_objs w) = Some (rs', objs', r)"
    and w': "w_procs w' = (w_procs w)[k := p\<lparr>p_handler := HDone r\<rparr>]"
    using assms(2) by (rule net_exec_ExecE) simp
  have "executed g w0 (evs @ [Exec k]) k (p_req p) r"
    using run p(3,4) idx_mem unfolding executed_def by fastforce
  moreover have "phase_ok (p\<lparr>p_handler := HDone r\<rparr>)" "count_list evs (Exec k) = 0"
    using ok p(1,2) by (auto simp: history_ok_def phase_ok_def executions_def split: phase.splits)
  ultimately show ?thesis
    using ok p(1) w' unfolding history_ok_def
    by (auto simp: idx_update executed_mono executions_def go_simps split: if_splits)
qed

lemma history_ok_step:
  assumes ok: "history_ok g w0 evs w" and step: "net_exec g e w = Some w'" and run: "run_all (net_exec g) evs w0 = Some w"
  shows "history_ok g w0 (evs @ [e]) w'"
proof (cases e)
  case (Submit req)
  with step obtain new where "w_procs w' = w_procs w @ [new]" "phase_ok new" "p_handler new = HNone"
    by (auto simp: phase_ok_def split: if_splits)
  with ok Submit show ?thesis
    by (auto simp: history_ok_def executions_def idx_append executed_mono simp del: idx_int split: if_splits)
next
  case (Begin k r)
  with step have "on_proc k (\<lambda>p. if p_phase p = PBegin then Some (process_begin r (w_net w) p) else None) w = Some w'" by simp
  from ok this show ?thesis
    by (rule history_ok_proc) (auto simp: Begin request_steps split: if_splits option.splits bool.splits)
next
  case (Exec k)
  with assms history_ok_exec show ?thesis by blast
next
  case (Recv k)
  with step have "on_proc k wait_reply w = Some w'" by simp
  from ok this show ?thesis
    by (rule history_ok_proc) (auto simp: Recv request_steps split: phase.splits handler.splits)
next
  case (Tick k)
  with step have "on_proc k (wait_tick (w_net w)) w = Some w'" by simp
  from ok this show ?thesis
    by (rule history_ok_proc) (auto simp: Tick request_steps split: phase.splits if_splits)
next
  case (Finish k r1 r2)
  with step have "on_proc k (process_end r1 r2 (w_net w)) w = Some w'" by simp
  from ok this show ?thesis
    by (rule history_ok_proc) (auto simp: Finish request_steps split: phase.splits option.splits if_splits)
next
  case (Fire k)
  with step have "on_proc k timer_fires w = Some w'" by simp
  from ok this show ?thesis
    by (rule history_ok_proc) (auto simp: Fire request_steps split: phase.splits)
next
  case (Admin a)
  with step admin_op_procs show ?thesis by (intro history_ok_same_procs [OF ok]) auto
qed

lemma run_all_snoc: "run_all exec (es @ [e]) s = Some u \<longleftrightarrow> (\<exists>t. run_all exec es s = Some t \<and> exec e t = Some u)"
  by (auto simp: run_all_append Option.bind_eq_Some_conv)

lemma history_ok_run: "run_all (net_exec g) evs (start_world objs) = Some w \<Longrightarrow> history_ok g (start_world objs) evs w"
proof (induction evs arbitrary: w rule: rev_induct)
  case Nil
  then show ?case by (auto simp: history_ok_def start_world_def)
next
  case (snoc e evs)
  then show ?case using history_ok_step unfolding run_all_snoc by blast
qed

section \<open>Killed servers\<close>

text \<open>A request that waits for a server that is no longer registered can only fail.\<close>

definition doomed :: "'s \<Rightarrow> nat \<Rightarrow> ('s, 'b) phase \<Rightarrow> bool" where
  "doomed sn s ph \<longleftrightarrow>
     (case ph of
        PWait sn' s' rel lr \<Rightarrow> sn' = sn \<and> s' = s
      | PEnd sn' s' rel lr reply \<Rightarrow> sn' = sn \<and> s' = s
      | PSent r \<Rightarrow> \<not> rp_ok r
      | _ \<Rightarrow> False)"

definition doomed_in :: "'s \<Rightarrow> nat \<Rightarrow> nat \<Rightarrow> ('e, 't, 's, 'v, 'b, 'o) world \<Rightarrow> bool" where
  "doomed_in sn s k w \<longleftrightarrow> nw_servers (w_net w) sn \<noteq> Some s
     \<and> (\<exists>p. idx (w_procs w) (int k) = Some p \<and> doomed sn s (p_phase p))"

lemma doomed_on_proc:
  assumes "doomed_in sn s k w" and "on_proc j f w = Some w'"
    and "\<And>p p'. f p = Some p' \<Longrightarrow> doomed sn s (p_phase p) \<Longrightarrow> doomed sn s (p_phase p')"
  shows "doomed_in sn s k w'"
proof -
  obtain p p' where p: "idx (w_procs w) (int j) = Some p" "f p = Some p'" "w' = w\<lparr>w_procs := (w_procs w)[j := p']\<rparr>"
    using assms(2) by (rule on_procE)
  from assms(1) obtain q where "idx (w_procs w) (int k) = Some q" "doomed sn s (p_phase q)" by (auto simp: doomed_in_def)
  with p assms(3) have "\<exists>q'. idx (w_procs w') (int k) = Some q' \<and> doomed sn s (p_phase q')"
    by (cases "k = j") (auto simp: idx_update go_simps)
  with assms(1) p(3) show ?thesis by (simp add: doomed_in_def)
qed

lemma admin_op_servers:
  assumes "admin_op a w = Some w'" and "a \<noteq> AAddServer sn s" and "nw_servers (w_net w) sn \<noteq> Some s"
  shows "nw_servers (w_net w') sn \<noteq> Some s"
  using assms by (cases a) (auto simp: Option.bind_eq_Some_conv Reliable_def LongReordering_def LongDelays_def
      MakeEnd_def AddServer_def DeleteServer_def Connect_def Enable_def Cleanup_def Let_def split: if_splits)

lemma doomed_step:
  assumes d: "doomed_in sn s k w" and step: "net_exec g e w = Some w'" and no: "e \<noteq> Admin (AAddServer sn s)"
  shows "doomed_in sn s k w'"
proof (cases e)
  case (Submit req)
  with step have "nw_servers (w_net w') = nw_servers (w_net w)" "\<exists>p. w_procs w' = w_procs w @ [p]"
    by (auto split: if_splits)
  moreover obtain p where "idx (w_procs w) (int k) = Some p" "doomed sn s (p_phase p)" using d by (auto simp: doomed_in_def)
  moreover from this(1) have "k < length (w_procs w)" by (simp add: go_simps)
  ultimately show ?thesis using d by (auto simp: doomed_in_def idx_append simp del: idx_int)
next
  case (Begin j r)
  with step have "on_proc j (\<lambda>p. if p_phase p = PBegin then Some (process_begin r (w_net w) p) else None) w = Some w'" by simp
  from d this show ?thesis by (rule doomed_on_proc) (auto simp: doomed_def split: if_splits)
next
  case (Exec j)
  with step have "net_exec g (Exec j) w = Some w'" by simp
  then show ?thesis by (rule net_exec_ExecE) (use d in \<open>auto simp: doomed_in_def idx_update split: if_splits\<close>)
next
  case (Recv j)
  with step have "on_proc j wait_reply w = Some w'" by simp
  from d this show ?thesis
    by (rule doomed_on_proc) (auto simp: doomed_def split: phase.splits handler.splits)
next
  case (Tick j)
  with step have "on_proc j (wait_tick (w_net w)) w = Some w'" by simp
  from d this show ?thesis
    by (rule doomed_on_proc) (auto simp: doomed_def split: phase.splits if_splits)
next
  case (Finish j r1 r2)
  with step have "on_proc j (process_end r1 r2 (w_net w)) w = Some w'" by simp
  moreover have "nw_servers (w_net w) sn \<noteq> Some s" using d by (simp add: doomed_in_def)
  ultimately show ?thesis
    by (intro doomed_on_proc [OF d]) (auto simp: doomed_def IsServerDead_def split: phase.splits option.splits if_splits)
next
  case (Fire j)
  with step have "on_proc j timer_fires w = Some w'" by simp
  from d this show ?thesis by (rule doomed_on_proc) (auto simp: doomed_def split: phase.splits)
next
  case (Admin a)
  with step no d admin_op_procs [of a w w'] admin_op_servers [of a w w' sn s] show ?thesis
    by (auto simp: doomed_in_def)
qed

lemma doomed_run:
  "run_all (net_exec g) evs w = Some w' \<Longrightarrow> doomed_in sn s k w \<Longrightarrow> Admin (AAddServer sn s) \<notin> set evs \<Longrightarrow> doomed_in sn s k w'"
proof (induction evs arbitrary: w)
  case (Cons e evs)
  then obtain w1 where w1: "net_exec g e w = Some w1" "run_all (net_exec g) evs w1 = Some w'"
    by (auto simp: Option.bind_eq_Some_conv)
  with doomed_step [OF Cons.prems(2) w1(1)] Cons.prems(3) Cons.IH show ?case by auto
qed simp

section \<open>Routing and counting\<close>

lemma LastIndex_none: "c \<notin> set s \<Longrightarrow> LastIndex s c = - 1"
  by (induction s) auto

lemma LastIndex_split: "c \<notin> set t \<Longrightarrow> LastIndex (s @ c # t) c = int (length s)"
  by (induction s) (auto simp: LastIndex_none)

lemma Server_dispatch_routes:
  assumes "rq_svcMeth req = svc @ CHR ''.'' # meth" and "CHR ''.'' \<notin> set meth"
    and "sv_services rs svc = Some service"
  shows "Server_dispatch g req rs objs
    = do { (objs', r) \<leftarrow> Service_dispatch g meth req service objs; Some (rs\<lparr>sv_count := sv_count rs + 1\<rparr>, objs', r) }"
  using assms LastIndex_split [OF assms(2), of svc]
  by (simp add: Server_dispatch_def nat_add_distrib)

definition submits :: "('e, 't, 's, 'v, 'b, 'o) event list \<Rightarrow> nat" where
  "submits evs = length (filter (\<lambda>e. case e of Submit req \<Rightarrow> True | _ \<Rightarrow> False) evs)"

lemma admin_op_count: "admin_op a w = Some w' \<Longrightarrow> nw_count (w_net w') = nw_count (w_net w)"
  by (cases a) (auto simp: Option.bind_eq_Some_conv Reliable_def LongReordering_def LongDelays_def
      MakeEnd_def AddServer_def DeleteServer_def Connect_def Enable_def Cleanup_def Let_def split: if_splits)

lemma net_exec_count:
  "net_exec g e w = Some w' \<Longrightarrow> nw_count (w_net w') = nw_count (w_net w) + of_nat (submits [e])"
proof (cases e)
  case (Exec k)
  assume "net_exec g e w = Some w'"
  with Exec have "net_exec g (Exec k) w = Some w'" by simp
  then show ?thesis by (rule net_exec_ExecE) (simp add: Exec submits_def)
qed (auto simp: submits_def admin_op_count elim!: on_procE split: if_splits)

lemma run_count:
  "run_all (net_exec g) evs w = Some w' \<Longrightarrow> nw_count (w_net w') = nw_count (w_net w) + of_nat (submits evs)"
proof (induction evs arbitrary: w)
  case (Cons e evs)
  have "submits (e # evs) = submits [e] + submits evs" by (simp add: submits_def)
  with Cons show ?case by (auto simp: Option.bind_eq_Some_conv add.assoc dest!: net_exec_count)
qed (simp add: submits_def)

section \<open>An example network\<close>

text \<open>A server with one service, whose method adds the argument to a counter and returns it.\<close>

definition ex_gob :: "(unit, int, int) gob" where
  "ex_gob = \<lparr>gEncode = (\<lambda>v. [v]), gDecode = (\<lambda>bs v. case bs of [x] \<Rightarrow> (x, True) | _ \<Rightarrow> (v, False)),
     gZero = (\<lambda>t. 0), gTypeOf = (\<lambda>v. ())\<rparr>"

definition ex_add :: "(unit, int, int) Method" where
  "ex_add = \<lparr>m_Name = ''Add'', m_PkgPath = [], m_NumIn = 3, m_In_ptr = (\<lambda>i. True), m_ReplyType = (), m_NumOut = 0,
     m_Func = (\<lambda>c a r. (c + a, c + a))\<rparr>"

definition ex_setup :: "(nat, unit, nat, int, int, int) event list" where
  "ex_setup = map Admin [AMakeEnd 2, AMakeServer, AAddService 0 (MakeService ''Counter'' 0 [ex_add]),
     AAddServer 7 0, AConnect 2 7, AEnable 2 True]"

definition ex_request :: "(nat, unit, int) reqMsg" where
  "ex_request = Call_request ex_gob \<lparr>ce_endname = 2\<rparr> ''Counter.Add'' 3"

definition ex_world :: "(nat, unit, nat, int, int, int) world" where
  "ex_world = \<lparr>w_net = MakeNetwork\<lparr>nw_ends := [2 \<mapsto> \<lparr>ce_endname = 2\<rparr>], nw_enabled := [2 \<mapsto> True],
       nw_servers := [7 \<mapsto> 0], nw_connections := [2 \<mapsto> 7]\<rparr>,
     w_servers = [AddService (MakeService ''Counter'' 0 [ex_add]) MakeServer], w_objs = [5], w_procs = []\<rparr>"

lemma ex_setup_run: "run_all (net_exec ex_gob) ex_setup (start_world [5]) = Some ex_world"
  by (simp add: ex_setup_def ex_world_def start_world_def MakeEnd_def MakeNetwork_def AddServer_def Connect_def
      Enable_def Let_def idx_def)

lemma ex_request_end: "rq_endname ex_request = 2"
  by (simp add: ex_request_def Call_request_def)

lemma ex_dispatch:
  "Server_dispatch ex_gob ex_request (AddService (MakeService ''Counter'' 0 [ex_add]) MakeServer) [5]
    = Some ((AddService (MakeService ''Counter'' 0 [ex_add]) MakeServer)\<lparr>sv_count := 1\<rparr>, [8], \<lparr>rp_ok = True, rp_reply = [8]\<rparr>)"
  by (simp add: Server_dispatch_def Service_dispatch_def ex_request_def Call_request_def AddService_def MakeService_def
      MakeServer_def ex_add_def ex_gob_def Go_Prelude.slice_def)

definition ex_call :: "(nat, unit, nat, int, int, int) event list" where
  "ex_call = [Submit ex_request, Begin 0 50, Exec 0, Recv 0, Finish 0 7 8]"

lemma ex_call_run:
  "\<exists>w p. run_all (net_exec ex_gob) ex_call ex_world = Some w \<and> idx (w_procs w) (int 0) = Some p
    \<and> p_phase p = PSent \<lparr>rp_ok = True, rp_reply = [8]\<rparr>"
  by (simp add: ex_call_def ex_world_def on_proc_def process_begin_def ReadEndnameInfo_def IsServerDead_def
      is_enabled_def MakeNetwork_def ex_dispatch ex_request_end)

section \<open>Properties\<close>

text \<open>
  C7. In every execution of the network, whatever is lost, delayed, reordered, disconnected or killed, a
  request is executed at most once, and a caller who gets a positive reply gets the reply of the one
  execution of the handler on the request as it was sent.
\<close>

theorem rpc_at_most_once:
  assumes "run_all (net_exec g) evs (start_world objs) = Some w" and "idx (w_procs w) (int k) = Some p"
  shows "count_list evs (Exec k) \<le> 1
    \<and> (\<forall>r. p_phase p = PSent r \<and> rp_ok r \<longrightarrow>
         count_list evs (Exec k) = 1 \<and> executed g (start_world objs) evs k (p_req p) r)"
proof -
  have "phase_ok p" "count_list evs (Exec k) = executions (p_handler p)"
    "\<forall>r. p_handler p = HDone r \<longrightarrow> executed g (start_world objs) evs k (p_req p) r"
    using history_ok_run [OF assms(1)] assms(2) by (auto simp: history_ok_def)
  then show ?thesis by (auto simp: phase_ok_def executions_def split: handler.splits)
qed

theorem rpc_at_most_once_witness:
  "\<exists>w p. run_all (net_exec ex_gob) (ex_setup @ ex_call) (start_world [5]) = Some w \<and> idx (w_procs w) (int 0) = Some p
    \<and> p_phase p = PSent \<lparr>rp_ok = True, rp_reply = [8]\<rparr>
    \<and> executed ex_gob (start_world [5]) (ex_setup @ ex_call) 0 (p_req p) \<lparr>rp_ok = True, rp_reply = [8]\<rparr>"
proof -
  obtain w p where p: "run_all (net_exec ex_gob) ex_call ex_world = Some w" "idx (w_procs w) (int 0) = Some p"
    "p_phase p = PSent \<lparr>rp_ok = True, rp_reply = [8]\<rparr>" using ex_call_run by blast
  then have run: "run_all (net_exec ex_gob) (ex_setup @ ex_call) (start_world [5]) = Some w"
    by (simp add: run_all_append ex_setup_run)
  from rpc_at_most_once [OF run p(2)] p run show ?thesis by (intro exI [of _ w] exI [of _ p]) simp
qed

text \<open>
  C10. Once a server is deleted, no request that waits for it is ever answered positively, as long as the
  same server is not registered again under that name: not even when the handler returns after the
  deletion, or had returned before it.
\<close>

theorem no_reply_after_DeleteServer:
  assumes "idx (w_procs w) (int k) = Some p"
    and "p_phase p = PWait sn s rel lr \<or> p_phase p = PEnd sn s rel lr reply"
    and "run_all (net_exec g) (Admin (ADeleteServer sn) # evs) w = Some w'"
    and "Admin (AAddServer sn s) \<notin> set evs"
  shows "\<exists>p'. idx (w_procs w') (int k) = Some p' \<and> (\<forall>r. p_phase p' = PSent r \<longrightarrow> \<not> rp_ok r)"
proof -
  let ?w = "w\<lparr>w_net := DeleteServer sn (w_net w)\<rparr>"
  have d: "doomed_in sn s k ?w" using assms(1,2) by (auto simp: doomed_in_def doomed_def DeleteServer_def)
  have "run_all (net_exec g) evs ?w = Some w'" using assms(3) by simp
  from doomed_run [OF this d assms(4)] show ?thesis by (auto simp: doomed_in_def doomed_def)
qed

text \<open>The example's request, begun; then the server is deleted, and its handler returns after that.\<close>

theorem no_reply_after_DeleteServer_witness:
  "\<exists>w w' p. run_all (net_exec ex_gob) [Submit ex_request, Begin 0 50] ex_world = Some w
    \<and> run_all (net_exec ex_gob) [Admin (ADeleteServer 7), Exec 0, Recv 0, Finish 0 7 8] w = Some w'
    \<and> idx (w_procs w') (int 0) = Some p \<and> (\<forall>r. p_phase p = PSent r \<longrightarrow> \<not> rp_ok r)"
proof -
  let ?p = "\<lparr>p_req = ex_request, p_phase = PWait 7 0 True False, p_handler = HRunning 0\<rparr> :: (nat, unit, nat, int) proc"
  let ?w = "ex_world\<lparr>w_net := (w_net ex_world)\<lparr>nw_count := 1\<rparr>, w_procs := [?p]\<rparr>"
  have begun: "run_all (net_exec ex_gob) [Submit ex_request, Begin 0 50] ex_world = Some ?w"
    by (simp add: ex_world_def on_proc_def process_begin_def ReadEndnameInfo_def is_enabled_def MakeNetwork_def ex_request_end)
  have "\<exists>w'. run_all (net_exec ex_gob) [Admin (ADeleteServer 7), Exec 0, Recv 0, Finish 0 7 8] ?w = Some w'"
    by (simp add: ex_world_def on_proc_def IsServerDead_def is_enabled_def MakeNetwork_def DeleteServer_def ex_dispatch
        ex_request_end)
  then obtain w' where w': "run_all (net_exec ex_gob) [Admin (ADeleteServer 7), Exec 0, Recv 0, Finish 0 7 8] ?w = Some w'"
    by blast
  have "idx (w_procs ?w) (int 0) = Some ?p" "p_phase ?p = PWait 7 0 True False \<or> p_phase ?p = PEnd 7 0 True False None"
    by simp_all
  from no_reply_after_DeleteServer [OF this w'] begun w' show ?thesis by auto
qed

text \<open>
  C22. On a reliable network without reordering, a call to an enabled end that is connected to a registered
  server with the service and the method runs the handler on the arguments of the call and returns
  true with the handler's reply, whatever the random numbers are; the hypotheses on \<open>gob\<close> are that
  it decodes what it encoded, into a fresh argument and into the caller's reply variable.
\<close>

theorem reliable_call_roundtrip:
  fixes w :: "('e, 't, 's, 'v, 'b, 'o) world"
  defines "k \<equiv> length (w_procs w)"
  assumes net: "\<not> nw_done (w_net w)" "nw_reliable (w_net w)" "\<not> nw_longReordering (w_net w)"
      "is_enabled (w_net w) (ce_endname e)" "nw_connections (w_net w) (ce_endname e) = Some sn"
      "nw_servers (w_net w) sn = Some s" "idx (w_servers w) (int s) = Some rs"
    and service: "svcMeth = svc @ CHR ''.'' # meth" "CHR ''.'' \<notin> set meth" "sv_services rs svc = Some service"
      "sc_methods service meth = Some m" "idx (w_objs w) (int (sc_rcvr service)) = Some rcvr"
      "m_Func m rcvr args (gZero g (m_ReplyType m)) = (rcvr', replyv)"
    and codec: "gDecode g (gEncode g args) (gZero g (gTypeOf g args)) = (args, True)"
      "gDecode g (gEncode g replyv) v = (replyv, True)"
  shows "\<exists>w' p r.
    run_all (net_exec g) [Submit (Call_request g e svcMeth args), Begin k r0, Exec k, Recv k, Finish k r1 r2] w = Some w'
    \<and> idx (w_procs w') (int k) = Some p \<and> p_phase p = PSent r \<and> Call_return g r v = Some (True, replyv)
    \<and> w_objs w' = (w_objs w)[sc_rcvr service := rcvr']"
proof -
  let ?req = "Call_request g e svcMeth args"
  have "Service_dispatch g meth ?req service (w_objs w)
      = Some ((w_objs w)[sc_rcvr service := rcvr'], \<lparr>rp_ok = True, rp_reply = gEncode g replyv\<rparr>)"
    using service codec(1) by (simp add: Service_dispatch_def Call_request_def)
  then have dispatch: "Server_dispatch g ?req rs (w_objs w) = Some (rs\<lparr>sv_count := sv_count rs + 1\<rparr>,
      (w_objs w)[sc_rcvr service := rcvr'], \<lparr>rp_ok = True, rp_reply = gEncode g replyv\<rparr>)"
    using service by (subst Server_dispatch_routes [of _ svc meth]) (auto simp: Call_request_def)
  have "rq_endname ?req = ce_endname e" by (simp add: Call_request_def)
  with net dispatch codec(2) show ?thesis
    by (simp add: k_def on_proc_def idx_append process_begin_def ReadEndnameInfo_def IsServerDead_def is_enabled_def
        Call_return_def list_update_append)
qed

theorem reliable_call_roundtrip_witness:
  "\<exists>w' p r. run_all (net_exec ex_gob) [Submit (Call_request ex_gob \<lparr>ce_endname = 2\<rparr> ''Counter.Add'' 3), Begin 0 50,
      Exec 0, Recv 0, Finish 0 7 8] ex_world = Some w'
    \<and> idx (w_procs w') (int 0) = Some p \<and> p_phase p = PSent r \<and> Call_return ex_gob r 0 = Some (True, 8)
    \<and> w_objs w' = [8]"
  using reliable_call_roundtrip [of ex_world "\<lparr>ce_endname = 2\<rparr>" 7 0 "AddService (MakeService ''Counter'' 0 [ex_add]) MakeServer"
      "''Counter.Add''" "''Counter''" "''Add''" "MakeService ''Counter'' 0 [ex_add]" ex_add 5 3 ex_gob 8 8 0 50 7 8]
  by (simp add: ex_world_def MakeNetwork_def is_enabled_def AddService_def MakeService_def ex_add_def ex_gob_def)

text \<open>
  C38. \<open>GetTotalCount\<close> is the number of requests the network took, in the 32 bits of its counter, for every
  number of requests: it counts up to \<open>2^31 - 1\<close>, goes on at \<open>-2^31\<close>, and is 0 again after \<open>2^32\<close> requests.
\<close>

theorem GetTotalCount_counts_requests:
  assumes "run_all (net_exec g) evs (start_world objs) = Some w"
  shows "GetTotalCount (w_net w) = (int (submits evs) + 2 ^ 31) mod 2 ^ 32 - 2 ^ 31"
proof -
  have "nw_count (w_net w) = of_nat (submits evs)"
    using run_count [OF assms] by (simp add: start_world_def MakeNetwork_def)
  then have "GetTotalCount (w_net w) = signed_take_bit 31 (int (submits evs))"
    by (simp add: GetTotalCount_def signed_of_nat)
  then show ?thesis by (simp add: signed_take_bit_eq_take_bit_shift take_bit_eq_mod)
qed

theorem GetTotalCount_counts_requests_witness:
  "\<exists>w. run_all (net_exec ex_gob) (ex_setup @ ex_call) (start_world [5]) = Some w \<and> GetTotalCount (w_net w) = 1"
proof -
  obtain w where "run_all (net_exec ex_gob) ex_call ex_world = Some w" using ex_call_run by blast
  then have run: "run_all (net_exec ex_gob) (ex_setup @ ex_call) (start_world [5]) = Some w"
    by (simp add: run_all_append ex_setup_run)
  have "submits (ex_setup @ ex_call) = 1" by (simp add: submits_def ex_setup_def ex_call_def)
  with GetTotalCount_counts_requests [OF run] run show ?thesis by auto
qed

end
