(* ===== verification/Raft_Harness.thy ===== *)
theory Raft_Harness
  imports Raft_Peer Labrpc
begin

text \<open>
  The harness of the Raft tests (\<open>src/src/raft/config.go\<close>): it starts, crashes and restarts peers on the
  simulated network, connects and disconnects them, checks every message that a peer applies, and
  looks for leaders, terms and committed entries.

  \<^item> The network is that of \<open>Labrpc\<close>, with strings as end names and the numbers of the peers as server names.
    \<open>randstring\<close> and the address of a new server are arguments.
  \<^item> \<open>cfg.saved[i]\<close> and the running peer share the persister, so while peer \<open>i\<close> runs, its persister is that of
    \<open>cfg.rafts[i]\<close>.
  \<^item> \<open>t.Fatal\<close>, \<open>log.Fatalf\<close> and panics end the test: \<open>None\<close>.
  \<^item> The commands of the tests are integers; a command of another type is \<open>None\<close>.
  \<^item> A loop that sleeps and looks again gets the states that it sees, by the number of the look, as an argument.
\<close>

section \<open>The configuration\<close>

record 'b config =
  hc_net :: "(string, nat) Network"
  hc_n :: nat
  hc_rafts :: "(int, 'b) Raft option list"
  hc_applyErr :: "string list"
  hc_connected :: "bool list"
  hc_saved :: "'b Persister option list"
  hc_endnames :: "string list option list"
  hc_logs :: "(int \<rightharpoonup> int) list"
  hc_rpcs0 :: int
  hc_maxIndex :: int
  hc_maxIndex0 :: int

definition empty_config :: "nat \<Rightarrow> bool \<Rightarrow> 'b config" where
  "empty_config n unreliable =
     \<lparr>hc_net = LongDelays True (Reliable (\<not> unreliable) MakeNetwork), hc_n = n, hc_rafts = replicate n None,
      hc_applyErr = replicate n [], hc_connected = replicate n False, hc_saved = replicate n None,
      hc_endnames = replicate n None, hc_logs = replicate n Map.empty, hc_rpcs0 = 0, hc_maxIndex = 0, hc_maxIndex0 = 0\<rparr>"

text \<open>\<open>cfg.endnames[i][j]\<close>\<close>

definition endname :: "'b config \<Rightarrow> nat \<Rightarrow> nat \<Rightarrow> string option" where
  "endname cfg i j = do { ns \<leftarrow> idx (hc_endnames cfg) (int i); names \<leftarrow> ns; idx names (int j) }"

section \<open>Connections\<close>

fun enable_loop ::
  "(nat \<Rightarrow> bool) \<Rightarrow> (nat \<Rightarrow> string option) \<Rightarrow> bool \<Rightarrow> nat list \<Rightarrow> (string, nat) Network \<Rightarrow> (string, nat) Network option" where
  "enable_loop wanted name b [] rn = Some rn"
| "enable_loop wanted name b (j # js) rn =
     (if wanted j then do { e \<leftarrow> name j; enable_loop wanted name b js (Enable e b rn) }
      else enable_loop wanted name b js rn)"

definition connect :: "nat \<Rightarrow> 'b config \<Rightarrow> 'b config option" where
  "connect i cfg =
     do {
       c \<leftarrow> set_idx (hc_connected cfg) (int i) True;
       rn1 \<leftarrow> enable_loop (\<lambda>j. c ! j) (\<lambda>j. endname cfg i j) True [0..<hc_n cfg] (hc_net cfg);
       rn2 \<leftarrow> enable_loop (\<lambda>j. c ! j) (\<lambda>j. endname cfg j i) True [0..<hc_n cfg] rn1;
       Some (cfg\<lparr>hc_connected := c, hc_net := rn2\<rparr>)
     }"

definition has_names :: "'b config \<Rightarrow> nat \<Rightarrow> bool" where
  "has_names cfg i \<longleftrightarrow> hc_endnames cfg ! i \<noteq> None"

definition disconnect :: "nat \<Rightarrow> 'b config \<Rightarrow> 'b config option" where
  "disconnect i cfg =
     do {
       c \<leftarrow> set_idx (hc_connected cfg) (int i) False;
       rn1 \<leftarrow> enable_loop (\<lambda>j. has_names cfg i) (\<lambda>j. endname cfg i j) False [0..<hc_n cfg] (hc_net cfg);
       rn2 \<leftarrow> enable_loop (has_names cfg) (\<lambda>j. endname cfg j i) False [0..<hc_n cfg] rn1;
       Some (cfg\<lparr>hc_connected := c, hc_net := rn2\<rparr>)
     }"

section \<open>Crashes and restarts\<close>

text \<open>The persister that \<open>cfg.saved[i]\<close> points to.\<close>

definition saved_of :: "'b config \<Rightarrow> nat \<Rightarrow> 'b Persister option" where
  "saved_of cfg i = (case hc_rafts cfg ! i of Some rf \<Rightarrow> Some (persister rf) | None \<Rightarrow> hc_saved cfg ! i)"

definition crash1 :: "nat \<Rightarrow> 'b config \<Rightarrow> 'b config option" where
  "crash1 i cfg =
     do {
       cfg1 \<leftarrow> disconnect i cfg;
       let saved1 = map_option Copy (saved_of cfg i);
       let saved2 = map_option (\<lambda>ps. SaveRaftState (ReadRaftState ps) \<lparr>raftstate = [], snapshot = []\<rparr>) saved1;
       Some (cfg1\<lparr>hc_net := DeleteServer i (hc_net cfg1), hc_rafts := (hc_rafts cfg1)[i := None],
                  hc_saved := (hc_saved cfg1)[i := saved2]\<rparr>)
     }"

fun make_ends :: "nat \<Rightarrow> string list \<Rightarrow> (string, nat) Network \<Rightarrow> (string, nat) Network option" where
  "make_ends j [] rn = Some rn"
| "make_ends j (e # es) rn = do { (rn1, ce) \<leftarrow> MakeEnd e rn; make_ends (Suc j) es (Connect e j rn1) }"

text \<open>\<open>rnd\<close> are the strings that \<open>randstring\<close> returns, one for each peer, and \<open>srv\<close> is the new server.\<close>

definition start1 :: "(int, 'b) decoder \<Rightarrow> (nat \<Rightarrow> string) \<Rightarrow> nat \<Rightarrow> nat \<Rightarrow> 'b config \<Rightarrow> 'b config option" where
  "start1 dec rnd srv i cfg =
     do {
       cfg1 \<leftarrow> crash1 i cfg;
       let names = map rnd [0..<hc_n cfg1];
       rn \<leftarrow> make_ends 0 names (hc_net cfg1);
       let saved = (case hc_saved cfg1 ! i of Some ps \<Rightarrow> Copy ps | None \<Rightarrow> MakePersister);
       rf \<leftarrow> Make dec (hc_n cfg1) i saved;
       Some (cfg1\<lparr>hc_endnames := (hc_endnames cfg1)[i := Some names], hc_saved := (hc_saved cfg1)[i := Some saved],
                  hc_rafts := (hc_rafts cfg1)[i := Some rf], hc_net := AddServer i srv rn\<rparr>)
     }"

text \<open>What a test asks of the harness.\<close>

datatype harness_op = HStart "nat \<Rightarrow> string" nat nat | HCrash nat | HConnect nat | HDisconnect nat

primrec harness_exec :: "(int, 'b) decoder \<Rightarrow> harness_op \<Rightarrow> 'b config \<Rightarrow> 'b config option" where
  "harness_exec dec (HStart rnd srv i) cfg = start1 dec rnd srv i cfg"
| "harness_exec dec (HCrash i) cfg = crash1 i cfg"
| "harness_exec dec (HConnect i) cfg = connect i cfg"
| "harness_exec dec (HDisconnect i) cfg = disconnect i cfg"

definition make_config :: "(int, 'b) decoder \<Rightarrow> (nat \<Rightarrow> nat \<Rightarrow> string) \<Rightarrow> nat \<Rightarrow> bool \<Rightarrow> 'b config option" where
  "make_config dec rnd n unreliable =
     run_all (harness_exec dec) (map (\<lambda>i. HStart (rnd i) i i) [0..<n] @ map HConnect [0..<n]) (empty_config n unreliable)"

section \<open>What the harness checks\<close>

text \<open>The goroutine that reads the apply channel of peer \<open>i\<close>, for one message.\<close>

definition conflicts :: "int \<Rightarrow> int \<Rightarrow> (int \<rightharpoonup> int) \<Rightarrow> bool" where
  "conflicts index v l \<longleftrightarrow> (case l index of Some old \<Rightarrow> old \<noteq> v | None \<Rightarrow> False)"

definition check_apply :: "nat \<Rightarrow> (int, 'b) apply_msg \<Rightarrow> 'b config \<Rightarrow> 'b config option" where
  "check_apply i m cfg =
     (if \<not> CommandValid m then Some cfg
      else do {
        v \<leftarrow> MsgCommand m;
        l \<leftarrow> idx (hc_logs cfg) (int i);
        let index = MsgCommandIndex m;
        let prevok = (l (index - 1) \<noteq> None);
        if (\<exists>l' \<in> set (hc_logs cfg). conflicts index v l') \<or> (index > 1 \<and> \<not> prevok) then None
        else Some (cfg\<lparr>hc_logs := (hc_logs cfg)[i := l(index \<mapsto> v)],
                       hc_maxIndex := (if index > hc_maxIndex cfg then index else hc_maxIndex cfg)\<rparr>)
      })"

text \<open>The connected peers that say they are leaders, with their terms.\<close>

definition claims :: "'b config \<Rightarrow> (int \<times> nat) list option" where
  "claims cfg = those (map (\<lambda>i. do { rf \<leftarrow> hc_rafts cfg ! i; Some (fst (GetState rf), i) })
     (filter (\<lambda>i. hc_connected cfg ! i \<and> (case hc_rafts cfg ! i of Some rf \<Rightarrow> snd (GetState rf) | None \<Rightarrow> True)) [0..<hc_n cfg]))"

definition one_leader_round :: "'b config \<Rightarrow> nat option option" where
  "one_leader_round cfg =
     do {
       leaders \<leftarrow> claims cfg;
       if \<not> distinct (map fst leaders) then None
       else if leaders = [] then Some None
       else do { i \<leftarrow> map_of leaders (fold max (map fst leaders) (- 1)); Some (Some i) }
     }"

fun leader_rounds :: "'b config list \<Rightarrow> nat option" where
  "leader_rounds [] = None"
| "leader_rounds (cfg # cfgs) =
     do { r \<leftarrow> one_leader_round cfg; case r of Some i \<Rightarrow> Some i | None \<Rightarrow> leader_rounds cfgs }"

definition checkOneLeader :: "(nat \<Rightarrow> 'b config) \<Rightarrow> nat option" where
  "checkOneLeader seen = leader_rounds (map seen [0..<10])"

fun terms_loop :: "'b config \<Rightarrow> nat list \<Rightarrow> int \<Rightarrow> int option" where
  "terms_loop cfg [] t = Some t"
| "terms_loop cfg (i # is) t =
     (if hc_connected cfg ! i
      then do {
        rf \<leftarrow> hc_rafts cfg ! i;
        let xterm = fst (GetState rf);
        if t = - 1 then terms_loop cfg is xterm
        else if t \<noteq> xterm then None
        else terms_loop cfg is t
      }
      else terms_loop cfg is t)"

definition checkTerms :: "'b config \<Rightarrow> int option" where
  "checkTerms cfg = terms_loop cfg [0..<hc_n cfg] (- 1)"

definition checkNoLeader :: "'b config \<Rightarrow> unit option" where
  "checkNoLeader cfg = do { leaders \<leftarrow> claims cfg; if leaders = [] then Some () else None }"

fun committed_loop :: "int \<Rightarrow> (string \<times> (int \<rightharpoonup> int)) list \<Rightarrow> int \<Rightarrow> int \<Rightarrow> (int \<times> int) option" where
  "committed_loop index [] cnt cmd = Some (cnt, cmd)"
| "committed_loop index ((err, l) # ls) cnt cmd =
     (if err \<noteq> [] then None
      else case l index of
             Some cmd1 \<Rightarrow> (if cnt > 0 \<and> cmd \<noteq> cmd1 then None else committed_loop index ls (cnt + 1) cmd1)
           | None \<Rightarrow> committed_loop index ls cnt cmd)"

definition nCommitted :: "int \<Rightarrow> 'b config \<Rightarrow> (int \<times> int) option" where
  "nCommitted index cfg = committed_loop index (zip (hc_applyErr cfg) (hc_logs cfg)) 0 (- 1)"

text \<open>
  \<open>seen k\<close> is the configuration when round \<open>k\<close> counts, \<open>later k\<close> the one when it asks for the terms.
\<close>

fun someone_moved_on :: "int \<Rightarrow> (int, 'b) Raft option list \<Rightarrow> bool option" where
  "someone_moved_on startTerm [] = Some False"
| "someone_moved_on startTerm (r # rs) =
     do { rf \<leftarrow> r; if fst (GetState rf) > startTerm then Some True else someone_moved_on startTerm rs }"

fun wait_loop :: "int \<Rightarrow> int \<Rightarrow> int \<Rightarrow> (nat \<Rightarrow> 'b config) \<Rightarrow> (nat \<Rightarrow> 'b config) \<Rightarrow> nat list \<Rightarrow> bool option" where
  "wait_loop index n startTerm seen later [] = Some False"
| "wait_loop index n startTerm seen later (k # ks) =
     do {
       (nd, cmd) \<leftarrow> nCommitted index (seen k);
       if nd \<ge> n then Some False
       else do {
         moved \<leftarrow> (if startTerm > - 1 then someone_moved_on startTerm (hc_rafts (later k)) else Some False);
         if moved then Some True else wait_loop index n startTerm seen later ks
       }
     }"

definition wait_committed ::
  "int \<Rightarrow> int \<Rightarrow> int \<Rightarrow> (nat \<Rightarrow> 'b config) \<Rightarrow> (nat \<Rightarrow> 'b config) \<Rightarrow> 'b config \<Rightarrow> int option" where
  "wait_committed index n startTerm seen later final =
     do {
       moved \<leftarrow> wait_loop index n startTerm seen later [0..<30];
       if moved then Some (- 1)
       else do {
         (nd, cmd) \<leftarrow> nCommitted index final;
         if nd < n then None else Some cmd
       }
     }"

section \<open>A complete agreement\<close>

text \<open>
  \<open>one\<close> in rounds: in each it offers the command to the servers in turn, \<open>seen t\<close> being the configuration at
  the \<open>t\<close>-th offer, and then polls; \<open>looks\<close> are the configurations it polls before its two seconds are over.
  The rounds are those that begin within ten seconds.
\<close>

fun submit :: "(int, 'b) encoder \<Rightarrow> int \<Rightarrow> (nat \<Rightarrow> 'b config) \<Rightarrow> nat list \<Rightarrow> nat \<Rightarrow> (int \<times> nat) option" where
  "submit enc cmd seen [] starts = Some (- 1, starts)"
| "submit enc cmd seen (t # ts) starts =
     (let starts' = (starts + 1) mod hc_n (seen t)
      in case (if hc_connected (seen t) ! starts' then hc_rafts (seen t) ! starts' else None) of
           None \<Rightarrow> submit enc cmd seen ts starts'
         | Some rf \<Rightarrow> do {
             (rf', index1, trm, ok) \<leftarrow> Start enc cmd rf;
             if ok then Some (index1, starts') else submit enc cmd seen ts starts'
           })"

fun agree_loop :: "int \<Rightarrow> int \<Rightarrow> int \<Rightarrow> 'b config list \<Rightarrow> bool option" where
  "agree_loop index cmd expected [] = Some False"
| "agree_loop index cmd expected (cfg # looks) =
     do {
       (nd, cmd1) \<leftarrow> nCommitted index cfg;
       if nd > 0 \<and> nd \<ge> expected \<and> cmd1 = cmd then Some True else agree_loop index cmd expected looks
     }"

fun one_loop ::
  "(int, 'b) encoder \<Rightarrow> int \<Rightarrow> int \<Rightarrow> bool \<Rightarrow> nat \<Rightarrow> ((nat \<Rightarrow> 'b config) \<times> 'b config list) list \<Rightarrow> nat \<Rightarrow> int option" where
  "one_loop enc cmd expected again n [] starts = None"
| "one_loop enc cmd expected again n ((seen, looks) # rounds) starts =
     do {
       (index, starts') \<leftarrow> submit enc cmd seen [0..<n] starts;
       if index \<noteq> - 1
       then do {
         agreed \<leftarrow> agree_loop index cmd expected looks;
         if agreed then Some index
         else if \<not> again then None
         else one_loop enc cmd expected again n rounds starts'
       }
       else one_loop enc cmd expected again n rounds starts'
     }"

definition one_agreement ::
  "(int, 'b) encoder \<Rightarrow> int \<Rightarrow> int \<Rightarrow> bool \<Rightarrow> nat \<Rightarrow> ((nat \<Rightarrow> 'b config) \<times> 'b config list) list \<Rightarrow> int option" where
  "one_agreement enc cmd expected again n rounds = one_loop enc cmd expected again n rounds 0"

section \<open>Statistics and switches\<close>

definition rpcTotal :: "'b config \<Rightarrow> int" where
  "rpcTotal cfg = GetTotalCount (hc_net cfg)"

definition setunreliable :: "bool \<Rightarrow> 'b config \<Rightarrow> 'b config" where
  "setunreliable unrel cfg = cfg\<lparr>hc_net := Reliable (\<not> unrel) (hc_net cfg)\<rparr>"

definition setlongreordering :: "bool \<Rightarrow> 'b config \<Rightarrow> 'b config" where
  "setlongreordering longrel cfg = cfg\<lparr>hc_net := LongReordering longrel (hc_net cfg)\<rparr>"

definition begin_test :: "'b config \<Rightarrow> 'b config" where
  "begin_test cfg = cfg\<lparr>hc_rpcs0 := rpcTotal cfg, hc_maxIndex0 := hc_maxIndex cfg\<rparr>"

text \<open>The numbers that \<open>end\<close> prints: peers, RPCs and agreements of the test.\<close>

definition end_test :: "'b config \<Rightarrow> nat \<times> int \<times> int" where
  "end_test cfg = (hc_n cfg, rpcTotal cfg - hc_rpcs0 cfg, hc_maxIndex cfg - hc_maxIndex0 cfg)"

definition cleanup :: "'b config \<Rightarrow> 'b config option" where
  "cleanup cfg =
     do { rn \<leftarrow> Cleanup (hc_net cfg); Some (cfg\<lparr>hc_rafts := map (map_option Kill) (hc_rafts cfg), hc_net := rn\<rparr>) }"

section \<open>The network follows the connections\<close>

lemma enable_loop_Some:
  assumes "enable_loop wanted name b js rn = Some rn'"
  shows "(\<forall>j \<in> set js. wanted j \<longrightarrow> name j \<noteq> None)
    \<and> rn' = rn\<lparr>nw_enabled := (\<lambda>e. if \<exists>j \<in> set js. wanted j \<and> name j = Some e then Some b else nw_enabled rn e)\<rparr>"
  using assms
proof (induction js arbitrary: rn)
  case (Cons j js)
  show ?case
  proof (cases "wanted j")
    case True
    with Cons.prems obtain e where e: "name j = Some e" "enable_loop wanted name b js (Enable e b rn) = Some rn'"
      by (auto simp: Option.bind_eq_Some_conv)
    have "(\<lambda>x. if \<exists>j \<in> set js. wanted j \<and> name j = Some x then Some b else nw_enabled (Enable e b rn) x)
        = (\<lambda>x. if \<exists>j \<in> set (j # js). wanted j \<and> name j = Some x then Some b else nw_enabled rn x)"
      using True e(1) by (intro ext) (auto simp: Enable_def)
    then show ?thesis using Cons.IH [OF e(2)] True e(1) by (simp add: Enable_def)
  qed (use Cons in simp)
qed simp

text \<open>Both loops together set the flags of ends from and to peer \<open>i\<close>.\<close>

definition touches :: "'b config \<Rightarrow> (nat \<Rightarrow> bool) \<Rightarrow> (nat \<Rightarrow> bool) \<Rightarrow> nat \<Rightarrow> string \<Rightarrow> bool" where
  "touches cfg w w' i e \<longleftrightarrow> (\<exists>j < hc_n cfg. w j \<and> endname cfg i j = Some e \<or> w' j \<and> endname cfg j i = Some e)"

definition set_ends :: "(string \<Rightarrow> bool) \<Rightarrow> bool \<Rightarrow> (string, nat) Network \<Rightarrow> (string, nat) Network" where
  "set_ends T b rn = rn\<lparr>nw_enabled := (\<lambda>e. if T e then Some b else nw_enabled rn e)\<rparr>"

lemma enable_both:
  assumes "enable_loop w (\<lambda>j. endname cfg i j) b [0..<hc_n cfg] rn = Some rn1"
    and "enable_loop w' (\<lambda>j. endname cfg j i) b [0..<hc_n cfg] rn1 = Some rn2"
  shows "rn2 = set_ends (touches cfg w w' i) b rn \<and> (\<forall>j < hc_n cfg. w j \<longrightarrow> endname cfg i j \<noteq> None)"
proof -
  note loops = assms [THEN enable_loop_Some]
  have enabled: "nw_enabled rn2 = (\<lambda>e. if touches cfg w w' i e then Some b else nw_enabled rn e)"
    using loops by (intro ext) (auto simp: touches_def)
  have "rn2 = rn\<lparr>nw_enabled := nw_enabled rn2\<rparr>" using loops by simp
  then have "rn2 = set_ends (touches cfg w w' i) b rn" unfolding set_ends_def enabled [symmetric] .
  then show ?thesis using loops(1) by simp
qed

lemma connect_Some:
  assumes "connect i cfg = Some cfg'" and "length (hc_connected cfg) = hc_n cfg"
  defines "c \<equiv> (hc_connected cfg)[i := True]"
  shows "i < hc_n cfg \<and> (\<forall>j < hc_n cfg. c ! j \<longrightarrow> endname cfg i j \<noteq> None)
    \<and> cfg' = cfg\<lparr>hc_connected := c, hc_net := set_ends (touches cfg ((!) c) ((!) c) i) True (hc_net cfg)\<rparr>"
  using assms enable_both by (fastforce simp: connect_def Option.bind_eq_Some_conv go_simps)

lemma disconnect_Some:
  assumes "disconnect i cfg = Some cfg'" and "length (hc_connected cfg) = hc_n cfg"
  shows "i < hc_n cfg \<and> cfg' = cfg\<lparr>hc_connected := (hc_connected cfg)[i := False],
      hc_net := set_ends (touches cfg (\<lambda>j. has_names cfg i) (has_names cfg) i) False (hc_net cfg)\<rparr>"
  using assms enable_both by (fastforce simp: disconnect_def Option.bind_eq_Some_conv go_simps)

text \<open>
  The invariant of the harness: the names of ends are registered and not shared, a connected peer has
  its ends, the end from \<open>i\<close> to \<open>j\<close> leads to server \<open>j\<close>, and the ends that are enabled are those between
  connected peers.
\<close>

definition topology_ok :: "'b config \<Rightarrow> bool" where
  "topology_ok cfg \<longleftrightarrow> length (hc_connected cfg) = hc_n cfg \<and> length (hc_endnames cfg) = hc_n cfg
     \<and> (\<forall>i < hc_n cfg. hc_connected cfg ! i \<longrightarrow> has_names cfg i)
     \<and> (\<forall>i < hc_n cfg. has_names cfg i \<longrightarrow> (\<forall>j < hc_n cfg. endname cfg i j \<noteq> None))
     \<and> (\<forall>i j e. endname cfg i j = Some e \<longrightarrow>
          i < hc_n cfg \<and> j < hc_n cfg \<and> nw_ends (hc_net cfg) e \<noteq> None \<and> nw_connections (hc_net cfg) e = Some j)
     \<and> (\<forall>i j i' j' e. endname cfg i j = Some e \<longrightarrow> endname cfg i' j' = Some e \<longrightarrow> i = i' \<and> j = j')
     \<and> (\<forall>e. is_enabled (hc_net cfg) e \<longleftrightarrow> (\<exists>i j. endname cfg i j = Some e \<and> hc_connected cfg ! i \<and> hc_connected cfg ! j))"

lemma topology_empty: "topology_ok (empty_config n unrel)"
  by (auto simp: topology_ok_def empty_config_def endname_def is_enabled_def MakeNetwork_def LongDelays_def Reliable_def
      has_names_def Option.bind_eq_Some_conv idx_def split: if_splits)

lemma endname_has_names: "endname cfg i j = Some e \<Longrightarrow> has_names cfg i"
  by (auto simp: endname_def has_names_def Option.bind_eq_Some_conv go_simps)

lemma set_ends_simps [simp]:
  "nw_ends (set_ends T b rn) = nw_ends rn" "nw_connections (set_ends T b rn) = nw_connections rn"
  "is_enabled (set_ends T b rn) e \<longleftrightarrow> (if T e then b else is_enabled rn e)"
  by (simp_all add: set_ends_def is_enabled_def)

lemma topologyD:
  assumes "topology_ok cfg"
  shows "length (hc_connected cfg) = hc_n cfg" and "length (hc_endnames cfg) = hc_n cfg"
    and "i < hc_n cfg \<Longrightarrow> hc_connected cfg ! i \<Longrightarrow> has_names cfg i"
    and "i < hc_n cfg \<Longrightarrow> has_names cfg i \<Longrightarrow> j < hc_n cfg \<Longrightarrow> endname cfg i j \<noteq> None"
    and "endname cfg i j = Some e \<Longrightarrow> i < hc_n cfg \<and> j < hc_n cfg \<and> nw_ends (hc_net cfg) e \<noteq> None
      \<and> nw_connections (hc_net cfg) e = Some j"
    and "endname cfg i j = Some e \<Longrightarrow> endname cfg i' j' = Some e \<Longrightarrow> i = i' \<and> j = j'"
    and "is_enabled (hc_net cfg) e \<longleftrightarrow> (\<exists>i j. endname cfg i j = Some e \<and> hc_connected cfg ! i \<and> hc_connected cfg ! j)"
  using assms unfolding topology_ok_def by blast+

lemma topologyI:
  assumes "length (hc_connected cfg) = hc_n cfg" and "length (hc_endnames cfg) = hc_n cfg"
    and "\<And>i. i < hc_n cfg \<Longrightarrow> hc_connected cfg ! i \<Longrightarrow> has_names cfg i"
    and "\<And>i j. i < hc_n cfg \<Longrightarrow> has_names cfg i \<Longrightarrow> j < hc_n cfg \<Longrightarrow> endname cfg i j \<noteq> None"
    and "\<And>i j e. endname cfg i j = Some e \<Longrightarrow> i < hc_n cfg \<and> j < hc_n cfg \<and> nw_ends (hc_net cfg) e \<noteq> None
      \<and> nw_connections (hc_net cfg) e = Some j"
    and "\<And>i j i' j' e. endname cfg i j = Some e \<Longrightarrow> endname cfg i' j' = Some e \<Longrightarrow> i = i' \<and> j = j'"
    and "\<And>e. is_enabled (hc_net cfg) e \<longleftrightarrow> (\<exists>i j. endname cfg i j = Some e \<and> hc_connected cfg ! i \<and> hc_connected cfg ! j)"
  shows "topology_ok cfg"
  unfolding topology_ok_def using assms by (intro conjI allI impI) simp_all

lemma topology_cong:
  assumes "hc_n cfg' = hc_n cfg" and "hc_connected cfg' = hc_connected cfg" and "hc_endnames cfg' = hc_endnames cfg"
    and "nw_ends (hc_net cfg') = nw_ends (hc_net cfg)" and "nw_connections (hc_net cfg') = nw_connections (hc_net cfg)"
    and "nw_enabled (hc_net cfg') = nw_enabled (hc_net cfg)"
  shows "topology_ok cfg' = topology_ok cfg"
proof -
  have "endname cfg' = endname cfg" "has_names cfg' = has_names cfg" "is_enabled (hc_net cfg') = is_enabled (hc_net cfg)"
    using assms by (simp_all add: fun_eq_iff endname_def has_names_def is_enabled_def)
  then show ?thesis unfolding topology_ok_def by (simp only: assms)
qed

text \<open>A change of the flags and of the enabled ends that keeps the names.\<close>

lemma topology_switch:
  assumes ok: "topology_ok cfg" and len: "length c = hc_n cfg"
    and ends: "\<And>i. i < hc_n cfg \<Longrightarrow> c ! i \<Longrightarrow> has_names cfg i"
    and on: "\<And>e. (if T e then b else is_enabled (hc_net cfg) e)
      \<longleftrightarrow> (\<exists>i j. endname cfg i j = Some e \<and> c ! i \<and> c ! j)"
  shows "topology_ok (cfg\<lparr>hc_connected := c, hc_net := set_ends T b (hc_net cfg)\<rparr>)"
proof -
  have same: "endname (cfg\<lparr>hc_connected := c, hc_net := rn\<rparr>) x y = endname cfg x y"
      "has_names (cfg\<lparr>hc_connected := c, hc_net := rn\<rparr>) x = has_names cfg x" for x y rn
    by (simp_all add: endname_def has_names_def)
  show ?thesis unfolding topology_ok_def same using topologyD [OF ok] len ends on by simp
qed

lemma topology_connect:
  assumes ok: "topology_ok cfg" and "connect i cfg = Some cfg'"
  shows "topology_ok cfg'"
proof -
  note top = topologyD [OF ok]
  let ?c = "(hc_connected cfg)[i := True]"
  have c: "i < hc_n cfg" "\<forall>j < hc_n cfg. ?c ! j \<longrightarrow> endname cfg i j \<noteq> None"
      "cfg' = cfg\<lparr>hc_connected := ?c, hc_net := set_ends (touches cfg ((!) ?c) ((!) ?c) i) True (hc_net cfg)\<rparr>"
    using connect_Some [OF assms(2) top(1)] by blast+
  have i: "?c ! i" using c(1) top(1) by simp
  have other: "?c ! x = hc_connected cfg ! x" if "x \<noteq> i" for x using that by simp
  show ?thesis
    unfolding c(3)
  proof (rule topology_switch [OF ok])
    show "has_names cfg x" if "x < hc_n cfg" "?c ! x" for x
    proof (cases "x = i")
      case True
      then show ?thesis using c(1,2) i endname_has_names by blast
    next
      case False
      then show ?thesis using that other top(3) by metis
    qed
    show "(if touches cfg ((!) ?c) ((!) ?c) i e then True else is_enabled (hc_net cfg) e)
        \<longleftrightarrow> (\<exists>x y. endname cfg x y = Some e \<and> ?c ! x \<and> ?c ! y)" for e
    proof -
      have "touches cfg ((!) ?c) ((!) ?c) i e \<or> is_enabled (hc_net cfg) e"
        if "endname cfg x y = Some e" "?c ! x" "?c ! y" for x y
        using that other [of x] other [of y] top(5) [OF that(1)] by (cases "x = i"; cases "y = i") (auto simp: touches_def top(7))
      moreover have "\<exists>x y. endname cfg x y = Some e \<and> ?c ! x \<and> ?c ! y" if "touches cfg ((!) ?c) ((!) ?c) i e"
        using that i unfolding touches_def by blast
      moreover have "?c ! x" if "hc_connected cfg ! x" for x using that i other [of x] by (cases "x = i") simp_all
      then have "\<exists>x y. endname cfg x y = Some e \<and> ?c ! x \<and> ?c ! y" if "is_enabled (hc_net cfg) e"
        using that unfolding top(7) by blast
      ultimately show ?thesis by (cases "touches cfg ((!) ?c) ((!) ?c) i e") (simp_all only: if_True if_False, blast+)
    qed
  qed (simp add: top(1))
qed

lemma topology_disconnect:
  assumes ok: "topology_ok cfg" and "disconnect i cfg = Some cfg'"
  shows "topology_ok cfg'"
proof -
  note top = topologyD [OF ok]
  let ?c = "(hc_connected cfg)[i := False]"
  let ?T = "touches cfg (\<lambda>j. has_names cfg i) (has_names cfg) i"
  have c: "i < hc_n cfg" "cfg' = cfg\<lparr>hc_connected := ?c, hc_net := set_ends ?T False (hc_net cfg)\<rparr>"
    using disconnect_Some [OF assms(2) top(1)] by blast+
  have T: "?T e \<longleftrightarrow> (\<exists>j. endname cfg i j = Some e \<or> endname cfg j i = Some e)" for e
    unfolding touches_def using top(5) endname_has_names by metis
  have conn: "?c ! x \<longleftrightarrow> x \<noteq> i \<and> hc_connected cfg ! x" if "x < hc_n cfg" for x
    using that top(1) by (cases "x = i") simp_all
  show ?thesis
    unfolding c(2)
  proof (rule topology_switch [OF ok])
    show "has_names cfg x" if "x < hc_n cfg" "?c ! x" for x using that conn top(3) by blast
    show "(if ?T e then False else is_enabled (hc_net cfg) e) \<longleftrightarrow> (\<exists>x y. endname cfg x y = Some e \<and> ?c ! x \<and> ?c ! y)" for e
    proof -
      have "?c ! x \<and> ?c ! y \<longleftrightarrow> \<not> ?T e \<and> hc_connected cfg ! x \<and> hc_connected cfg ! y"
        if e: "endname cfg x y = Some e" for x y
      proof -
        have "?T e \<longleftrightarrow> x = i \<or> y = i" unfolding T using e top(6) [OF e] by blast
        then show ?thesis using conn top(5) [OF e] by blast
      qed
      then have "(\<exists>x y. endname cfg x y = Some e \<and> ?c ! x \<and> ?c ! y)
          \<longleftrightarrow> (\<exists>x y. endname cfg x y = Some e \<and> \<not> ?T e \<and> hc_connected cfg ! x \<and> hc_connected cfg ! y)" by blast
      then show ?thesis unfolding top(7) by simp
    qed
  qed (simp add: top(1))
qed

lemma topology_crash1:
  assumes "topology_ok cfg" and "crash1 i cfg = Some cfg'"
  shows "topology_ok cfg' \<and> i < hc_n cfg \<and> hc_n cfg' = hc_n cfg \<and> \<not> hc_connected cfg' ! i"
proof -
  obtain cfg1 rs sv where 1: "disconnect i cfg = Some cfg1"
      "cfg' = cfg1\<lparr>hc_net := DeleteServer i (hc_net cfg1), hc_rafts := rs, hc_saved := sv\<rparr>"
    using assms(2) by (auto simp: crash1_def Let_def Option.bind_eq_Some_conv)
  have "topology_ok cfg1" using topology_disconnect assms(1) 1(1) .
  moreover have "i < hc_n cfg" "hc_n cfg1 = hc_n cfg" "\<not> hc_connected cfg1 ! i"
    using disconnect_Some [OF 1(1)] topologyD(1) [OF assms(1)] by auto
  moreover have "topology_ok cfg' = topology_ok cfg1" by (rule topology_cong) (simp_all add: 1(2) DeleteServer_def)
  ultimately show ?thesis by (simp add: 1(2))
qed

text \<open>New ends are new names, lead to the peers in order and are disabled.\<close>

lemma make_ends_Some:
  assumes "make_ends k es rn = Some rn'"
  shows "distinct es \<and> (\<forall>e \<in> set es. nw_ends rn e = None)
    \<and> (\<forall>e. nw_ends rn' e \<noteq> None \<longleftrightarrow> e \<in> set es \<or> nw_ends rn e \<noteq> None)
    \<and> (\<forall>m < length es. nw_connections rn' (es ! m) = Some (k + m))
    \<and> (\<forall>e. e \<notin> set es \<longrightarrow> nw_connections rn' e = nw_connections rn e)
    \<and> (\<forall>e. is_enabled rn' e \<longleftrightarrow> e \<notin> set es \<and> is_enabled rn e)"
  using assms
proof (induction es arbitrary: k rn)
  case (Cons e es)
  define rn1 where "rn1 = rn\<lparr>nw_ends := (nw_ends rn)(e \<mapsto> \<lparr>ce_endname = e\<rparr>), nw_enabled := (nw_enabled rn)(e \<mapsto> False),
    nw_connections := (nw_connections rn)(e \<mapsto> k)\<rparr>"
  have e: "nw_ends rn e = None" and "make_ends (Suc k) es rn1 = Some rn'"
    using Cons.prems by (auto simp: MakeEnd_def Connect_def Let_def rn1_def split: if_splits)
  note IH = Cons.IH [OF this(2)]
  then show ?case
    using e by (auto simp: rn1_def is_enabled_def nth_Cons less_Suc_eq_0_disj split: nat.splits if_splits)
qed simp

lemma endname_lookup:
  "endname cfg i j = (if i < length (hc_endnames cfg)
     then case hc_endnames cfg ! i of Some names \<Rightarrow> if j < length names then Some (names ! j) else None | None \<Rightarrow> None
     else None)"
  by (auto simp: endname_def idx_def split: option.splits)

text \<open>A table of names keeps its names apart when a row of new names replaces a row.\<close>

definition new_row :: "nat \<Rightarrow> nat \<Rightarrow> (nat \<Rightarrow> string) \<Rightarrow> (nat \<Rightarrow> nat \<Rightarrow> string option) \<Rightarrow> nat \<Rightarrow> nat \<Rightarrow> string option" where
  "new_row k n rnd E x y = (if x = k then if y < n then Some (rnd y) else None else E x y)"

lemma new_row_inj:
  assumes inj: "inj_on rnd {0..<n}" and fresh: "\<And>x y z. z < n \<Longrightarrow> E x y \<noteq> Some (rnd z)"
    and old: "\<And>x y x' y' e. E x y = Some e \<Longrightarrow> E x' y' = Some e \<Longrightarrow> x = x' \<and> y = y'"
    and e: "new_row k n rnd E x y = Some e" "new_row k n rnd E x' y' = Some e"
  shows "x = x' \<and> y = y'"
proof -
  have new: "(\<exists>z < n. e = rnd z) \<longleftrightarrow> x = k" if "new_row k n rnd E x y = Some e" for x y
    using that fresh [of _ x y] by (cases "x = k") (auto simp: new_row_def split: if_splits)
  show ?thesis
  proof (cases "x = k")
    case True
    then have "x' = k" using new e by blast
    then show ?thesis using e True inj_onD [OF inj, of y y'] by (simp add: new_row_def split: if_splits)
  next
    case False
    then have "x' \<noteq> k" using new e by blast
    then have "E x y = Some e" "E x' y' = Some e" using e False by (simp_all add: new_row_def)
    then show ?thesis by (rule old)
  qed
qed

lemma topology_start1:
  assumes ok: "topology_ok cfg" and "start1 dec rnd srv i cfg = Some cfg'"
  shows "topology_ok cfg'"
proof -
  obtain cfg1 rn rs sv where crash: "crash1 i cfg = Some cfg1" and ends: "make_ends 0 (map rnd [0..<hc_n cfg1]) (hc_net cfg1) = Some rn"
      and cfg': "cfg' = cfg1\<lparr>hc_endnames := (hc_endnames cfg1)[i := Some (map rnd [0..<hc_n cfg1])], hc_saved := sv,
        hc_rafts := rs, hc_net := AddServer i srv rn\<rparr>"
    using assms(2) by (auto simp: start1_def Let_def Option.bind_eq_Some_conv)
  have ok1: "topology_ok cfg1" and i: "i < hc_n cfg1" and off: "\<not> hc_connected cfg1 ! i"
    using topology_crash1 [OF ok crash] by simp_all
  note top = topologyD [OF ok1] and new = make_ends_Some [OF ends]
  have row: "endname cfg' = new_row i (hc_n cfg1) rnd (endname cfg1)"
    using i top(2) by (simp add: fun_eq_iff new_row_def endname_lookup cfg' nth_list_update)
  note name = fun_cong [OF fun_cong [OF row], unfolded new_row_def]
  have fresh: "nw_ends (hc_net cfg1) (rnd y) = None" if "y < hc_n cfg1" for y using new that by simp
  have old: "e \<notin> set (map rnd [0..<hc_n cfg1])" if "endname cfg1 x y = Some e" for x y e
    using top(5) [OF that] fresh by auto
  have names: "has_names cfg' x = (x = i \<or> has_names cfg1 x)" if "x < hc_n cfg1" for x
    using i top(2) that by (auto simp: has_names_def cfg' nth_list_update)
  have conn: "hc_connected cfg' = hc_connected cfg1" "hc_n cfg' = hc_n cfg1" by (simp_all add: cfg')
  have net: "is_enabled (hc_net cfg') e \<longleftrightarrow> e \<notin> set (map rnd [0..<hc_n cfg1]) \<and> is_enabled (hc_net cfg1) e" for e
    using new by (auto simp: cfg' AddServer_def is_enabled_def)
  have "endname cfg' x y = endname cfg1 x y" if "hc_connected cfg1 ! x" for x y using that off by (auto simp: name)
  then have "is_enabled (hc_net cfg') e \<longleftrightarrow> (\<exists>x y. endname cfg' x y = Some e \<and> hc_connected cfg1 ! x \<and> hc_connected cfg1 ! y)" for e
    unfolding net top(7) using old by metis
  moreover have "x < hc_n cfg1 \<and> y < hc_n cfg1 \<and> nw_ends (hc_net cfg') e \<noteq> None \<and> nw_connections (hc_net cfg') e = Some y"
    if e: "endname cfg' x y = Some e" for x y e
  proof (cases "x = i")
    case True
    then have "y < hc_n cfg1" "e = rnd y" using e by (auto simp: name split: if_splits)
    then show ?thesis using new i True by (auto simp: cfg' AddServer_def dest: spec [where x = y])
  next
    case False
    then have e1: "endname cfg1 x y = Some e" using e by (simp add: name)
    then show ?thesis using top(5) [OF e1] old [OF e1] new by (simp add: cfg' AddServer_def)
  qed
  moreover have "x = x' \<and> y = y'" if "endname cfg' x y = Some e" "endname cfg' x' y' = Some e" for x y x' y' e
  proof (rule new_row_inj [OF _ _ top(6) that [unfolded row]])
    show "inj_on rnd {0..<hc_n cfg1}" using new by (simp add: distinct_map)
    show "endname cfg1 x y \<noteq> Some (rnd z)" if "z < hc_n cfg1" for x y z using old [of x y "rnd z"] that by auto
  qed
  moreover have "endname cfg' x y \<noteq> None" if "x < hc_n cfg1" "has_names cfg' x" "y < hc_n cfg1" for x y
    using that names [OF that(1)] top(4) [OF that(1) _ that(3)] by (cases "x = i") (simp_all add: name)
  moreover have "has_names cfg' x" if "x < hc_n cfg1" "hc_connected cfg1 ! x" for x using names top(3) that by blast
  moreover have "length (hc_connected cfg1) = hc_n cfg1" "length (hc_endnames cfg') = hc_n cfg1"
    using top(1,2) by (simp_all add: cfg')
  ultimately show ?thesis by (intro topologyI) (simp_all only: conn simp_thms)
qed

lemma topology_exec: "topology_ok cfg \<Longrightarrow> harness_exec dec a cfg = Some cfg' \<Longrightarrow> topology_ok cfg'"
  by (cases a; simp only: harness_exec.simps)
    (erule (1) topology_start1 topology_connect topology_disconnect topology_crash1 [THEN conjunct1])+

lemma topology_run: "topology_ok cfg \<Longrightarrow> run_all (harness_exec dec) as cfg = Some cfg' \<Longrightarrow> topology_ok cfg'"
  by (induction "as" arbitrary: cfg) (auto simp: Option.bind_eq_Some_conv dest: topology_exec)

section \<open>What the checks say\<close>

text \<open>The logs of applied commands agree wherever two have an entry, and have no gaps.\<close>

definition coherent :: "(int \<rightharpoonup> int) set \<Rightarrow> bool" where
  "coherent L \<longleftrightarrow> (\<forall>l \<in> L. \<forall>l' \<in> L. \<forall>k v v'. l k = Some v \<longrightarrow> l' k = Some v' \<longrightarrow> v = v')
     \<and> (\<forall>l \<in> L. \<forall>k. 1 < k \<longrightarrow> l k \<noteq> None \<longrightarrow> l (k - 1) \<noteq> None)"

lemma coherent_subset: "coherent L \<Longrightarrow> L' \<subseteq> L \<Longrightarrow> coherent L'"
  unfolding coherent_def by (meson subsetD)

definition logs_ok :: "'b config \<Rightarrow> bool" where
  "logs_ok cfg \<longleftrightarrow> (\<forall>err \<in> set (hc_applyErr cfg). err = []) \<and> length (hc_applyErr cfg) = length (hc_logs cfg)
     \<and> coherent (set (hc_logs cfg))"

lemma logs_okD:
  assumes "logs_ok cfg"
  shows "l \<in> set (hc_logs cfg) \<Longrightarrow> l' \<in> set (hc_logs cfg) \<Longrightarrow> l k = Some v \<Longrightarrow> l' k = Some v' \<Longrightarrow> v = v'"
    and "l \<in> set (hc_logs cfg) \<Longrightarrow> 1 < k \<Longrightarrow> l k \<noteq> None \<Longrightarrow> l (k - 1) \<noteq> None"
    and "length (hc_applyErr cfg) = length (hc_logs cfg)" and "err \<in> set (hc_applyErr cfg) \<Longrightarrow> err = []"
  using assms unfolding logs_ok_def coherent_def by blast+

lemma logs_ok_apply:
  assumes ok: "logs_ok cfg" and "check_apply i m cfg = Some cfg'"
  shows "logs_ok cfg'"
proof (cases "CommandValid m")
  case True
  let ?k = "MsgCommandIndex m"
  obtain v l where v: "i < length (hc_logs cfg)" "l = hc_logs cfg ! i" "\<not> (\<exists>l' \<in> set (hc_logs cfg). conflicts ?k v l')"
      "\<not> (1 < ?k \<and> l (?k - 1) = None)" "hc_logs cfg' = (hc_logs cfg)[i := l(?k \<mapsto> v)]" "hc_applyErr cfg' = hc_applyErr cfg"
    using assms(2) True by (auto simp: check_apply_def Let_def Option.bind_eq_Some_conv idx_def split: if_splits)
  let ?new = "l(?k \<mapsto> v)"
  have sub: "set (hc_logs cfg') \<subseteq> insert ?new (set (hc_logs cfg))"
    unfolding v(5) by (rule set_update_subset_insert)
  have l: "l \<in> set (hc_logs cfg)" using v(1,2) by simp
  have same: "w = v" if "l' \<in> set (hc_logs cfg)" "l' ?k = Some w" for l' w
    using v(3) that by (force simp: conflicts_def)
  have agree: "w = w'" if "x \<in> set (hc_logs cfg)" "x k = Some w" "?new k = Some w'" for x k w w'
    using that same [of x w] logs_okD(1) [OF ok that(1) l, of k w w'] by (cases "k = ?k") simp_all
  have gaps: "?new (k - 1) \<noteq> None" if "1 < k" "?new k \<noteq> None" for k
    using that v(4) logs_okD(2) [OF ok l that(1)] by (cases "k = ?k") (simp_all split: if_splits)
  have both: "x k = Some w \<Longrightarrow> y k = Some w' \<Longrightarrow> w = w'"
    if xy: "x \<in> insert ?new (set (hc_logs cfg))" "y \<in> insert ?new (set (hc_logs cfg))" for x y k w w'
  proof -
    assume xw: "x k = Some w" and yw: "y k = Some w'"
    consider "x = ?new" "y = ?new" | "x = ?new" "y \<in> set (hc_logs cfg)" | "x \<in> set (hc_logs cfg)" "y = ?new"
      | "x \<in> set (hc_logs cfg)" "y \<in> set (hc_logs cfg)" using xy by blast
    then show "w = w'"
    proof cases
      case 2
      then show ?thesis using agree [of y k w' w] xw yw by simp
    next
      case 3
      then show ?thesis using agree [of x k w w'] xw yw by simp
    next
      case 4
      then show ?thesis using logs_okD(1) [OF ok] xw yw by blast
    qed (use xw yw in simp)
  qed
  have "coherent (insert ?new (set (hc_logs cfg)))"
    unfolding coherent_def
  proof (intro conjI ballI allI impI)
    show "x (k - 1) \<noteq> None" if "x \<in> insert ?new (set (hc_logs cfg))" "1 < k" "x k \<noteq> None" for x k
      using that gaps logs_okD(2) [OF ok] by blast
  qed (rule both)
  from coherent_subset [OF this sub] show ?thesis
    using logs_okD(3,4) [OF ok] by (simp add: logs_ok_def v(5,6))
qed (use assms in \<open>simp add: check_apply_def\<close>)

lemma logs_ok_run: "logs_ok cfg \<Longrightarrow> run_all (\<lambda>(i, m). check_apply i m) ms cfg = Some cfg' \<Longrightarrow> logs_ok cfg'"
  by (induction ms arbitrary: cfg) (auto simp: Option.bind_eq_Some_conv dest: logs_ok_apply)

lemma logs_ok_empty: "logs_ok (empty_config n unrel)"
  by (auto simp: logs_ok_def coherent_def empty_config_def split: if_splits)

lemma committed_loop_counts:
  assumes "\<forall>p \<in> set ls. fst p = []" and "\<forall>p \<in> set ls. \<forall>v. snd p k = Some v \<longrightarrow> v = w" and "cnt > 0 \<longrightarrow> cmd = w" and "cnt \<ge> 0"
  shows "committed_loop k ls cnt cmd
    = Some (cnt + int (length (filter (\<lambda>p. snd p k \<noteq> None) ls)), if \<exists>p \<in> set ls. snd p k \<noteq> None then w else cmd)"
  using assms
proof (induction ls arbitrary: cnt cmd)
  case (Cons p ls)
  obtain err l where p: "p = (err, l)" by force
  show ?case
  proof (cases "l k")
    case None
    then show ?thesis using Cons p by simp
  next
    case (Some v)
    then have "committed_loop k ls (cnt + 1) v
        = Some (cnt + 1 + int (length (filter (\<lambda>p. snd p k \<noteq> None) ls)), if \<exists>p \<in> set ls. snd p k \<noteq> None then w else v)"
      using Cons.prems p by (intro Cons.IH) auto
    then show ?thesis using Some Cons.prems p by auto
  qed
qed simp

lemma length_filter_zip:
  "length xs = length ys \<Longrightarrow> length (filter (\<lambda>p. P (snd p)) (zip xs ys)) = length (filter P ys)"
  by (induction xs ys rule: list_induct2) simp_all

lemma nCommitted_counts:
  assumes "logs_ok cfg"
  shows "\<exists>cmd. nCommitted k cfg = Some (int (length (filter (\<lambda>l. l k \<noteq> None) (hc_logs cfg))), cmd)
    \<and> (\<forall>l \<in> set (hc_logs cfg). l k = None \<or> l k = Some cmd)"
proof -
  let ?ps = "zip (hc_applyErr cfg) (hc_logs cfg)"
  note ok = logs_okD [OF assms]
  have len: "int (length (filter (\<lambda>p. snd p k \<noteq> None) ?ps)) = int (length (filter (\<lambda>l. l k \<noteq> None) (hc_logs cfg)))"
    using length_filter_zip [OF ok(3), of "\<lambda>l. l k \<noteq> None"] by simp
  have errs: "\<forall>p \<in> set ?ps. fst p = []" using ok(4) by (auto dest: set_zip_leftD)
  show ?thesis
  proof (cases "\<exists>l \<in> set (hc_logs cfg). l k \<noteq> None")
    case True
    then obtain l w where l: "l \<in> set (hc_logs cfg)" "l k = Some w" by auto
    then have w: "\<forall>l' \<in> set (hc_logs cfg). l' k = None \<or> l' k = Some w" using ok(1) [OF _ l(1)] by (metis not_Some_eq)
    then have "nCommitted k cfg = Some (0 + int (length (filter (\<lambda>p. snd p k \<noteq> None) ?ps)),
        if \<exists>p \<in> set ?ps. snd p k \<noteq> None then w else - 1)"
      unfolding nCommitted_def using errs by (intro committed_loop_counts) (auto dest!: set_zip_rightD)
    moreover have "\<exists>p \<in> set ?ps. snd p k \<noteq> None"
      using l ok(3) by (metis (no_types, lifting) in_set_impl_in_set_zip2 option.distinct(1) snd_conv)
    ultimately show ?thesis using w len by simp
  next
    case False
    then have "nCommitted k cfg = Some (0 + int (length (filter (\<lambda>p. snd p k \<noteq> None) ?ps)),
        if \<exists>p \<in> set ?ps. snd p k \<noteq> None then - 1 else - 1)"
      unfolding nCommitted_def using errs by (intro committed_loop_counts) (auto dest!: set_zip_rightD)
    then show ?thesis using False len by simp
  qed
qed

text \<open>
  C18. If the harness accepts every message that the peers apply, then no two peers have applied different
  commands at one index, no peer has skipped an index, and \<open>nCommitted\<close> neither fails nor
  miscounts: it returns the number of peers that have applied the index, with their common command.
\<close>

theorem accepted_applies_agree:
  assumes "run_all (\<lambda>(i, m). check_apply i m) ms (empty_config n unrel) = Some cfg"
  shows "\<exists>cmd. nCommitted k cfg = Some (int (length (filter (\<lambda>l. l k \<noteq> None) (hc_logs cfg))), cmd)
    \<and> (\<forall>l \<in> set (hc_logs cfg). (l k = None \<or> l k = Some cmd) \<and> (1 < k \<longrightarrow> l k \<noteq> None \<longrightarrow> l (k - 1) \<noteq> None))"
proof -
  have ok: "logs_ok cfg" using logs_ok_run logs_ok_empty assms .
  with nCommitted_counts [OF ok, of k] show ?thesis using logs_okD(2) [OF ok] by blast
qed

definition ex_apply :: "int \<Rightarrow> int \<Rightarrow> (int, nat) apply_msg" where
  "ex_apply k v = \<lparr>CommandValid = True, MsgCommand = Some v, MsgCommandIndex = k, UseSnapshot = False, Snapshot = []\<rparr>"

theorem accepted_applies_agree_witness:
  "\<exists>cfg :: nat config. run_all (\<lambda>(i, m). check_apply i m) [(0, ex_apply 1 10), (1, ex_apply 1 10), (1, ex_apply 2 20)] (empty_config 2 False) = Some cfg
    \<and> (\<exists>cmd. nCommitted 1 cfg = Some (2, cmd))"
proof -
  let ?ms = "[(0, ex_apply 1 10), (1, ex_apply 1 10), (1, ex_apply 2 20)]"
  have "map_option (\<lambda>cfg :: nat config. length (filter (\<lambda>l. l 1 \<noteq> None) (hc_logs cfg)))
      (run_all (\<lambda>(i, m). check_apply i m) ?ms (empty_config 2 False)) = Some 2"
    by code_simp
  then obtain cfg :: "nat config" where run: "run_all (\<lambda>(i, m). check_apply i m) ?ms (empty_config 2 False) = Some cfg"
      and two: "length (filter (\<lambda>l. l 1 \<noteq> None) (hc_logs cfg)) = 2" by auto
  with accepted_applies_agree [OF run, of 1] show ?thesis by auto
qed

text \<open>
  C17. However a test starts, crashes, connects and disconnects peers, the ends that can send are exactly
  those from a connected peer to a connected peer, under the names of their present incarnations;
  the end of \<open>i\<close> for \<open>j\<close> leads to server \<open>j\<close>. So the ends of a crashed incarnation cannot send.
\<close>

theorem enabled_ends_join_connected_peers:
  assumes "run_all (harness_exec dec) acts (empty_config n unrel) = Some cfg"
  shows "(is_enabled (hc_net cfg) e
      \<longleftrightarrow> (\<exists>i j. endname cfg i j = Some e \<and> hc_connected cfg ! i \<and> hc_connected cfg ! j))
    \<and> (\<forall>i j. endname cfg i j = Some e \<longrightarrow> nw_connections (hc_net cfg) e = Some j)"
  using topologyD(5,7) [OF topology_run [OF topology_empty assms]] by blast

definition ex_rnd :: "nat \<Rightarrow> nat \<Rightarrow> string" where
  "ex_rnd i j = replicate (Suc (2 * i + j)) CHR ''x''"

text \<open>Two peers are started and connected, the first crashes and is started and connected again.\<close>

definition ex_acts :: "harness_op list" where
  "ex_acts = [HStart (ex_rnd 0) 0 0, HStart (ex_rnd 1) 1 1, HConnect 0, HConnect 1, HCrash 0, HStart (ex_rnd 2) 2 0, HConnect 0]"

definition ex_seen :: "nat config \<Rightarrow> bool list \<times> string option \<times> bool \<times> bool" where
  "ex_seen cfg = (hc_connected cfg, endname cfg 0 1, is_enabled (hc_net cfg) (ex_rnd 0 1), is_enabled (hc_net cfg) (ex_rnd 2 1))"

theorem enabled_ends_join_connected_peers_witness:
  "\<exists>cfg :: nat config. run_all (harness_exec (\<lambda>bs. None)) ex_acts (empty_config 2 False) = Some cfg
    \<and> is_enabled (hc_net cfg) (ex_rnd 2 1) \<and> \<not> is_enabled (hc_net cfg) (ex_rnd 0 1)
    \<and> nw_connections (hc_net cfg) (ex_rnd 2 1) = Some 1"
proof -
  have "map_option ex_seen (run_all (harness_exec (\<lambda>bs. None)) ex_acts (empty_config 2 False))
      = Some ([True, True], Some (ex_rnd 2 1), False, True)"
    by code_simp
  then obtain cfg :: "nat config" where run: "run_all (harness_exec (\<lambda>bs. None)) ex_acts (empty_config 2 False) = Some cfg"
      and seen: "ex_seen cfg = ([True, True], Some (ex_rnd 2 1), False, True)" by auto
  from enabled_ends_join_connected_peers [OF run, of "ex_rnd 2 1"] seen run show ?thesis
    by (auto simp: ex_seen_def)
qed

lemma those_Some: "those xs = Some ys \<Longrightarrow> xs = map Some ys"
  by (simp add: those_eq_Some list_eq_iff_nth_eq)

lemma claims_set:
  assumes "claims cfg = Some leaders"
  shows "(t, i) \<in> set leaders \<longleftrightarrow> i < hc_n cfg \<and> hc_connected cfg ! i
    \<and> (\<exists>rf. hc_rafts cfg ! i = Some rf \<and> State rf = Leader \<and> CurrentTerm rf = t)"
proof -
  let ?L = "filter (\<lambda>i. hc_connected cfg ! i \<and> (case hc_rafts cfg ! i of Some rf \<Rightarrow> snd (GetState rf) | None \<Rightarrow> True)) [0..<hc_n cfg]"
  have "map Some leaders = map (\<lambda>i. do { rf \<leftarrow> hc_rafts cfg ! i; Some (fst (GetState rf), i) }) ?L"
    using assms unfolding claims_def by (rule those_Some [symmetric])
  from arg_cong [where f = set, OF this]
  have "Some ` set leaders = (\<lambda>i. do { rf \<leftarrow> hc_rafts cfg ! i; Some (fst (GetState rf), i) }) ` set ?L"
    by (simp only: list.set_map)
  moreover have "(t, i) \<in> set leaders \<longleftrightarrow> Some (t, i) \<in> Some ` set leaders" by auto
  moreover have "Some (t, i) \<in> (\<lambda>i. do { rf \<leftarrow> hc_rafts cfg ! i; Some (fst (GetState rf), i) }) ` set ?L
      \<longleftrightarrow> i \<in> set ?L \<and> (\<exists>rf. hc_rafts cfg ! i = Some rf \<and> fst (GetState rf) = t)"
    by (auto simp: Option.bind_eq_Some_conv eq_commute [of "Some (t, i)"] image_iff)
  moreover have "i \<in> set ?L \<and> (\<exists>rf. hc_rafts cfg ! i = Some rf \<and> fst (GetState rf) = t) \<longleftrightarrow> i < hc_n cfg \<and> hc_connected cfg ! i
      \<and> (\<exists>rf. hc_rafts cfg ! i = Some rf \<and> State rf = Leader \<and> CurrentTerm rf = t)"
    by (auto simp: GetState_def split: if_splits)
  ultimately show ?thesis by (simp only:)
qed

lemma highest_leader:
  assumes "claims cfg = Some leaders" and "distinct (map fst leaders)" and "map_of leaders (fold max (map fst leaders) (- 1)) = Some i"
  shows "\<exists>rf. i < hc_n cfg \<and> hc_connected cfg ! i \<and> hc_rafts cfg ! i = Some rf \<and> State rf = Leader
    \<and> (\<forall>j rf'. j < hc_n cfg \<longrightarrow> j \<noteq> i \<longrightarrow> hc_connected cfg ! j \<longrightarrow> hc_rafts cfg ! j = Some rf' \<longrightarrow> State rf' = Leader
         \<longrightarrow> CurrentTerm rf' < CurrentTerm rf)"
proof -
  let ?m = "fold max (map fst leaders) (- 1)"
  have mem: "(?m, i) \<in> set leaders" using assms(3) by (rule map_of_SomeD)
  then obtain rf where rf: "i < hc_n cfg" "hc_connected cfg ! i" "hc_rafts cfg ! i = Some rf" "State rf = Leader" "CurrentTerm rf = ?m"
    using claims_set [OF assms(1)] by blast
  have top: "t \<le> ?m" if "(t, j) \<in> set leaders" for t j
  proof -
    have "fold max (map fst leaders) (- 1) = Max (set (- 1 # map fst leaders))" by (simp only: Max.set_eq_fold)
    then show ?thesis using that by (force intro!: Max_ge)
  qed
  have "CurrentTerm rf' < CurrentTerm rf"
    if j: "j < hc_n cfg" "j \<noteq> i" "hc_connected cfg ! j" "hc_rafts cfg ! j = Some rf'" "State rf' = Leader" for j rf'
  proof -
    have at: "(CurrentTerm rf', j) \<in> set leaders" using claims_set [OF assms(1)] j by blast
    moreover have "CurrentTerm rf' \<noteq> ?m" using at map_of_is_SomeI [OF assms(2), of ?m j] assms(3) j(2) by auto
    ultimately show ?thesis using top [OF at] rf(5) by simp
  qed
  then show ?thesis using rf by blast
qed

lemma one_leader_round_Some:
  assumes "one_leader_round cfg = Some (Some i)"
  shows "\<exists>leaders. claims cfg = Some leaders \<and> distinct (map fst leaders)
    \<and> map_of leaders (fold max (map fst leaders) (- 1)) = Some i"
  using assms by (auto simp: one_leader_round_def Option.bind_eq_Some_conv split: if_splits)

lemma leader_rounds_Some: "leader_rounds cfgs = Some i \<Longrightarrow> \<exists>cfg \<in> set cfgs. one_leader_round cfg = Some (Some i)"
  by (induction cfgs) (auto simp: Option.bind_eq_Some_conv split: option.splits)

text \<open>
  A leader that \<open>checkOneLeader\<close> returns was seen, in one of its ten looks, as a connected leader
  whose term is higher than that of every other connected leader.
\<close>

theorem checkOneLeader_returns_highest_leader:
  assumes "checkOneLeader seen = Some i"
  shows "\<exists>k < 10. \<exists>rf. i < hc_n (seen k) \<and> hc_connected (seen k) ! i \<and> hc_rafts (seen k) ! i = Some rf \<and> State rf = Leader
    \<and> (\<forall>j rf'. j < hc_n (seen k) \<longrightarrow> j \<noteq> i \<longrightarrow> hc_connected (seen k) ! j \<longrightarrow> hc_rafts (seen k) ! j = Some rf'
         \<longrightarrow> State rf' = Leader \<longrightarrow> CurrentTerm rf' < CurrentTerm rf)"
proof -
  obtain k where "k < 10" "one_leader_round (seen k) = Some (Some i)"
    using leader_rounds_Some assms unfolding checkOneLeader_def by fastforce
  then show ?thesis using one_leader_round_Some highest_leader by meson
qed

definition ex_leaders :: "nat \<Rightarrow> nat config" where
  "ex_leaders k = (empty_config 2 False)\<lparr>hc_connected := [True, True],
     hc_rafts := [Some ((zero_Raft 2 0 MakePersister)\<lparr>State := if k = 0 then Follower else Leader, CurrentTerm := 3\<rparr>),
                  Some ((zero_Raft 2 1 MakePersister)\<lparr>State := if k = 0 then Follower else Leader, CurrentTerm := 5\<rparr>)]\<rparr>"

theorem checkOneLeader_returns_highest_leader_witness:
  "checkOneLeader ex_leaders = Some 1 \<and> (\<exists>k < 10. hc_connected (ex_leaders k) ! 1)"
proof -
  have run: "checkOneLeader ex_leaders = Some 1" by code_simp
  with checkOneLeader_returns_highest_leader [OF run] show ?thesis by blast
qed

text \<open>
  When \<open>wait\<close> is not told of a term (\<open>startTerm = -1\<close>) and the applied messages were accepted, the
  command that it returns has been applied at the index by at least the number of peers asked for.
\<close>

lemma wait_loop_no_term: "startTerm \<le> - 1 \<Longrightarrow> wait_loop k n startTerm seen later ks = Some moved \<Longrightarrow> \<not> moved"
  by (induction ks) (auto simp: Option.bind_eq_Some_conv split: if_splits)

lemma wait_committed_returns_applied:
  assumes "run_all (\<lambda>(i, m). check_apply i m) ms (empty_config np unrel) = Some final"
    and "wait_committed k n (- 1) seen later final = Some cmd"
  shows "n \<le> int (length (filter (\<lambda>l. l k = Some cmd) (hc_logs final)))"
proof -
  have ok: "logs_ok final" using logs_ok_run logs_ok_empty assms(1) .
  obtain cmd' where c: "nCommitted k final = Some (int (length (filter (\<lambda>l. l k \<noteq> None) (hc_logs final))), cmd')"
      "\<forall>l \<in> set (hc_logs final). l k = None \<or> l k = Some cmd'" using nCommitted_counts [OF ok] by blast
  have "filter (\<lambda>l. l k \<noteq> None) (hc_logs final) = filter (\<lambda>l. l k = Some cmd') (hc_logs final)"
    using c(2) by (auto intro!: filter_cong)
  then show ?thesis
    using assms(2) c(1) by (auto simp: wait_committed_def Option.bind_eq_Some_conv split: if_splits dest: wait_loop_no_term [OF order_refl])
qed

text \<open>An index that \<open>one\<close> returns was seen with the command applied by as many peers as expected, and by one at least.\<close>

lemma agree_loop_True:
  "agree_loop k cmd expected looks = Some True \<Longrightarrow> \<exists>cfg \<in> set looks. \<exists>nd. nCommitted k cfg = Some (nd, cmd) \<and> 0 < nd \<and> expected \<le> nd"
  by (induction looks) (auto simp: Option.bind_eq_Some_conv split: if_splits)

lemma one_loop_committed:
  "one_loop enc cmd expected again n rounds starts = Some k
   \<Longrightarrow> \<exists>cfg \<in> \<Union> (set ` snd ` set rounds). \<exists>nd. nCommitted k cfg = Some (nd, cmd) \<and> 0 < nd \<and> expected \<le> nd"
proof (induction rounds arbitrary: starts)
  case (Cons r rounds)
  obtain seen looks where r: "r = (seen, looks)" by force
  from Cons.prems obtain starts' where "agree_loop k cmd expected looks = Some True
      \<or> one_loop enc cmd expected again n rounds starts' = Some k"
    by (auto simp: r Option.bind_eq_Some_conv split: if_splits)
  then show ?case
  proof
    assume "agree_loop k cmd expected looks = Some True"
    from agree_loop_True [OF this] show ?thesis by (auto simp: r)
  next
    assume "one_loop enc cmd expected again n rounds starts' = Some k"
    from Cons.IH [OF this] show ?thesis by auto
  qed
qed simp

lemmas one_agreement_committed = one_loop_committed [where starts = 0, folded one_agreement_def]

end
