(* ===== verification/Shard_Clients.thy ===== *)
theory Shard_Clients
  imports Raft_Peer
begin

text \<open>
  The sharded service as far as the repository has it: configurations and the clerk of the shard
  master (\<open>src/src/shardmaster/common.go\<close>, \<open>client.go\<close>, \<open>server.go\<close>), the clerk of the sharded key/value
  store (\<open>src/src/shardkv/client.go\<close>, \<open>common.go\<close>), and the servers, whose handlers have empty bodies
  (\<open>src/src/shardmaster/server.go\<close>, \<open>src/src/shardkv/server.go\<close>).

  \<^item> A call on an end is the argument \<open>net\<close>: what \<open>Call\<close> returns and leaves in the reply, by the number of
    calls made so far and the server. \<open>make_end\<close> gives the end of a server name, so servers of a
    group are named by strings.
  \<^item> The clerks loop until a server accepts: the loops have fuel, \<open>None\<close> means that the call does not
    return within it (or that it panics).
\<close>

section \<open>Configurations\<close>

definition NShards :: nat where "NShards = 10"

record Config =
  cfg_Num :: int
  cfg_Shards :: "int list"
  cfg_Groups :: "int \<rightharpoonup> string list"

definition zero_Config :: Config where
  "zero_Config = \<lparr>cfg_Num = 0, cfg_Shards = replicate NShards 0, cfg_Groups = Map.empty\<rparr>"

record JoinArgs = jaServers :: "int \<rightharpoonup> string list"
record LeaveArgs = laGIDs :: "int list"
record MoveArgs =
  maShard :: int
  maGID :: int
record QueryArgs = qaNum :: int

record SmReply =
  smWrongLeader :: bool
  smErr :: string

record QueryReply = SmReply + qrConfig :: Config

section \<open>The shard master\<close>

record 'b ShardMaster =
  sm_me :: nat
  sm_rf :: "(unit, 'b) Raft"
  sm_configs :: "Config list"

definition SM_StartServer :: "(unit, 'b) decoder \<Rightarrow> nat \<Rightarrow> nat \<Rightarrow> 'b Persister \<Rightarrow> 'b ShardMaster option" where
  "SM_StartServer dec n i ps =
     do { rf \<leftarrow> Make dec n i ps; Some \<lparr>sm_me = i, sm_rf = rf, sm_configs = [zero_Config]\<rparr> }"

text \<open>The handlers have no statement: the reply stays as it was.\<close>

definition SM_Join :: "JoinArgs \<Rightarrow> 'b ShardMaster \<Rightarrow> SmReply \<Rightarrow> 'b ShardMaster \<times> SmReply" where
  "SM_Join args sm reply = (sm, reply)"

definition SM_Leave :: "LeaveArgs \<Rightarrow> 'b ShardMaster \<Rightarrow> SmReply \<Rightarrow> 'b ShardMaster \<times> SmReply" where
  "SM_Leave args sm reply = (sm, reply)"

definition SM_Move :: "MoveArgs \<Rightarrow> 'b ShardMaster \<Rightarrow> SmReply \<Rightarrow> 'b ShardMaster \<times> SmReply" where
  "SM_Move args sm reply = (sm, reply)"

definition SM_Query :: "QueryArgs \<Rightarrow> 'b ShardMaster \<Rightarrow> QueryReply \<Rightarrow> 'b ShardMaster \<times> QueryReply" where
  "SM_Query args sm reply = (sm, reply)"

definition SM_Kill :: "'b ShardMaster \<Rightarrow> 'b ShardMaster" where
  "SM_Kill sm = sm\<lparr>sm_rf := Kill (sm_rf sm)\<rparr>"

section \<open>The clerk of the shard master\<close>

type_synonym ('i, 'r) calls = "nat \<Rightarrow> 'i \<Rightarrow> bool \<times> 'r"

record SmClerk = smc_servers :: "nat list"

definition SM_MakeClerk :: "nat list \<Rightarrow> SmClerk" where
  "SM_MakeClerk servers = \<lparr>smc_servers = servers\<rparr>"

text \<open>\<open>for _, srv := range ck.servers\<close>: the number of calls made, and the reply that was accepted.\<close>

fun master_round :: "('i, 'r) calls \<Rightarrow> ('r \<Rightarrow> bool) \<Rightarrow> 'i list \<Rightarrow> nat \<Rightarrow> nat \<times> 'r option" where
  "master_round net wrong [] k = (k, None)"
| "master_round net wrong (srv # srvs) k =
     (let (ok, reply) = net k srv
      in if ok \<and> \<not> wrong reply then (Suc k, Some reply) else master_round net wrong srvs (Suc k))"

definition master_body :: "('i, 'r) calls \<Rightarrow> ('r \<Rightarrow> bool) \<Rightarrow> 'i list \<Rightarrow> nat \<Rightarrow> (nat + nat \<times> 'r) option" where
  "master_body net wrong servers k =
     Some (case master_round net wrong servers k of (k', Some r) \<Rightarrow> Inr (k', r) | (k', None) \<Rightarrow> Inl k')"

definition SM_clerk_Query ::
  "(QueryArgs \<Rightarrow> (nat, QueryReply) calls) \<Rightarrow> nat \<Rightarrow> int \<Rightarrow> SmClerk \<Rightarrow> nat \<Rightarrow> (nat \<times> Config) option" where
  "SM_clerk_Query net fuel num ck k =
     do { (k', r) \<leftarrow> retry (master_body (net \<lparr>qaNum = num\<rparr>) smWrongLeader (smc_servers ck)) fuel k; Some (k', qrConfig r) }"

definition SM_clerk_Join ::
  "(JoinArgs \<Rightarrow> (nat, SmReply) calls) \<Rightarrow> nat \<Rightarrow> (int \<rightharpoonup> string list) \<Rightarrow> SmClerk \<Rightarrow> nat \<Rightarrow> nat option" where
  "SM_clerk_Join net fuel servers ck k =
     do { (k', r) \<leftarrow> retry (master_body (net \<lparr>jaServers = servers\<rparr>) smWrongLeader (smc_servers ck)) fuel k; Some k' }"

definition SM_clerk_Leave ::
  "(LeaveArgs \<Rightarrow> (nat, SmReply) calls) \<Rightarrow> nat \<Rightarrow> int list \<Rightarrow> SmClerk \<Rightarrow> nat \<Rightarrow> nat option" where
  "SM_clerk_Leave net fuel gids ck k =
     do { (k', r) \<leftarrow> retry (master_body (net \<lparr>laGIDs = gids\<rparr>) smWrongLeader (smc_servers ck)) fuel k; Some k' }"

definition SM_clerk_Move ::
  "(MoveArgs \<Rightarrow> (nat, SmReply) calls) \<Rightarrow> nat \<Rightarrow> int \<Rightarrow> int \<Rightarrow> SmClerk \<Rightarrow> nat \<Rightarrow> nat option" where
  "SM_clerk_Move net fuel shard gid ck k =
     do { (k', r) \<leftarrow> retry (master_body (net \<lparr>maShard = shard, maGID = gid\<rparr>) smWrongLeader (smc_servers ck)) fuel k; Some k' }"

section \<open>The sharded store\<close>

record SkGetArgs = sgKey :: string

record SkPutAppendArgs =
  spKey :: string
  spValue :: string
  spOp :: string

record SkReply =
  skWrongLeader :: bool
  skErr :: string

record SkGetReply = SkReply + skValue :: string

record 'b ShardKV =
  sk_me :: nat
  sk_rf :: "(unit, 'b) Raft"
  sk_gid :: int
  sk_masters :: "nat list"
  sk_maxraftstate :: int

definition SK_StartServer ::
  "(unit, 'b) decoder \<Rightarrow> nat \<Rightarrow> nat \<Rightarrow> 'b Persister \<Rightarrow> int \<Rightarrow> int \<Rightarrow> nat list \<Rightarrow> 'b ShardKV option" where
  "SK_StartServer dec n i ps maxraftstate gid masters =
     do { rf \<leftarrow> Make dec n i ps;
          Some \<lparr>sk_me = i, sk_rf = rf, sk_gid = gid, sk_masters = masters, sk_maxraftstate = maxraftstate\<rparr> }"

definition SK_Get :: "SkGetArgs \<Rightarrow> 'b ShardKV \<Rightarrow> SkGetReply \<Rightarrow> 'b ShardKV \<times> SkGetReply" where
  "SK_Get args kv reply = (kv, reply)"

definition SK_PutAppend :: "SkPutAppendArgs \<Rightarrow> 'b ShardKV \<Rightarrow> SkReply \<Rightarrow> 'b ShardKV \<times> SkReply" where
  "SK_PutAppend args kv reply = (kv, reply)"

definition SK_Kill :: "'b ShardKV \<Rightarrow> 'b ShardKV" where
  "SK_Kill kv = kv\<lparr>sk_rf := Kill (sk_rf kv)\<rparr>"

section \<open>The clerk of the sharded store\<close>

text \<open>\<open>int(key[0]) % NShards\<close>, with a byte of the key between 0 and 255.\<close>

definition key2shard :: "string \<Rightarrow> int" where
  "key2shard key = (if key \<noteq> [] then int (of_char (hd key)) else 0) mod int NShards"

record SkClerk =
  skc_sm :: SmClerk
  skc_config :: Config

definition SK_MakeClerk :: "nat list \<Rightarrow> SkClerk" where
  "SK_MakeClerk masters = \<lparr>skc_sm = SM_MakeClerk masters, skc_config = zero_Config\<rparr>"

fun group_round ::
  "(string, 'r) calls \<Rightarrow> ('r \<Rightarrow> bool) \<Rightarrow> ('r \<Rightarrow> bool) \<Rightarrow> string list \<Rightarrow> nat \<Rightarrow> nat \<times> 'r option" where
  "group_round net acc wrongGroup [] j = (j, None)"
| "group_round net acc wrongGroup (srv # srvs) j =
     (let (ok, reply) = net j srv
      in if ok \<and> acc reply then (Suc j, Some reply)
         else if ok \<and> wrongGroup reply then (Suc j, None)
         else group_round net acc wrongGroup srvs (Suc j))"

definition ask_group ::
  "(string, 'r) calls \<Rightarrow> ('r \<Rightarrow> bool) \<Rightarrow> ('r \<Rightarrow> bool) \<Rightarrow> Config \<Rightarrow> int \<Rightarrow> nat \<Rightarrow> nat \<times> 'r option" where
  "ask_group net acc wrongGroup config gid j =
     (case cfg_Groups config gid of
        Some servers \<Rightarrow> group_round net acc wrongGroup servers j
      | None \<Rightarrow> (j, None))"

text \<open>
  One turn of the loop: the shard, its group, the servers of the group; if none accepts, the next
  configuration. The state is the configuration and the numbers of calls made to the masters and to
  the groups; the clerk's master calls have the fuel \<open>mfuel\<close>.
\<close>

definition shard_body ::
  "(QueryArgs \<Rightarrow> (nat, QueryReply) calls) \<Rightarrow> (string, 'r) calls \<Rightarrow> ('r \<Rightarrow> bool) \<Rightarrow> ('r \<Rightarrow> bool) \<Rightarrow> nat \<Rightarrow> SmClerk \<Rightarrow> string
     \<Rightarrow> Config \<times> nat \<times> nat \<Rightarrow> (Config \<times> nat \<times> nat + Config \<times> nat \<times> nat \<times> 'r) option" where
  "shard_body qnet net acc wrongGroup mfuel sm key = (\<lambda>(config, k, j).
     do {
       gid \<leftarrow> idx (cfg_Shards config) (key2shard key);
       let (j', res) = ask_group net acc wrongGroup config gid j;
       case res of
         Some r \<Rightarrow> Some (Inr (config, k, j', r))
       | None \<Rightarrow> do { (k', config') \<leftarrow> SM_clerk_Query qnet mfuel (- 1) sm k; Some (Inl (config', k', j')) }
     })"

definition get_accept :: "SkGetReply \<Rightarrow> bool" where
  "get_accept r \<longleftrightarrow> \<not> skWrongLeader r \<and> (skErr r = ''OK'' \<or> skErr r = ''ErrNoKey'')"

definition put_accept :: "SkReply \<Rightarrow> bool" where
  "put_accept r \<longleftrightarrow> \<not> skWrongLeader r \<and> skErr r = ''OK''"

definition SK_clerk_Get ::
  "(QueryArgs \<Rightarrow> (nat, QueryReply) calls) \<Rightarrow> (SkGetArgs \<Rightarrow> (string, SkGetReply) calls) \<Rightarrow> nat \<Rightarrow> nat \<Rightarrow> string
     \<Rightarrow> nat \<times> nat \<Rightarrow> SkClerk \<Rightarrow> (SkClerk \<times> (nat \<times> nat) \<times> string) option" where
  "SK_clerk_Get qnet net mfuel fuel key = (\<lambda>(k, j) ck.
     do {
       (config, k', j', r) \<leftarrow> retry (shard_body qnet (net \<lparr>sgKey = key\<rparr>) get_accept (\<lambda>r. skErr r = ''ErrWrongGroup'')
                                      mfuel (skc_sm ck) key) fuel (skc_config ck, k, j);
       Some (ck\<lparr>skc_config := config\<rparr>, (k', j'), skValue r)
     })"

definition SK_clerk_PutAppend ::
  "(QueryArgs \<Rightarrow> (nat, QueryReply) calls) \<Rightarrow> (SkPutAppendArgs \<Rightarrow> (string, SkReply) calls) \<Rightarrow> nat \<Rightarrow> nat
     \<Rightarrow> string \<Rightarrow> string \<Rightarrow> string \<Rightarrow> nat \<times> nat \<Rightarrow> SkClerk \<Rightarrow> (SkClerk \<times> (nat \<times> nat)) option" where
  "SK_clerk_PutAppend qnet net mfuel fuel key v op = (\<lambda>(k, j) ck.
     do {
       (config, k', j', r) \<leftarrow> retry (shard_body qnet (net \<lparr>spKey = key, spValue = v, spOp = op\<rparr>) put_accept
                                      (\<lambda>r. skErr r = ''ErrWrongGroup'') mfuel (skc_sm ck) key) fuel (skc_config ck, k, j);
       Some (ck\<lparr>skc_config := config\<rparr>, (k', j'))
     })"

definition SK_clerk_Put where
  "SK_clerk_Put qnet net mfuel fuel key v = SK_clerk_PutAppend qnet net mfuel fuel key v ''Put''"

definition SK_clerk_Append where
  "SK_clerk_Append qnet net mfuel fuel key v = SK_clerk_PutAppend qnet net mfuel fuel key v ''Append''"

section \<open>What the loops return\<close>

lemma master_round_Some:
  "master_round net wrong servers k = (k', Some r) \<Longrightarrow> \<exists>i \<in> set servers. \<exists>n. net n i = (True, r) \<and> \<not> wrong r"
  by (induction servers arbitrary: k) (auto split: prod.splits if_splits)

lemma master_round_total:
  "i \<in> set servers \<Longrightarrow> \<forall>n. fst (net n i) \<and> \<not> wrong (snd (net n i)) \<Longrightarrow> \<exists>k' r. master_round net wrong servers k = (k', Some r)"
proof (induction servers arbitrary: k)
  case (Cons s servers)
  obtain ok r where s: "net k s = (ok, r)" by fastforce
  have "i = s \<Longrightarrow> ok \<and> \<not> wrong r" using Cons.prems(2) s by (metis fst_conv snd_conv)
  with Cons s show ?case by (cases "i = s") auto
qed simp

lemma group_round_Some:
  "group_round net acc wrongGroup servers j = (j', Some r) \<Longrightarrow> \<exists>s \<in> set servers. \<exists>n. net n s = (True, r) \<and> acc r"
  by (induction servers arbitrary: j) (auto split: prod.splits if_splits)

lemma group_round_total:
  assumes "s \<in> set servers" and "\<forall>n. fst (net n s) \<and> acc (snd (net n s))"
    and "\<forall>n. \<forall>s' \<in> set servers. \<not> (fst (net n s') \<and> wrongGroup (snd (net n s')))"
  shows "\<exists>j' r. group_round net acc wrongGroup servers j = (j', Some r)"
  using assms(1,3)
proof (induction servers arbitrary: j)
  case (Cons a servers)
  obtain ok r where a: "net j a = (ok, r)" by fastforce
  have "ok \<longrightarrow> \<not> wrongGroup r" using Cons.prems(2) a by (metis fst_conv snd_conv list.set_intros(1))
  moreover have "a = s \<Longrightarrow> ok \<and> acc r" using assms(2) a by (metis fst_conv snd_conv)
  ultimately show ?case using Cons a by (cases "a = s") auto
qed simp

interpretation master: retry_loop "master_body net wrong servers" "\<lambda>k. True"
  "\<lambda>(k, r). \<exists>i \<in> set servers. \<exists>n. net n i = (True, r) \<and> \<not> wrong r" for net wrong servers
  by unfold_locales (auto simp: master_body_def split: prod.splits option.splits dest!: master_round_Some)

text \<open>A configuration that the clerk had or that a master accepted to tell.\<close>

definition known_config :: "(QueryArgs \<Rightarrow> (nat, QueryReply) calls) \<Rightarrow> nat list \<Rightarrow> Config \<Rightarrow> Config \<Rightarrow> bool" where
  "known_config qnet masters config0 config \<longleftrightarrow> config = config0
     \<or> (\<exists>i \<in> set masters. \<exists>n r. qnet \<lparr>qaNum = - 1\<rparr> n i = (True, r) \<and> \<not> smWrongLeader r \<and> config = qrConfig r)"

text \<open>The reply was given by a server of the group that owns the key's shard in the configuration.\<close>

definition owner_reply :: "(string, 'r) calls \<Rightarrow> ('r \<Rightarrow> bool) \<Rightarrow> string \<Rightarrow> Config \<Rightarrow> 'r \<Rightarrow> bool" where
  "owner_reply net acc key config r \<longleftrightarrow>
     (\<exists>gid servers s n. idx (cfg_Shards config) (key2shard key) = Some gid \<and> cfg_Groups config gid = Some servers
        \<and> s \<in> set servers \<and> net n s = (True, r) \<and> acc r)"

lemma Query_known:
  assumes "SM_clerk_Query qnet fuel (- 1) sm k = Some (k', config)"
  shows "known_config qnet (smc_servers sm) config0 config"
proof -
  obtain r where "retry (master_body (qnet \<lparr>qaNum = - 1\<rparr>) smWrongLeader (smc_servers sm)) fuel k = Some (k', r)" "config = qrConfig r"
    using assms by (auto simp: SM_clerk_Query_def Option.bind_eq_Some_conv)
  with master.retry_good show ?thesis by (fastforce simp: known_config_def)
qed

lemma shard_bodyE:
  assumes "shard_body qnet net acc wrongGroup mfuel sm key (config, k, j) = Some x"
  obtains (found) gid servers j' r where "idx (cfg_Shards config) (key2shard key) = Some gid" "cfg_Groups config gid = Some servers"
      "group_round net acc wrongGroup servers j = (j', Some r)" "x = Inr (config, k, j', r)"
    | (missed) config' k' j' where "SM_clerk_Query qnet mfuel (- 1) sm k = Some (k', config')" "x = Inl (config', k', j')"
proof -
  obtain gid where gid: "idx (cfg_Shards config) (key2shard key) = Some gid"
    using assms by (auto simp: shard_body_def Option.bind_eq_Some_conv)
  obtain j' res where ask: "ask_group net acc wrongGroup config gid j = (j', res)" by fastforce
  show ?thesis
  proof (cases res)
    case None
    with assms gid ask missed show ?thesis by (auto simp: shard_body_def Option.bind_eq_Some_conv)
  next
    case (Some r)
    with assms gid ask have "x = Inr (config, k, j', r)" by (simp add: shard_body_def)
    with ask gid Some found show ?thesis by (cases "cfg_Groups config gid") (auto simp: ask_group_def)
  qed
qed

interpretation shard: retry_loop "shard_body qnet net acc wrongGroup mfuel sm key"
  "\<lambda>(config, k, j). known_config qnet (smc_servers sm) config0 config"
  "\<lambda>(config, k, j, r). known_config qnet (smc_servers sm) config0 config \<and> owner_reply net acc key config r"
  for qnet net acc wrongGroup mfuel sm key config0
proof unfold_locales
  fix s v
  assume inv: "case s of (config, k, j) \<Rightarrow> known_config qnet (smc_servers sm) config0 config"
    and b: "shard_body qnet net acc wrongGroup mfuel sm key s = Some (Inr v)"
  obtain config k j where s: "s = (config, k, j)" by (cases s) auto
  from b [unfolded s] show "case v of (config, k, j, r) \<Rightarrow>
      known_config qnet (smc_servers sm) config0 config \<and> owner_reply net acc key config r"
    by (cases rule: shard_bodyE) (use inv s in \<open>auto simp: owner_reply_def dest!: group_round_Some\<close>)
next
  fix s s'
  assume b: "shard_body qnet net acc wrongGroup mfuel sm key s = Some (Inl s')"
  obtain config k j where s: "s = (config, k, j)" by (cases s) auto
  from b [unfolded s] show "case s' of (config, k, j) \<Rightarrow> known_config qnet (smc_servers sm) config0 config"
    by (cases rule: shard_bodyE) (auto dest: Query_known)
qed

section \<open>When the loops return\<close>

lemma key2shard_range: "0 \<le> key2shard key" "key2shard key < int NShards"
  by (simp_all add: key2shard_def NShards_def)

text \<open>
  The masters have settled on \<open>config\<close>: one of them always answers, and whoever answers as a leader tells
  this configuration.
\<close>

definition masters_settled :: "(QueryArgs \<Rightarrow> (nat, QueryReply) calls) \<Rightarrow> nat list \<Rightarrow> Config \<Rightarrow> bool" where
  "masters_settled qnet masters config \<longleftrightarrow>
     (\<exists>i \<in> set masters. \<forall>n. fst (qnet \<lparr>qaNum = - 1\<rparr> n i) \<and> \<not> smWrongLeader (snd (qnet \<lparr>qaNum = - 1\<rparr> n i)))
     \<and> (\<forall>i \<in> set masters. \<forall>n r. qnet \<lparr>qaNum = - 1\<rparr> n i = (True, r) \<and> \<not> smWrongLeader r \<longrightarrow> qrConfig r = config)"

text \<open>The group that owns the shard of \<open>key\<close> has a server that always accepts, and none denies the shard.\<close>

definition owner_ready :: "(string, 'r) calls \<Rightarrow> ('r \<Rightarrow> bool) \<Rightarrow> ('r \<Rightarrow> bool) \<Rightarrow> string \<Rightarrow> Config \<Rightarrow> bool" where
  "owner_ready net acc wrongGroup key config \<longleftrightarrow>
     length (cfg_Shards config) = NShards
     \<and> (\<exists>servers. cfg_Groups config (cfg_Shards config ! nat (key2shard key)) = Some servers
          \<and> (\<exists>s \<in> set servers. \<forall>n. fst (net n s) \<and> acc (snd (net n s)))
          \<and> (\<forall>n. \<forall>s \<in> set servers. \<not> (fst (net n s) \<and> wrongGroup (snd (net n s)))))"

lemma Query_settled:
  assumes "masters_settled qnet (smc_servers sm) config"
  shows "\<exists>k'. SM_clerk_Query qnet (Suc f) (- 1) sm k = Some (k', config)"
proof -
  from assms obtain i where "i \<in> set (smc_servers sm)"
    "\<forall>n. fst (qnet \<lparr>qaNum = - 1\<rparr> n i) \<and> \<not> smWrongLeader (snd (qnet \<lparr>qaNum = - 1\<rparr> n i))"
    by (auto simp: masters_settled_def)
  from master_round_total [where net = "qnet \<lparr>qaNum = - 1\<rparr>" and wrong = smWrongLeader, OF this] obtain k' r
    where r: "master_round (qnet \<lparr>qaNum = - 1\<rparr>) smWrongLeader (smc_servers sm) k = (k', Some r)" by blast
  with master_round_Some [OF r] assms have "qrConfig r = config" by (auto simp: masters_settled_def)
  with r show ?thesis by (simp add: SM_clerk_Query_def master_body_def)
qed

lemma shard_idx:
  "length (cfg_Shards config) = NShards \<Longrightarrow> idx (cfg_Shards config) (key2shard key) = Some (cfg_Shards config ! nat (key2shard key))"
  using key2shard_range by (simp add: idx_def)

lemma shard_body_ready:
  assumes "owner_ready net acc wrongGroup key config"
  shows "\<exists>v. shard_body qnet net acc wrongGroup mfuel sm key (config, k, j) = Some (Inr v)"
proof -
  from assms obtain servers s where g: "cfg_Groups config (cfg_Shards config ! nat (key2shard key)) = Some servers"
    "s \<in> set servers" "\<forall>n. fst (net n s) \<and> acc (snd (net n s))"
    "\<forall>n. \<forall>s \<in> set servers. \<not> (fst (net n s) \<and> wrongGroup (snd (net n s)))" "length (cfg_Shards config) = NShards"
    by (auto simp: owner_ready_def)
  from group_round_total [where net = net and acc = acc and wrongGroup = wrongGroup, OF g(2,3,4)] obtain j' r where "group_round net acc wrongGroup servers j = (j', Some r)" by blast
  with g(1) shard_idx [OF g(5)] show ?thesis by (simp add: shard_body_def ask_group_def)
qed

lemma shard_body_missed:
  assumes "masters_settled qnet (smc_servers sm) config" and "length (cfg_Shards c) = NShards"
  shows "\<exists>x. shard_body qnet net acc wrongGroup (Suc f) sm key (c, k, j) = Some x \<and> (\<forall>s'. x = Inl s' \<longrightarrow> fst s' = config)"
proof -
  obtain j' res where ask: "ask_group net acc wrongGroup c (cfg_Shards c ! nat (key2shard key)) j = (j', res)" by fastforce
  obtain k' where "SM_clerk_Query qnet (Suc f) (- 1) sm k = Some (k', config)" using Query_settled [OF assms(1)] by blast
  with ask shard_idx [OF assms(2)] show ?thesis by (cases res) (simp_all add: shard_body_def)
qed

lemma shard_loop_returns:
  assumes settled: "masters_settled qnet (smc_servers sm) config" and ready: "owner_ready net acc wrongGroup key config"
    and "length (cfg_Shards c0) = NShards"
  shows "\<exists>v. \<forall>fuel > 1. retry (shard_body qnet net acc wrongGroup (Suc f) sm key) fuel (c0, k, j) = Some v"
proof -
  let ?body = "shard_body qnet net acc wrongGroup (Suc f) sm key"
  let ?rank = "\<lambda>s :: Config \<times> nat \<times> nat. if fst s = config then 0 else 1 :: nat"
  have step: "\<exists>r. ?body s = Some r \<and> (\<forall>s'. r = Inl s' \<longrightarrow> ?rank s' < ?rank s)"
    if inv: "case s of (c, k, j) \<Rightarrow> known_config qnet (smc_servers sm) c0 c" for s
  proof -
    obtain c k j where s: "s = (c, k, j)" by (cases s) auto
    show ?thesis
    proof (cases "c = config")
      case True
      with shard_body_ready [OF ready] s show ?thesis by fastforce
    next
      case False
      with inv s settled have "c = c0" by (auto simp: known_config_def masters_settled_def)
      with shard_body_missed [OF settled assms(3)] False s show ?thesis by fastforce
    qed
  qed
  have "case (c0, k, j) of (c, k, j) \<Rightarrow> known_config qnet (smc_servers sm) c0 c" by (simp add: known_config_def)
  from shard.retry_total [where rank = ?rank, OF step this] obtain v where
    "\<forall>fuel > ?rank (c0, k, j). retry ?body fuel (c0, k, j) = Some v" by blast
  then show ?thesis by (intro exI [of _ v]) auto
qed

section \<open>Properties\<close>

text \<open>
  C31. A value that the sharded store's \<open>Get\<close> returns was given, as the leader and with \<open>OK\<close> or \<open>ErrNoKey\<close>, by a
  server of the group that owns the key's shard, in a configuration that the clerk had or that a
  shard master told it.
\<close>

theorem ShardGet_answers_from_owner:
  assumes "SK_clerk_Get qnet net mfuel fuel key (k, j) ck = Some (ck', kj', v)"
  shows "\<exists>r. known_config qnet (smc_servers (skc_sm ck)) (skc_config ck) (skc_config ck')
    \<and> owner_reply (net \<lparr>sgKey = key\<rparr>) get_accept key (skc_config ck') r \<and> v = skValue r"
proof -
  let ?body = "shard_body qnet (net \<lparr>sgKey = key\<rparr>) get_accept (\<lambda>r. skErr r = ''ErrWrongGroup'') mfuel (skc_sm ck) key"
  obtain config k' j' r where r: "retry ?body fuel (skc_config ck, k, j) = Some (config, k', j', r)"
    "ck' = ck\<lparr>skc_config := config\<rparr>" "v = skValue r"
    using assms by (auto simp: SK_clerk_Get_def Option.bind_eq_Some_conv)
  with shard.retry_good [OF r(1)] show ?thesis by (auto simp: known_config_def)
qed

text \<open>One master, and one group that owns every shard.\<close>

definition ex_config :: Config where
  "ex_config = \<lparr>cfg_Num = 1, cfg_Shards = replicate 10 100, cfg_Groups = [100 \<mapsto> [''s0'', ''s1'']]\<rparr>"

definition ex_masters :: "QueryArgs \<Rightarrow> (nat, QueryReply) calls" where
  "ex_masters args n i = (True, \<lparr>smWrongLeader = False, smErr = ''OK'', qrConfig = ex_config\<rparr>)"

definition ex_groups :: "SkGetArgs \<Rightarrow> (string, SkGetReply) calls" where
  "ex_groups args n s = (s = ''s1'', \<lparr>skWrongLeader = False, skErr = ''OK'', skValue = ''v''\<rparr>)"

theorem ShardGet_answers_from_owner_witness:
  "\<exists>ck' kj' r. SK_clerk_Get ex_masters ex_groups 1 2 ''a'' (0, 0) (SK_MakeClerk [0]) = Some (ck', kj', ''v'')
    \<and> owner_reply (ex_groups \<lparr>sgKey = ''a''\<rparr>) get_accept ''a'' (skc_config ck') r"
proof -
  have "map_option (snd \<circ> snd) (SK_clerk_Get ex_masters ex_groups 1 2 ''a'' (0, 0) (SK_MakeClerk [0])) = Some ''v''"
    by code_simp
  then obtain ck' kj' where ck': "SK_clerk_Get ex_masters ex_groups 1 2 ''a'' (0, 0) (SK_MakeClerk [0]) = Some (ck', kj', ''v'')"
    by auto
  from ShardGet_answers_from_owner [OF ck'] ck' show ?thesis by blast
qed

text \<open>
  \<open>Get\<close> returns: when the shard masters have settled on a configuration, and the group that owns the
  key's shard in it has a server that accepts, two turns of the loop are enough, whatever
  configuration the clerk started with.
\<close>

theorem ShardGet_returns:
  assumes "masters_settled qnet (smc_servers (skc_sm ck)) config"
    and "owner_ready (net \<lparr>sgKey = key\<rparr>) get_accept (\<lambda>r. skErr r = ''ErrWrongGroup'') key config"
    and "length (cfg_Shards (skc_config ck)) = NShards" and "1 < fuel"
  shows "\<exists>res. SK_clerk_Get qnet net (Suc mfuel) fuel key (k, j) ck = Some res"
proof -
  obtain v where "retry (shard_body qnet (net \<lparr>sgKey = key\<rparr>) get_accept (\<lambda>r. skErr r = ''ErrWrongGroup'')
      (Suc mfuel) (skc_sm ck) key) fuel (skc_config ck, k, j) = Some v"
    using shard_loop_returns [OF assms(1-3)] assms(4) by blast
  then show ?thesis by (cases v) (auto simp: SK_clerk_Get_def)
qed

theorem ShardGet_returns_witness:
  "\<exists>res. SK_clerk_Get ex_masters ex_groups 1 2 ''a'' (0, 0) (SK_MakeClerk [0]) = Some res"
proof -
  have "masters_settled ex_masters [0] ex_config" by (simp add: masters_settled_def ex_masters_def)
  moreover have "nat (key2shard ''a'') < 10" using key2shard_range [of "''a''"] by (simp add: NShards_def)
  then have "owner_ready (ex_groups \<lparr>sgKey = ''a''\<rparr>) get_accept (\<lambda>r. skErr r = ''ErrWrongGroup'') ''a'' ex_config"
    by (auto simp: owner_ready_def ex_config_def ex_groups_def get_accept_def NShards_def)
  ultimately show ?thesis
    using ShardGet_returns [of ex_masters "SK_MakeClerk [0]" ex_config ex_groups "''a''" 2 0 0 0]
    by (simp add: SK_MakeClerk_def SM_MakeClerk_def zero_Config_def)
qed

text \<open>
  The handlers of the repository's \<open>ShardKV\<close> do nothing: a reply that a server sends is the zero reply it was
  given, whose \<open>Err\<close> is neither \<open>OK\<close> nor \<open>ErrNoKey\<close>. With these servers \<open>Get\<close> never returns.
\<close>

definition zero_GetReply :: SkGetReply where
  "zero_GetReply = \<lparr>skWrongLeader = False, skErr = [], skValue = []\<rparr>"

theorem ShardGet_never_returns_on_stubs:
  assumes "\<forall>n s. fst (net \<lparr>sgKey = key\<rparr> n s) \<longrightarrow> (\<exists>kv. snd (net \<lparr>sgKey = key\<rparr> n s) = snd (SK_Get \<lparr>sgKey = key\<rparr> kv zero_GetReply))"
  shows "SK_clerk_Get qnet net mfuel fuel key (k, j) ck = None"
proof (rule ccontr)
  let ?body = "shard_body qnet (net \<lparr>sgKey = key\<rparr>) get_accept (\<lambda>r. skErr r = ''ErrWrongGroup'') mfuel (skc_sm ck) key"
  assume "SK_clerk_Get qnet net mfuel fuel key (k, j) ck \<noteq> None"
  then obtain config k' j' r where "retry ?body fuel (skc_config ck, k, j) = Some (config, k', j', r)"
    by (auto simp: SK_clerk_Get_def Option.bind_eq_Some_conv)
  from shard.retry_good [where ?config0.0 = "skc_config ck", OF this] obtain s n where "net \<lparr>sgKey = key\<rparr> n s = (True, r)" "get_accept r"
    by (auto simp: known_config_def owner_reply_def)
  with assms show False by (metis (no_types, lifting) SK_Get_def SkReply.select_convs(2) fst_conv get_accept_def
      list.distinct(1) snd_conv zero_GetReply_def)
qed

end
