(* ===== verification/Service_Harness.thy ===== *)
theory Service_Harness
  imports Raft_Harness Kv_Server Shard_Clients "HOL-Library.Multiset"
begin

text \<open>
  The harnesses of the tests of the key/value service (\<open>src/src/kvraft/config.go\<close>) and of the shard master
  (\<open>src/src/shardmaster/config.go\<close>). Apart from the type of the server and the statistics the two files are
  the same program, so the model takes the server's constructor and methods as the record \<open>service\<close>;
  \<open>kv_service\<close> and \<open>sm_service\<close> are the two values of it.

  \<^item> A server that runs shares the persister with \<open>cfg.saved[i]\<close>.
  \<^item> A clerk is known by its number; \<open>random_handles\<close> gets the values of \<open>rand.Intn\<close>.
  \<^item> \<open>deleteClient\<close> also removes files named like the ends, which do not exist.
  \<^item> An index out of range, a call on \<open>nil\<close> and \<open>log.Fatalf\<close> are \<open>None\<close>.
\<close>

section \<open>The service under test\<close>

record ('sv, 'b) service =
  svc_start :: "nat \<Rightarrow> nat \<Rightarrow> 'b Persister \<Rightarrow> 'sv option"
  svc_kill :: "'sv \<Rightarrow> 'sv"
  svc_persister :: "'sv \<Rightarrow> 'b Persister"
  svc_state :: "'sv \<Rightarrow> int \<times> bool"

definition kv_service :: "(Op, 'b) decoder \<Rightarrow> int \<Rightarrow> ('b KVServer, 'b) service" where
  "kv_service dec maxraftstate =
     \<lparr>svc_start = (\<lambda>n i ps. StartKVServer dec n i ps maxraftstate), svc_kill = KillServer,
      svc_persister = (\<lambda>kv. persister (kv_rf kv)), svc_state = (\<lambda>kv. GetState (kv_rf kv))\<rparr>"

definition sm_service :: "(unit, 'b) decoder \<Rightarrow> ('b ShardMaster, 'b) service" where
  "sm_service dec =
     \<lparr>svc_start = SM_StartServer dec, svc_kill = SM_Kill,
      svc_persister = (\<lambda>sm. persister (sm_rf sm)), svc_state = (\<lambda>sm. GetState (sm_rf sm))\<rparr>"

section \<open>The configuration\<close>

record ('sv, 'b) sconfig =
  s_net :: "(string, nat) Network"
  s_n :: nat
  s_servers :: "'sv option list"
  s_saved :: "'b Persister option list"
  s_endnames :: "string list option list"
  s_clerks :: "nat \<rightharpoonup> string list"
  s_nextClientId :: int
  s_rpcs0 :: int
  s_ops :: "32 word"

definition s_endname :: "('sv, 'b) sconfig \<Rightarrow> nat \<Rightarrow> nat \<Rightarrow> string option" where
  "s_endname cfg i j = do { ns \<leftarrow> idx (s_endnames cfg) (int i); names \<leftarrow> ns; idx names (int j) }"

section \<open>Handles\<close>

definition handle_swap :: "(nat \<Rightarrow> nat) \<Rightarrow> nat \<Rightarrow> 'x list \<Rightarrow> 'x list" where
  "handle_swap intn i sa = (let j = intn i mod Suc i in sa[i := sa ! j, j := sa ! i])"

definition random_handles :: "(nat \<Rightarrow> nat) \<Rightarrow> 'x list \<Rightarrow> 'x list" where
  "random_handles intn kvh = fold (handle_swap intn) [0..<length kvh] kvh"

section \<open>Connections\<close>

text \<open>One loop over a list of servers; \<open>guard\<close> gets the loop counter, \<open>name\<close> the server.\<close>

fun switch_loop ::
  "(nat \<Rightarrow> bool option) \<Rightarrow> (nat \<Rightarrow> string option) \<Rightarrow> bool \<Rightarrow> nat \<Rightarrow> nat list
     \<Rightarrow> (string, nat) Network \<Rightarrow> (string, nat) Network option" where
  "switch_loop guard name b j [] rn = Some rn"
| "switch_loop guard name b j (x # xs) rn =
     do {
       g \<leftarrow> guard j;
       if g then do { e \<leftarrow> name x; switch_loop guard name b (Suc j) xs (Enable e b rn) }
       else switch_loop guard name b (Suc j) xs rn
     }"

definition connectUnlocked :: "nat \<Rightarrow> nat list \<Rightarrow> ('sv, 'b) sconfig \<Rightarrow> ('sv, 'b) sconfig option" where
  "connectUnlocked i to cfg =
     do {
       rn1 \<leftarrow> switch_loop (\<lambda>j. Some True) (\<lambda>x. s_endname cfg i x) True 0 to (s_net cfg);
       rn2 \<leftarrow> switch_loop (\<lambda>j. Some True) (\<lambda>x. s_endname cfg x i) True 0 to rn1;
       Some (cfg\<lparr>s_net := rn2\<rparr>)
     }"

definition named_at :: "('sv, 'b) sconfig \<Rightarrow> nat \<Rightarrow> bool option" where
  "named_at cfg i = do { ns \<leftarrow> idx (s_endnames cfg) (int i); Some (ns \<noteq> None) }"

text \<open>The second loop tests \<open>cfg.endnames[j]\<close> and then reads \<open>cfg.endnames[from[j]][i]\<close>.\<close>

definition disconnectUnlocked :: "nat \<Rightarrow> nat list \<Rightarrow> ('sv, 'b) sconfig \<Rightarrow> ('sv, 'b) sconfig option" where
  "disconnectUnlocked i fr cfg =
     do {
       rn1 \<leftarrow> switch_loop (\<lambda>j. named_at cfg i) (\<lambda>x. s_endname cfg i x) False 0 fr (s_net cfg);
       rn2 \<leftarrow> switch_loop (named_at cfg) (\<lambda>x. s_endname cfg x i) False 0 fr rn1;
       Some (cfg\<lparr>s_net := rn2\<rparr>)
     }"

definition All_servers :: "('sv, 'b) sconfig \<Rightarrow> nat list" where
  "All_servers cfg = [0..<s_n cfg]"

definition ConnectAll :: "('sv, 'b) sconfig \<Rightarrow> ('sv, 'b) sconfig option" where
  "ConnectAll cfg = run_all (\<lambda>i c. connectUnlocked i (All_servers c) c) [0..<s_n cfg] cfg"

definition rejoin :: "nat list \<Rightarrow> nat list \<Rightarrow> nat \<Rightarrow> ('sv, 'b) sconfig \<Rightarrow> ('sv, 'b) sconfig option" where
  "rejoin own other i cfg = do { cfg1 \<leftarrow> disconnectUnlocked i other cfg; connectUnlocked i own cfg1 }"

definition partition_net :: "nat list \<Rightarrow> nat list \<Rightarrow> ('sv, 'b) sconfig \<Rightarrow> ('sv, 'b) sconfig option" where
  "partition_net p1 p2 cfg = do { cfg1 \<leftarrow> run_all (rejoin p1 p2) p1 cfg; run_all (rejoin p2 p1) p2 cfg1 }"

section \<open>Clerks\<close>

definition switch_client :: "bool \<Rightarrow> nat \<Rightarrow> nat list \<Rightarrow> ('sv, 'b) sconfig \<Rightarrow> ('sv, 'b) sconfig option" where
  "switch_client b ck js cfg =
     (let endnames = (case s_clerks cfg ck of Some ns \<Rightarrow> ns | None \<Rightarrow> [])
      in do { rn \<leftarrow> switch_loop (\<lambda>j. Some True) (\<lambda>x. idx endnames (int x)) b 0 js (s_net cfg); Some (cfg\<lparr>s_net := rn\<rparr>) })"

definition ConnectClientUnlocked :: "nat \<Rightarrow> nat list \<Rightarrow> ('sv, 'b) sconfig \<Rightarrow> ('sv, 'b) sconfig option" where
  "ConnectClientUnlocked ck to cfg = switch_client True ck to cfg"

definition DisconnectClientUnlocked :: "nat \<Rightarrow> nat list \<Rightarrow> ('sv, 'b) sconfig \<Rightarrow> ('sv, 'b) sconfig option" where
  "DisconnectClientUnlocked ck fr cfg = switch_client False ck fr cfg"

text \<open>\<open>ck\<close> is the new clerk; the handles are what \<open>MakeClerk\<close> is given.\<close>

definition makeClient ::
  "(nat \<Rightarrow> string) \<Rightarrow> (nat \<Rightarrow> nat) \<Rightarrow> nat \<Rightarrow> nat list \<Rightarrow> ('sv, 'b) sconfig \<Rightarrow> (('sv, 'b) sconfig \<times> string list) option" where
  "makeClient rnd intn ck to cfg =
     do {
       let endnames = map rnd [0..<s_n cfg];
       rn \<leftarrow> make_ends 0 endnames (s_net cfg);
       cfg1 \<leftarrow> ConnectClientUnlocked ck to
                (cfg\<lparr>s_net := rn, s_clerks := (s_clerks cfg)(ck \<mapsto> endnames), s_nextClientId := s_nextClientId cfg + 1\<rparr>);
       Some (cfg1, random_handles intn endnames)
     }"

definition deleteClient :: "nat \<Rightarrow> ('sv, 'b) sconfig \<Rightarrow> ('sv, 'b) sconfig" where
  "deleteClient ck cfg = cfg\<lparr>s_clerks := (s_clerks cfg)(ck := None)\<rparr>"

section \<open>Servers\<close>

definition s_saved_of :: "('sv, 'b) service \<Rightarrow> ('sv, 'b) sconfig \<Rightarrow> nat \<Rightarrow> 'b Persister option" where
  "s_saved_of svc cfg i = (case s_servers cfg ! i of Some sv \<Rightarrow> Some (svc_persister svc sv) | None \<Rightarrow> s_saved cfg ! i)"

definition ShutdownServer :: "('sv, 'b) service \<Rightarrow> nat \<Rightarrow> ('sv, 'b) sconfig \<Rightarrow> ('sv, 'b) sconfig option" where
  "ShutdownServer svc i cfg =
     do {
       cfg1 \<leftarrow> disconnectUnlocked i (All_servers cfg) cfg;
       saved \<leftarrow> set_idx (s_saved cfg1) (int i) (map_option Copy (s_saved_of svc cfg1 i));
       Some (cfg1\<lparr>s_net := DeleteServer i (s_net cfg1), s_saved := saved,
                  s_servers := (s_servers cfg1)[i := None]\<rparr>)
     }"

definition StartServer ::
  "('sv, 'b) service \<Rightarrow> (nat \<Rightarrow> string) \<Rightarrow> nat \<Rightarrow> nat \<Rightarrow> ('sv, 'b) sconfig \<Rightarrow> ('sv, 'b) sconfig option" where
  "StartServer svc rnd srv i cfg =
     do {
       let names = map rnd [0..<s_n cfg];
       endnames \<leftarrow> set_idx (s_endnames cfg) (int i) (Some names);
       rn \<leftarrow> make_ends 0 names (s_net cfg);
       let saved = (case s_saved_of svc cfg i of Some ps \<Rightarrow> Copy ps | None \<Rightarrow> MakePersister);
       sv \<leftarrow> svc_start svc (s_n cfg) i saved;
       Some (cfg\<lparr>s_endnames := endnames, s_saved := (s_saved cfg)[i := Some saved],
                 s_servers := (s_servers cfg)[i := Some sv], s_net := AddServer i srv rn\<rparr>)
     }"

text \<open>The method \<open>Leader\<close>.\<close>

fun leader_loop :: "('sv, 'b) service \<Rightarrow> nat \<Rightarrow> 'sv option list \<Rightarrow> (bool \<times> nat) option" where
  "leader_loop svc i [] = Some (False, 0)"
| "leader_loop svc i (s # ss) = do { sv \<leftarrow> s; if snd (svc_state svc sv) then Some (True, i) else leader_loop svc (Suc i) ss }"

definition find_leader :: "('sv, 'b) service \<Rightarrow> ('sv, 'b) sconfig \<Rightarrow> (bool \<times> nat) option" where
  "find_leader svc cfg = leader_loop svc 0 (take (s_n cfg) (s_servers cfg))"

fun part_loop :: "nat \<Rightarrow> nat list \<Rightarrow> nat \<Rightarrow> nat list \<Rightarrow> nat list \<Rightarrow> (nat list \<times> nat list) option" where
  "part_loop l [] j p1 p2 = Some (p1, p2)"
| "part_loop l (i # is) j p1 p2 =
     (if i \<noteq> l
      then if j < length p1 then do { p1' \<leftarrow> set_idx p1 (int j) i; part_loop l is (Suc j) p1' p2 }
           else do { p2' \<leftarrow> set_idx p2 (int j - int (length p1)) i; part_loop l is (Suc j) p1 p2' }
      else part_loop l is j p1 p2)"

definition make_partition :: "('sv, 'b) service \<Rightarrow> ('sv, 'b) sconfig \<Rightarrow> (nat list \<times> nat list) option" where
  "make_partition svc cfg =
     do {
       (found, l) \<leftarrow> find_leader svc cfg;
       let n = s_n cfg;
       (p1, p2) \<leftarrow> part_loop l [0..<n] 0 (replicate (n div 2 + 1) 0) (replicate (n div 2) 0);
       p2' \<leftarrow> set_idx p2 (int (length p2) - 1) l;
       Some (p1, p2')
     }"

section \<open>Setting up, statistics, cleaning up\<close>

definition empty_sconfig :: "nat \<Rightarrow> ('sv, 'b) sconfig" where
  "empty_sconfig n =
     \<lparr>s_net = MakeNetwork, s_n = n, s_servers = replicate n None, s_saved = replicate n None,
      s_endnames = replicate n None, s_clerks = Map.empty, s_nextClientId = int n + 1000, s_rpcs0 = 0, s_ops = 0\<rparr>"

definition make_sconfig ::
  "('sv, 'b) service \<Rightarrow> (nat \<Rightarrow> nat \<Rightarrow> string) \<Rightarrow> nat \<Rightarrow> bool \<Rightarrow> ('sv, 'b) sconfig option" where
  "make_sconfig svc rnd n unreliable =
     do {
       cfg1 \<leftarrow> run_all (\<lambda>i. StartServer svc (rnd i) i i) [0..<n] (empty_sconfig n);
       cfg2 \<leftarrow> ConnectAll cfg1;
       Some (cfg2\<lparr>s_net := Reliable (\<not> unreliable) (s_net cfg2)\<rparr>)
     }"

text \<open>The largest size of a saved state; a server without a persister is \<open>None\<close>.\<close>

definition max_saved :: "('b Persister \<Rightarrow> int) \<Rightarrow> ('sv, 'b) service \<Rightarrow> ('sv, 'b) sconfig \<Rightarrow> int option" where
  "max_saved sz svc cfg =
     do { ps \<leftarrow> those (map (s_saved_of svc cfg) [0..<s_n cfg]); Some (fold (\<lambda>p m. if sz p > m then sz p else m) ps 0) }"

definition LogSize :: "('sv, 'b) service \<Rightarrow> ('sv, 'b) sconfig \<Rightarrow> int option" where
  "LogSize svc cfg = max_saved RaftStateSize svc cfg"

definition max_SnapshotSize :: "('sv, 'b) service \<Rightarrow> ('sv, 'b) sconfig \<Rightarrow> int option" where
  "max_SnapshotSize svc cfg = max_saved SnapshotSize svc cfg"

definition s_cleanup :: "('sv, 'b) service \<Rightarrow> ('sv, 'b) sconfig \<Rightarrow> ('sv, 'b) sconfig option" where
  "s_cleanup svc cfg =
     do { rn \<leftarrow> Cleanup (s_net cfg); Some (cfg\<lparr>s_servers := map (map_option (svc_kill svc)) (s_servers cfg), s_net := rn\<rparr>) }"

definition s_rpcTotal :: "('sv, 'b) sconfig \<Rightarrow> int" where
  "s_rpcTotal cfg = GetTotalCount (s_net cfg)"

definition s_begin :: "('sv, 'b) sconfig \<Rightarrow> ('sv, 'b) sconfig" where
  "s_begin cfg = cfg\<lparr>s_rpcs0 := s_rpcTotal cfg, s_ops := 0\<rparr>"

definition s_op :: "('sv, 'b) sconfig \<Rightarrow> ('sv, 'b) sconfig" where
  "s_op cfg = cfg\<lparr>s_ops := s_ops cfg + 1\<rparr>"

text \<open>
  \<open>checkTimeout\<close> with the seconds since the start of the test, \<open>None\<close> for \<open>t.Fatal\<close>; and the numbers that \<open>end\<close>
  prints, if the test has not failed.
\<close>

definition checkTimeout :: "bool \<Rightarrow> int \<Rightarrow> unit option" where
  "checkTimeout failed seconds = (if \<not> failed \<and> seconds > 120 then None else Some ())"

definition end_report :: "bool \<Rightarrow> int \<Rightarrow> ('sv, 'b) sconfig \<Rightarrow> (nat \<times> int \<times> int) option option" where
  "end_report failed seconds cfg =
     do {
       checkTimeout failed seconds;
       Some (if failed then None else Some (s_n cfg, s_rpcTotal cfg - s_rpcs0 cfg, sint (s_ops cfg)))
     }"

section \<open>The mutex of the harness\<close>

text \<open>
  The methods that take \<open>cfg.mu\<close>: the first component says whether the calling goroutine holds it. \<open>sync.Mutex\<close> is not
  reentrant, so a holder that locks again waits forever: \<open>None\<close>.
\<close>

definition locked :: "('cfg \<Rightarrow> 'cfg option) \<Rightarrow> bool \<times> 'cfg \<Rightarrow> (bool \<times> 'cfg) option" where
  "locked f = (\<lambda>(held, cfg). if held then None else do { cfg' \<leftarrow> f cfg; Some (held, cfg') })"

definition s_connect :: "nat \<Rightarrow> nat list \<Rightarrow> bool \<times> ('sv, 'b) sconfig \<Rightarrow> (bool \<times> ('sv, 'b) sconfig) option" where
  "s_connect i to = locked (connectUnlocked i to)"

definition s_disconnect :: "nat \<Rightarrow> nat list \<Rightarrow> bool \<times> ('sv, 'b) sconfig \<Rightarrow> (bool \<times> ('sv, 'b) sconfig) option" where
  "s_disconnect i fr = locked (disconnectUnlocked i fr)"

definition ConnectClient :: "nat \<Rightarrow> nat list \<Rightarrow> bool \<times> ('sv, 'b) sconfig \<Rightarrow> (bool \<times> ('sv, 'b) sconfig) option" where
  "ConnectClient ck to = locked (ConnectClientUnlocked ck to)"

definition DisconnectClient :: "nat \<Rightarrow> nat list \<Rightarrow> bool \<times> ('sv, 'b) sconfig \<Rightarrow> (bool \<times> ('sv, 'b) sconfig) option" where
  "DisconnectClient ck fr = locked (DisconnectClientUnlocked ck fr)"

text \<open>A method under the lock may call the unlocked variants one after the other, but not one that locks.\<close>

lemma locked_seq: "do { c \<leftarrow> locked f s; locked g c } = locked (\<lambda>cfg. Option.bind (f cfg) g) s"
  by (cases s) (simp add: locked_def Option.bind_assoc)

lemma locked_reentry: "locked (\<lambda>cfg. map_option snd (locked f (True, cfg))) (held, cfg) = None"
  by (simp add: locked_def)

section \<open>Shuffling\<close>

text \<open>A clerk gets each handle once, whatever the random numbers.\<close>

lemma handle_swap_mset:
  assumes "i < length sa"
  shows "mset (handle_swap intn i sa) = mset sa"
proof -
  have "intn i mod Suc i < length sa" using assms mod_less_divisor [of "Suc i" "intn i"] by linarith
  from mset_swap [OF this assms] show ?thesis by (simp add: handle_swap_def Let_def)
qed

lemma random_handles_mset: "mset (random_handles intn kvh) = mset kvh"
proof -
  have "mset (fold (handle_swap intn) js sa) = mset sa" if "set js \<subseteq> {..<length sa}" for js and sa :: "'a list"
    using that
  proof (induction js arbitrary: sa)
    case (Cons i js)
    have "length (handle_swap intn i sa) = length sa" by (simp add: handle_swap_def Let_def)
    then show ?case using Cons.IH [of "handle_swap intn i sa"] Cons.prems handle_swap_mset [of i sa intn] by simp
  qed simp
  then show ?thesis by (simp add: random_handles_def atLeast0LessThan)
qed

section \<open>Partitions of the network\<close>

lemma set_ends_set_ends: "set_ends T b (set_ends S b rn) = set_ends (\<lambda>e. S e \<or> T e) b rn"
proof -
  have "(\<lambda>e. if T e then Some b else if S e then Some b else nw_enabled rn e) = (\<lambda>e. if S e \<or> T e then Some b else nw_enabled rn e)" by auto
  then show ?thesis by (simp add: set_ends_def cong: if_cong)
qed

lemma set_ends_Enable: "set_ends T b (Enable e b rn) = set_ends (\<lambda>x. x = e \<or> T x) b rn"
proof -
  have "(\<lambda>x. if T x then Some b else ((nw_enabled rn)(e \<mapsto> b)) x) = (\<lambda>x. if x = e \<or> T x then Some b else nw_enabled rn x)" by auto
  then show ?thesis by (simp add: set_ends_def Enable_def cong: if_cong)
qed

lemma switch_loop_all:
  assumes "\<forall>k < length xs. guard (j + k) = Some True" and "\<forall>x \<in> set xs. name x = Some (f x)"
  shows "switch_loop guard name b j xs rn = Some (set_ends (\<lambda>e. e \<in> f ` set xs) b rn)"
  using assms
proof (induction xs arbitrary: j rn)
  case Nil
  then show ?case by (simp add: set_ends_def)
next
  case (Cons x xs)
  have g: "guard j = Some True" using Cons.prems(1) by force
  have "\<forall>k < length xs. guard (Suc j + k) = Some True" using Cons.prems(1) by force
  from Cons.IH [OF this] Cons.prems(2) show ?case by (simp add: g set_ends_Enable)
qed

text \<open>All servers have been started: there is a name for every pair, and no two pairs share one.\<close>

definition ready :: "('sv, 'b) sconfig \<Rightarrow> bool" where
  "ready cfg \<longleftrightarrow> length (s_endnames cfg) = s_n cfg
     \<and> (\<forall>i < s_n cfg. \<exists>names. s_endnames cfg ! i = Some names \<and> length names = s_n cfg)
     \<and> (\<forall>i < s_n cfg. \<forall>j < s_n cfg. \<forall>i' < s_n cfg. \<forall>j' < s_n cfg.
          s_endname cfg i j = s_endname cfg i' j' \<longrightarrow> i = i' \<and> j = j')"

definition s_end :: "('sv, 'b) sconfig \<Rightarrow> nat \<Rightarrow> nat \<Rightarrow> string" where
  "s_end cfg i j = the (s_endname cfg i j)"

definition linked :: "('sv, 'b) sconfig \<Rightarrow> nat \<Rightarrow> nat \<Rightarrow> bool" where
  "linked cfg i j = is_enabled (s_net cfg) (s_end cfg i j)"

lemma ready_endname: "ready cfg \<Longrightarrow> i < s_n cfg \<Longrightarrow> j < s_n cfg \<Longrightarrow> s_endname cfg i j = Some (s_end cfg i j)"
  by (auto simp: ready_def s_end_def s_endname_def)

lemma ready_end_eq:
  "ready cfg \<Longrightarrow> i < s_n cfg \<Longrightarrow> j < s_n cfg \<Longrightarrow> i' < s_n cfg \<Longrightarrow> j' < s_n cfg
   \<Longrightarrow> s_end cfg i j = s_end cfg i' j' \<longleftrightarrow> i = i' \<and> j = j'"
  using ready_endname unfolding ready_def by metis

lemma ready_named_at: "ready cfg \<Longrightarrow> i < s_n cfg \<Longrightarrow> named_at cfg i = Some True"
  by (auto simp: ready_def named_at_def)

lemma connectUnlocked_ready:
  assumes "ready cfg" and "i < s_n cfg" and "set to \<subseteq> {..<s_n cfg}"
  shows "connectUnlocked i to cfg = Some (cfg\<lparr>s_net := set_ends (\<lambda>e. e \<in> s_end cfg i ` set to \<or> e \<in> (\<lambda>x. s_end cfg x i) ` set to)
    True (s_net cfg)\<rparr>)"
proof -
  have out: "\<forall>x \<in> set to. s_endname cfg i x = Some (s_end cfg i x)" and inn: "\<forall>x \<in> set to. s_endname cfg x i = Some (s_end cfg x i)"
    using assms ready_endname by blast+
  show ?thesis
    unfolding connectUnlocked_def
    by (simp add: switch_loop_all [OF _ out] switch_loop_all [OF _ inn] set_ends_set_ends)
qed

lemma disconnectUnlocked_ready:
  assumes "ready cfg" and "i < s_n cfg" and "set fr \<subseteq> {..<s_n cfg}" and "length fr \<le> s_n cfg"
  shows "disconnectUnlocked i fr cfg = Some (cfg\<lparr>s_net := set_ends (\<lambda>e. e \<in> s_end cfg i ` set fr \<or> e \<in> (\<lambda>x. s_end cfg x i) ` set fr)
    False (s_net cfg)\<rparr>)"
proof -
  have out: "\<forall>x \<in> set fr. s_endname cfg i x = Some (s_end cfg i x)" and inn: "\<forall>x \<in> set fr. s_endname cfg x i = Some (s_end cfg x i)"
    using assms ready_endname by blast+
  have g1: "\<forall>k < length fr. named_at cfg i = Some True" and g2: "\<forall>k < length fr. named_at cfg (0 + k) = Some True"
    using assms ready_named_at [OF assms(1)] by simp_all
  show ?thesis
    unfolding disconnectUnlocked_def
    by (simp add: switch_loop_all [OF g1 out] switch_loop_all [OF g2 inn] set_ends_set_ends)
qed

text \<open>The links after one turn of \<open>partition\<close>.\<close>

lemma s_net_update [simp]:
  "s_endname (cfg\<lparr>s_net := rn\<rparr>) i j = s_endname cfg i j" "s_end (cfg\<lparr>s_net := rn\<rparr>) i j = s_end cfg i j"
  "ready (cfg\<lparr>s_net := rn\<rparr>) = ready cfg" "linked (cfg\<lparr>s_net := rn\<rparr>) i j = is_enabled rn (s_end cfg i j)"
  by (simp_all add: s_endname_def s_end_def ready_def linked_def)

definition touched :: "nat set \<Rightarrow> nat set \<Rightarrow> nat \<Rightarrow> nat \<Rightarrow> bool" where
  "touched L S x y \<longleftrightarrow> x \<in> L \<and> y \<in> S \<or> y \<in> L \<and> x \<in> S"

lemma ends_touched:
  assumes "ready cfg" and "i < s_n cfg" and "S \<subseteq> {..<s_n cfg}" and "x < s_n cfg" and "y < s_n cfg"
  shows "s_end cfg x y \<in> s_end cfg i ` S \<or> s_end cfg x y \<in> (\<lambda>z. s_end cfg z i) ` S \<longleftrightarrow> touched {i} S x y"
  using assms ready_end_eq [OF assms(1)] by (auto simp: touched_def image_iff)

lemma rejoin_links:
  assumes r: "ready cfg" and i: "i < s_n cfg" and own: "set own \<subseteq> {..<s_n cfg}" and other: "set other \<subseteq> {..<s_n cfg}"
    and len: "length other \<le> s_n cfg"
  shows "\<exists>rn. rejoin own other i cfg = Some (cfg\<lparr>s_net := rn\<rparr>) \<and> (\<forall>x < s_n cfg. \<forall>y < s_n cfg.
    linked (cfg\<lparr>s_net := rn\<rparr>) x y \<longleftrightarrow> touched {i} (set own) x y \<or> \<not> touched {i} (set other) x y \<and> linked cfg x y)"
proof -
  obtain rn1 where 1: "disconnectUnlocked i other cfg = Some (cfg\<lparr>s_net := rn1\<rparr>)"
      "rn1 = set_ends (\<lambda>e. e \<in> s_end cfg i ` set other \<or> e \<in> (\<lambda>x. s_end cfg x i) ` set other) False (s_net cfg)"
    using disconnectUnlocked_ready [OF r i other len] by blast
  obtain rn2 where 2: "connectUnlocked i own (cfg\<lparr>s_net := rn1\<rparr>) = Some (cfg\<lparr>s_net := rn2\<rparr>)"
      "rn2 = set_ends (\<lambda>e. e \<in> s_end cfg i ` set own \<or> e \<in> (\<lambda>x. s_end cfg x i) ` set own) True rn1"
    using connectUnlocked_ready [of "cfg\<lparr>s_net := rn1\<rparr>" i own] r i own by simp
  have "linked (cfg\<lparr>s_net := rn2\<rparr>) x y \<longleftrightarrow> touched {i} (set own) x y \<or> \<not> touched {i} (set other) x y \<and> linked cfg x y"
    if "x < s_n cfg" "y < s_n cfg" for x y
    using ends_touched [OF r i own that] ends_touched [OF r i other that] by (auto simp: 1(2) 2(2) linked_def)
  then show ?thesis using 1(1) 2(1) by (auto simp: rejoin_def)
qed

lemma rejoin_all_links:
  assumes "ready cfg" and "set L \<subseteq> set own" and "set own \<subseteq> {..<s_n cfg}" and "set other \<subseteq> {..<s_n cfg}"
    and "length other \<le> s_n cfg" and disj: "set own \<inter> set other = {}"
  shows "\<exists>rn. run_all (rejoin own other) L cfg = Some (cfg\<lparr>s_net := rn\<rparr>) \<and> (\<forall>x < s_n cfg. \<forall>y < s_n cfg.
    linked (cfg\<lparr>s_net := rn\<rparr>) x y \<longleftrightarrow> touched (set L) (set own) x y \<or> \<not> touched (set L) (set other) x y \<and> linked cfg x y)"
  using assms(1-5)
proof (induction L arbitrary: cfg)
  case Nil
  have "cfg = cfg\<lparr>s_net := s_net cfg\<rparr>" by simp
  then show ?case by (auto simp: touched_def linked_def intro!: exI [of _ "s_net cfg"])
next
  case (Cons i L)
  have "i < s_n cfg" using Cons.prems by auto
  from rejoin_links [OF Cons.prems(1) this Cons.prems(3-5)]
  obtain rn where rn: "rejoin own other i cfg = Some (cfg\<lparr>s_net := rn\<rparr>)" "\<And>x y. x < s_n cfg \<Longrightarrow> y < s_n cfg \<Longrightarrow>
    linked (cfg\<lparr>s_net := rn\<rparr>) x y \<longleftrightarrow> touched {i} (set own) x y \<or> \<not> touched {i} (set other) x y \<and> linked cfg x y" by blast
  from Cons.IH [of "cfg\<lparr>s_net := rn\<rparr>"] Cons.prems
  obtain rn' where rn': "run_all (rejoin own other) L (cfg\<lparr>s_net := rn\<rparr>) = Some (cfg\<lparr>s_net := rn'\<rparr>)"
    "\<And>x y. x < s_n cfg \<Longrightarrow> y < s_n cfg \<Longrightarrow> linked (cfg\<lparr>s_net := rn'\<rparr>) x y
       \<longleftrightarrow> touched (set L) (set own) x y \<or> \<not> touched (set L) (set other) x y \<and> linked (cfg\<lparr>s_net := rn\<rparr>) x y"
    by auto
  have "linked (cfg\<lparr>s_net := rn'\<rparr>) x y \<longleftrightarrow> touched (set (i # L)) (set own) x y
      \<or> \<not> touched (set (i # L)) (set other) x y \<and> linked cfg x y" if "x < s_n cfg" "y < s_n cfg" for x y
    using rn(2) [OF that] rn'(2) [OF that] disj Cons.prems(2) by (auto simp: touched_def)
  then show ?case using rn(1) rn'(1) by auto
qed

lemma partition_links:
  assumes r: "ready cfg" and p: "set p1 \<subseteq> {..<s_n cfg}" "set p2 \<subseteq> {..<s_n cfg}" "length p1 \<le> s_n cfg" "length p2 \<le> s_n cfg"
    and disj: "set p1 \<inter> set p2 = {}"
  shows "\<exists>rn. partition_net p1 p2 cfg = Some (cfg\<lparr>s_net := rn\<rparr>) \<and> (\<forall>x \<in> set p1 \<union> set p2. \<forall>y \<in> set p1 \<union> set p2.
    linked (cfg\<lparr>s_net := rn\<rparr>) x y \<longleftrightarrow> (x \<in> set p1 \<longleftrightarrow> y \<in> set p1))"
proof -
  obtain rn where 1: "run_all (rejoin p1 p2) p1 cfg = Some (cfg\<lparr>s_net := rn\<rparr>)" "\<And>x y. x < s_n cfg \<Longrightarrow> y < s_n cfg \<Longrightarrow>
    linked (cfg\<lparr>s_net := rn\<rparr>) x y \<longleftrightarrow> touched (set p1) (set p1) x y \<or> \<not> touched (set p1) (set p2) x y \<and> linked cfg x y"
    using rejoin_all_links [OF r order_refl p(1,2,4) disj] by blast
  obtain rn' where 2: "run_all (rejoin p2 p1) p2 (cfg\<lparr>s_net := rn\<rparr>) = Some (cfg\<lparr>s_net := rn'\<rparr>)" "\<And>x y. x < s_n cfg \<Longrightarrow> y < s_n cfg \<Longrightarrow>
    linked (cfg\<lparr>s_net := rn'\<rparr>) x y \<longleftrightarrow> touched (set p2) (set p2) x y \<or> \<not> touched (set p2) (set p1) x y \<and> linked (cfg\<lparr>s_net := rn\<rparr>) x y"
    using rejoin_all_links [of "cfg\<lparr>s_net := rn\<rparr>" p2 p2 p1] r p disj Int_commute [of "set p1"] by auto
  have "linked (cfg\<lparr>s_net := rn'\<rparr>) x y \<longleftrightarrow> (x \<in> set p1 \<longleftrightarrow> y \<in> set p1)"
    if "x \<in> set p1 \<union> set p2" "y \<in> set p1 \<union> set p2" for x y
  proof -
    have "x < s_n cfg" "y < s_n cfg" using that p by auto
    from 1(2) [OF this] 2(2) [OF this] show ?thesis using that disj by (auto simp: touched_def)
  qed
  then show ?thesis using 1(1) 2(1) by (auto simp: partition_net_def)
qed

section \<open>The leader in the minority\<close>

text \<open>\<open>part_loop\<close> writes the servers other than \<open>l\<close> one after another into the two arrays.\<close>

lemma part_loop_fills:
  assumes "j + length (filter (\<lambda>i. i \<noteq> l) is) \<le> length p1 + length p2"
  shows "\<exists>q1 q2. part_loop l is j p1 p2 = Some (q1, q2) \<and> length q1 = length p1 \<and> length q2 = length p2
    \<and> q1 @ q2 = take j (p1 @ p2) @ filter (\<lambda>i. i \<noteq> l) is @ drop (j + length (filter (\<lambda>i. i \<noteq> l) is)) (p1 @ p2)"
  using assms
proof (induction "is" arbitrary: j p1 p2)
  case (Cons i "is")
  show ?case
  proof (cases "i = l")
    case True
    then show ?thesis using Cons by simp
  next
    case False
    define r1 where "r1 = (if j < length p1 then p1[j := i] else p1)"
    define r2 where "r2 = (if j < length p1 then p2 else p2[j - length p1 := i])"
    have j: "j < length p1 + length p2" using Cons.prems False by simp
    have step: "part_loop l (i # is) j p1 p2 = part_loop l is (Suc j) r1 r2"
      using False j by (auto simp: r1_def r2_def nat_diff_distrib)
    have len: "length r1 = length p1" "length r2 = length p2" by (simp_all add: r1_def r2_def)
    have upd: "r1 @ r2 = (p1 @ p2)[j := i]" using j by (simp add: r1_def r2_def list_update_append)
    then have "take (Suc j) (r1 @ r2) = take j (p1 @ p2) @ [i]"
      using j by (simp only: take_Suc_conv_app_nth [of j "(p1 @ p2)[j := i]"] length_list_update length_append) simp
    moreover have "drop (Suc j + k) (r1 @ r2) = drop (Suc j + k) (p1 @ p2)" for k unfolding upd by (simp only: drop_update_cancel)
    ultimately show ?thesis
      using Cons.IH [of "Suc j" r1 r2] Cons.prems False unfolding step by (auto simp: len)
  qed
qed (simp del: take_append drop_append)

text \<open>For an odd number of servers, at least three, the arrays are filled exactly.\<close>

lemma part_loop_odd:
  assumes "odd n" and "3 \<le> n" and l: "l < n"
  shows "\<exists>q1 q2. part_loop l [0..<n] 0 (replicate (n div 2 + 1) 0) (replicate (n div 2) 0) = Some (q1, q2)
    \<and> length q1 = n div 2 + 1 \<and> length q2 = n div 2 \<and> q1 @ q2[n div 2 - 1 := l] = filter (\<lambda>i. i \<noteq> l) [0..<n] @ [l]"
proof -
  let ?os = "filter (\<lambda>i. i \<noteq> l) [0..<n]"
  have "length ?os = card (set [0..<n] - {l})" by (subst distinct_card [symmetric]) (auto intro!: arg_cong [where f = card])
  then have os: "length ?os = n - 1" using l by simp
  have n: "n div 2 + 1 + n div 2 = n" using assms(1) by presburger
  have rest: "drop (n - 1) (replicate (n div 2 + 1) 0 @ replicate (n div 2) (0 :: nat)) = [0]"
  proof -
    have "n - (n - 1) = 1" using assms(2) by simp
    then show ?thesis unfolding replicate_add [symmetric] n drop_replicate by simp
  qed
  have "0 + length ?os \<le> length (replicate (n div 2 + 1) (0 :: nat)) + length (replicate (n div 2) (0 :: nat))" using os n by simp
  from part_loop_fills [OF this]
  obtain q1 q2 where q: "part_loop l [0..<n] 0 (replicate (n div 2 + 1) 0) (replicate (n div 2) 0) = Some (q1, q2)"
      "length q1 = n div 2 + 1" "length q2 = n div 2" "q1 @ q2 = ?os @ [0]"
    unfolding os add_0 rest length_replicate take_0 append_Nil by blast
  have "q1 @ q2[n div 2 - 1 := l] = (q1 @ q2)[n - 1 := l]"
  proof -
    have "n - 1 - length q1 = n div 2 - 1" "\<not> n - 1 < length q1" using q(2) n assms(2) by linarith+
    then show ?thesis by (simp only: list_update_append if_False)
  qed
  also have "\<dots> = ?os @ [l]" using os assms(2) by (simp add: q(4) list_update_append)
  finally show ?thesis using q by blast
qed

lemma leader_loop_bound: "leader_loop svc i ss = Some (b, l) \<Longrightarrow> l < i + length ss \<or> l = 0"
  by (induction ss arbitrary: i) (fastforce simp: Option.bind_eq_Some_conv split: if_splits)+

lemma make_partition_odd:
  assumes "odd (s_n cfg)" and "3 \<le> s_n cfg" and "find_leader svc cfg = Some (b, l)"
  shows "\<exists>p1 p2. make_partition svc cfg = Some (p1, p2) \<and> length p1 = s_n cfg div 2 + 1 \<and> length p2 = s_n cfg div 2
    \<and> distinct (p1 @ p2) \<and> set (p1 @ p2) = {..<s_n cfg} \<and> l \<in> set p2"
proof -
  have l: "l < s_n cfg"
    using leader_loop_bound assms(2,3) unfolding find_leader_def by fastforce
  let ?n = "s_n cfg" and ?os = "filter (\<lambda>i. i \<noteq> l) [0..<s_n cfg]"
  obtain q1 q2 where q: "part_loop l [0..<?n] 0 (replicate (?n div 2 + 1) 0) (replicate (?n div 2) 0) = Some (q1, q2)"
      "length q1 = ?n div 2 + 1" "length q2 = ?n div 2" "q1 @ q2[?n div 2 - 1 := l] = ?os @ [l]"
    using part_loop_odd [OF assms(1,2) l] by blast
  have last: "nat (int (length q2) - 1) = ?n div 2 - 1" "int (length q2) - 1 < int (length q2)" "0 \<le> int (length q2) - 1"
    using q(3) assms(2) by auto
  have "make_partition svc cfg = Some (q1, q2[?n div 2 - 1 := l])"
    unfolding make_partition_def assms(3) Let_def using q(1) last by (simp add: set_idx_def)
  moreover have "distinct (q1 @ q2[?n div 2 - 1 := l])" "set (q1 @ q2[?n div 2 - 1 := l]) = {..<?n}"
    unfolding q(4) using l by auto
  moreover have "l \<in> set (q2[?n div 2 - 1 := l])" using q(3) assms(2) by (intro set_update_memI) simp
  ultimately show ?thesis using q(2,3) by simp
qed

text \<open>
  C29. When an odd number of at least three servers is partitioned along \<open>make_partition\<close>, from any
  state of the network, the leader that was found is cut off from a majority of the servers, in both
  directions, while the servers of the majority reach each other and so do those of the minority.
\<close>

theorem partition_cuts_off_leader:
  assumes "ready cfg" and "odd (s_n cfg)" and "3 \<le> s_n cfg" and "find_leader svc cfg = Some (b, l)"
  shows "\<exists>p1 p2 cfg'. make_partition svc cfg = Some (p1, p2) \<and> partition_net p1 p2 cfg = Some cfg'
    \<and> s_n cfg < 2 * card (set p1) \<and> l \<notin> set p1 \<and> set p1 \<union> set p2 = {..<s_n cfg}
    \<and> (\<forall>x < s_n cfg. \<forall>y < s_n cfg. linked cfg' x y \<longleftrightarrow> (x \<in> set p1 \<longleftrightarrow> y \<in> set p1))"
proof -
  obtain p1 p2 where p: "make_partition svc cfg = Some (p1, p2)" "length p1 = s_n cfg div 2 + 1" "length p2 = s_n cfg div 2"
      "distinct (p1 @ p2)" "set (p1 @ p2) = {..<s_n cfg}" "l \<in> set p2"
    using make_partition_odd [OF assms(2-4)] by blast
  have disj: "set p1 \<inter> set p2 = {}" and all: "set p1 \<union> set p2 = {..<s_n cfg}" using p(4,5) by auto
  have card: "s_n cfg < 2 * card (set p1)" using p(2,4) by (simp add: distinct_card)
  have len: "length p1 \<le> s_n cfg" "length p2 \<le> s_n cfg" using p(2,3) assms(3) by auto
  obtain rn where "partition_net p1 p2 cfg = Some (cfg\<lparr>s_net := rn\<rparr>)"
      "\<forall>x \<in> set p1 \<union> set p2. \<forall>y \<in> set p1 \<union> set p2. linked (cfg\<lparr>s_net := rn\<rparr>) x y \<longleftrightarrow> (x \<in> set p1 \<longleftrightarrow> y \<in> set p1)"
    using partition_links [OF assms(1) _ _ len disj] all by blast
  then show ?thesis using p(1,6) card disj all by (intro exI [of _ p1] exI [of _ p2] exI [of _ "cfg\<lparr>s_net := rn\<rparr>"]) auto
qed

section \<open>Starting servers\<close>

lemma s_endname_lookup:
  "s_endname cfg i j = (if i < length (s_endnames cfg)
     then case s_endnames cfg ! i of Some names \<Rightarrow> if j < length names then Some (names ! j) else None | None \<Rightarrow> None
     else None)"
  by (auto simp: s_endname_def idx_def split: option.splits)

text \<open>The names in use are registered and not shared; servers below \<open>k\<close> have been started.\<close>

definition started :: "nat \<Rightarrow> ('sv, 'b) sconfig \<Rightarrow> bool" where
  "started k cfg \<longleftrightarrow> length (s_endnames cfg) = s_n cfg \<and> length (s_servers cfg) = s_n cfg
     \<and> (\<forall>i < s_n cfg. i < k \<longrightarrow> s_endnames cfg ! i \<noteq> None)
     \<and> (\<forall>i < s_n cfg. \<forall>names. s_endnames cfg ! i = Some names \<longrightarrow> length names = s_n cfg)
     \<and> (\<forall>i j e. s_endname cfg i j = Some e \<longrightarrow> nw_ends (s_net cfg) e \<noteq> None)
     \<and> (\<forall>i j i' j' e. s_endname cfg i j = Some e \<longrightarrow> s_endname cfg i' j' = Some e \<longrightarrow> i = i' \<and> j = j')"

lemma startedD:
  assumes "started k cfg"
  shows "length (s_endnames cfg) = s_n cfg" and "length (s_servers cfg) = s_n cfg"
    and "i < s_n cfg \<Longrightarrow> i < k \<Longrightarrow> s_endnames cfg ! i \<noteq> None"
    and "i < s_n cfg \<Longrightarrow> s_endnames cfg ! i = Some names \<Longrightarrow> length names = s_n cfg"
    and "s_endname cfg i j = Some e \<Longrightarrow> nw_ends (s_net cfg) e \<noteq> None"
    and "s_endname cfg i j = Some e \<Longrightarrow> s_endname cfg i' j' = Some e \<Longrightarrow> i = i' \<and> j = j'"
  using assms unfolding started_def by blast+

lemma startedI:
  assumes "length (s_endnames cfg) = s_n cfg" and "length (s_servers cfg) = s_n cfg"
    and "\<And>i. i < s_n cfg \<Longrightarrow> i < k \<Longrightarrow> s_endnames cfg ! i \<noteq> None"
    and "\<And>i names. i < s_n cfg \<Longrightarrow> s_endnames cfg ! i = Some names \<Longrightarrow> length names = s_n cfg"
    and "\<And>i j e. s_endname cfg i j = Some e \<Longrightarrow> nw_ends (s_net cfg) e \<noteq> None"
    and "\<And>i j i' j' e. s_endname cfg i j = Some e \<Longrightarrow> s_endname cfg i' j' = Some e \<Longrightarrow> i = i' \<and> j = j'"
  shows "started k cfg"
  unfolding started_def using assms by (intro conjI allI impI) simp_all

lemma started_empty: "started 0 (empty_sconfig n)"
  by (auto simp: started_def empty_sconfig_def s_endname_lookup)

lemma started_StartServer:
  assumes st: "started k cfg" and "StartServer svc rnd srv k cfg = Some cfg'"
  shows "started (Suc k) cfg' \<and> s_n cfg' = s_n cfg"
proof -
  let ?n = "s_n cfg"
  let ?names = "map rnd [0..<?n]"
  obtain rn sv saved where rn: "make_ends 0 ?names (s_net cfg) = Some rn" and k: "k < ?n"
      and cfg': "cfg' = cfg\<lparr>s_endnames := (s_endnames cfg)[k := Some ?names], s_saved := saved, s_servers := (s_servers cfg)[k := Some sv],
        s_net := AddServer k srv rn\<rparr>"
    using assms by (auto simp: StartServer_def Let_def Option.bind_eq_Some_conv go_simps started_def)
  note new = make_ends_Some [OF rn]
  have len: "length (s_endnames cfg) = ?n" using st by (simp add: started_def)
  have row: "s_endname cfg' = new_row k ?n rnd (s_endname cfg)"
    using k len by (simp add: fun_eq_iff new_row_def s_endname_lookup cfg' nth_list_update)
  note name = fun_cong [OF fun_cong [OF row], unfolded new_row_def]
  have inj: "inj_on rnd {0..<?n}" using new by (simp add: distinct_map)
  have fresh: "s_endname cfg x y \<noteq> Some (rnd z)" if "z < ?n" for x y z
  proof
    assume "s_endname cfg x y = Some (rnd z)"
    then have "nw_ends (s_net cfg) (rnd z) \<noteq> None" using st unfolding started_def by blast
    then show False using new that by simp
  qed
  have "nw_ends (s_net cfg') e \<noteq> None" if "s_endname cfg' x y = Some e" for x y e
  proof -
    have "e \<in> set ?names \<or> nw_ends (s_net cfg) e \<noteq> None"
      using that st unfolding started_def name by (auto split: if_splits)
    then show ?thesis using new by (auto simp: cfg' AddServer_def)
  qed
  moreover have "x = x' \<and> y = y'" if e: "s_endname cfg' x y = Some e" "s_endname cfg' x' y' = Some e" for x y x' y' e
    by (rule new_row_inj [OF inj fresh startedD(6) [OF st] e [unfolded row]])
  moreover have "s_endnames cfg' ! i \<noteq> None" if "i < ?n" "i < Suc k" for i
    using that startedD(3) [OF st that(1)] len by (cases "i = k") (simp_all add: cfg')
  moreover have "length names = ?n" if "i < ?n" "s_endnames cfg' ! i = Some names" for i names
    using that startedD(4) [OF st that(1)] len by (cases "i = k") (auto simp: cfg')
  moreover have n: "s_n cfg' = ?n" by (simp add: cfg')
  moreover have "length (s_endnames cfg') = ?n" "length (s_servers cfg') = ?n" using startedD(1,2) [OF st] by (simp_all add: cfg')
  ultimately have "started (Suc k) cfg'" by (intro startedI) (simp_all only: n simp_thms)
  then show ?thesis by (simp add: n)
qed

lemma started_run:
  "started k cfg \<Longrightarrow> run_all (\<lambda>i. StartServer svc (rnd i) i i) [k..<m] cfg = Some cfg' \<Longrightarrow> k \<le> m
   \<Longrightarrow> started m cfg' \<and> s_n cfg' = s_n cfg"
proof (induction "m - k" arbitrary: k cfg)
  case (Suc d)
  then have "[k..<m] = k # [Suc k..<m]" by (simp add: upt_conv_Cons)
  with Suc.prems obtain cfg1 where 1: "StartServer svc (rnd k) k k cfg = Some cfg1"
      "run_all (\<lambda>i. StartServer svc (rnd i) i i) [Suc k..<m] cfg1 = Some cfg'" by (auto simp: Option.bind_eq_Some_conv)
  have "started (Suc k) cfg1 \<and> s_n cfg1 = s_n cfg" using started_StartServer [OF Suc.prems(1) 1(1)] .
  moreover have "d = m - Suc k" "Suc k \<le> m" using Suc.hyps(2) by auto
  ultimately show ?case using Suc.hyps(1) [of "Suc k" cfg1] 1(2) by simp
qed simp

lemma started_ready: "started (s_n cfg) cfg \<Longrightarrow> ready cfg"
proof -
  assume st: "started (s_n cfg) cfg"
  have names: "\<exists>names. s_endnames cfg ! i = Some names \<and> length names = s_n cfg" if "i < s_n cfg" for i
    using st that unfolding started_def by (metis not_Some_eq)
  have "s_endname cfg i j \<noteq> None" if "i < s_n cfg" "j < s_n cfg" for i j
    using names [OF that(1)] that st by (auto simp: s_endname_lookup started_def)
  then have "i = i' \<and> j = j'" if "i < s_n cfg" "j < s_n cfg" "s_endname cfg i j = s_endname cfg i' j'" for i j i' j'
    using that st unfolding started_def by (metis not_Some_eq)
  then show ?thesis unfolding ready_def using names st by (simp add: started_def)
qed

lemma ConnectAll_links:
  assumes r: "ready cfg"
  shows "\<exists>rn. ConnectAll cfg = Some (cfg\<lparr>s_net := rn\<rparr>) \<and> (\<forall>x < s_n cfg. \<forall>y < s_n cfg. linked (cfg\<lparr>s_net := rn\<rparr>) x y)"
proof -
  have "\<exists>rn. run_all (\<lambda>i c. connectUnlocked i (All_servers c) c) L cfg = Some (cfg\<lparr>s_net := rn\<rparr>)
      \<and> (\<forall>x < s_n cfg. \<forall>y < s_n cfg. x \<in> set L \<or> linked cfg x y \<longrightarrow> linked (cfg\<lparr>s_net := rn\<rparr>) x y)"
    if "set L \<subseteq> {..<s_n cfg}" "ready cfg" for L and cfg :: "('a, 'b) sconfig"
    using that
  proof (induction L arbitrary: cfg)
    case Nil
    then show ?case by (auto simp: linked_def intro!: exI [of _ "s_net cfg"])
  next
    case (Cons i L)
    have i: "i < s_n cfg" and all: "set (All_servers cfg) \<subseteq> {..<s_n cfg}" using Cons.prems by (auto simp: All_servers_def)
    define rn where "rn = set_ends (\<lambda>e. e \<in> s_end cfg i ` set (All_servers cfg) \<or> e \<in> (\<lambda>x. s_end cfg x i) ` set (All_servers cfg))
      True (s_net cfg)"
    have 1: "connectUnlocked i (All_servers cfg) cfg = Some (cfg\<lparr>s_net := rn\<rparr>)"
      unfolding rn_def by (rule connectUnlocked_ready [OF Cons.prems(2) i all])
    have on: "linked (cfg\<lparr>s_net := rn\<rparr>) x y" if "x < s_n cfg" "y < s_n cfg" "x = i \<or> linked cfg x y" for x y
      using that by (auto simp: rn_def linked_def All_servers_def)
    obtain rn' where "run_all (\<lambda>i c. connectUnlocked i (All_servers c) c) L (cfg\<lparr>s_net := rn\<rparr>) = Some (cfg\<lparr>s_net := rn'\<rparr>)"
        "\<And>x y. x < s_n cfg \<Longrightarrow> y < s_n cfg \<Longrightarrow> x \<in> set L \<or> linked (cfg\<lparr>s_net := rn\<rparr>) x y \<Longrightarrow> linked (cfg\<lparr>s_net := rn'\<rparr>) x y"
      using Cons.IH [of "cfg\<lparr>s_net := rn\<rparr>"] Cons.prems by auto
    then show ?case using 1 on by (intro exI [of _ rn']) auto
  qed
  from this [OF _ r, of "[0..<s_n cfg]"] show ?thesis by (auto simp: ConnectAll_def atLeast0LessThan)
qed

lemma make_sconfig_ready:
  assumes "make_sconfig svc rnd n unreliable = Some cfg"
  shows "ready cfg \<and> s_n cfg = n \<and> (\<forall>x < n. \<forall>y < n. linked cfg x y)"
proof -
  obtain cfg1 cfg2 where c: "run_all (\<lambda>i. StartServer svc (rnd i) i i) [0..<n] (empty_sconfig n) = Some cfg1"
      "ConnectAll cfg1 = Some cfg2" "cfg = cfg2\<lparr>s_net := Reliable (\<not> unreliable) (s_net cfg2)\<rparr>"
    using assms by (auto simp: make_sconfig_def Option.bind_eq_Some_conv)
  have st: "started n cfg1 \<and> s_n cfg1 = n" using started_run [OF started_empty c(1)] by (simp add: empty_sconfig_def)
  then have r: "ready cfg1" using started_ready by blast
  obtain rn where rn: "cfg2 = cfg1\<lparr>s_net := rn\<rparr>" "\<And>x y. x < n \<Longrightarrow> y < n \<Longrightarrow> linked cfg2 x y"
    using ConnectAll_links [OF r] c(2) st by auto
  have "linked cfg x y = linked cfg2 x y" for x y by (simp add: c(3) linked_def Reliable_def is_enabled_def)
  then show ?thesis using rn st r by (simp add: c(3))
qed

section \<open>Restarts\<close>

lemma Copy_same: "Copy ps = ps"
  by (cases ps) (simp add: Copy_def MakePersister_def)

text \<open>What the harness needs of a service: a server keeps the persister that it is started with.\<close>

locale restartable =
  fixes svc :: "('sv, 'b) service"
  assumes start_persister: "svc_start svc n i ps = Some sv \<Longrightarrow> svc_persister svc sv = ps"
begin

lemma restart:
  assumes "s_servers cfg ! i = Some sv" and "i < length (s_servers cfg)" and "length (s_saved cfg) = length (s_servers cfg)"
    and "ShutdownServer svc i cfg = Some cfg1" and "StartServer svc rnd srv i cfg1 = Some cfg2"
  shows "\<exists>sv'. s_servers cfg2 ! i = Some sv' \<and> svc_start svc (s_n cfg) i (svc_persister svc sv) = Some sv'
    \<and> svc_persister svc sv' = svc_persister svc sv \<and> s_saved_of svc cfg2 i = Some (svc_persister svc sv)"
proof -
  obtain rn where cfg1: "cfg1 = cfg\<lparr>s_net := rn, s_saved := (s_saved cfg)[i := Some (svc_persister svc sv)], s_servers := (s_servers cfg)[i := None]\<rparr>"
    using assms(1,4) by (auto simp: ShutdownServer_def disconnectUnlocked_def Option.bind_eq_Some_conv s_saved_of_def Copy_same go_simps)
  have saved: "s_saved_of svc cfg1 i = Some (svc_persister svc sv)" using assms(2,3) by (simp add: s_saved_of_def cfg1)
  obtain sv' where sv': "svc_start svc (s_n cfg1) i (svc_persister svc sv) = Some sv'" "s_servers cfg2 = (s_servers cfg1)[i := Some sv']"
    using assms(5) saved by (auto simp: StartServer_def Let_def Option.bind_eq_Some_conv Copy_same)
  then show ?thesis using assms(2) start_persister [OF sv'(1)] by (simp add: cfg1 s_saved_of_def)
qed

end

lemma Make_persister: "Make dec n i ps = Some rf \<Longrightarrow> persister rf = ps"
  by (auto simp: Make_def Let_def initNextIndexAndMatchIndex_def readPersist_def readSnapshot_def zero_Raft_def
      Option.bind_eq_Some_conv split: if_splits option.splits)

interpretation kv: restartable "kv_service dec maxraftstate" for dec :: "(Op, 'b) decoder" and maxraftstate
  by unfold_locales (auto simp: kv_service_def StartKVServer_def Option.bind_eq_Some_conv dest: Make_persister)

interpretation sm: restartable "sm_service dec" for dec :: "(unit, 'b) decoder"
  by unfold_locales (auto simp: sm_service_def SM_StartServer_def Option.bind_eq_Some_conv dest: Make_persister)

section \<open>The harness of the shard master\<close>

text \<open>The functions of \<open>src/src/shardmaster/config.go\<close> are those of the key/value harness on shard masters.\<close>

type_synonym 'b sm_config = "('b ShardMaster, 'b) sconfig"

definition SMH_random_handles :: "(nat \<Rightarrow> nat) \<Rightarrow> string list \<Rightarrow> string list" where
  "SMH_random_handles intn kvh = random_handles intn kvh"

definition SMH_connectUnlocked :: "nat \<Rightarrow> nat list \<Rightarrow> 'b sm_config \<Rightarrow> 'b sm_config option" where
  "SMH_connectUnlocked i to = connectUnlocked i to"

definition SMH_disconnectUnlocked :: "nat \<Rightarrow> nat list \<Rightarrow> 'b sm_config \<Rightarrow> 'b sm_config option" where
  "SMH_disconnectUnlocked i fr = disconnectUnlocked i fr"

definition SMH_ConnectAll :: "'b sm_config \<Rightarrow> 'b sm_config option" where
  "SMH_ConnectAll = ConnectAll"

definition SMH_partition :: "nat list \<Rightarrow> nat list \<Rightarrow> 'b sm_config \<Rightarrow> 'b sm_config option" where
  "SMH_partition p1 p2 = partition_net p1 p2"

definition SMH_makeClient :: "(nat \<Rightarrow> string) \<Rightarrow> (nat \<Rightarrow> nat) \<Rightarrow> nat \<Rightarrow> nat list \<Rightarrow> 'b sm_config \<Rightarrow> ('b sm_config \<times> string list) option" where
  "SMH_makeClient rnd intn ck to = makeClient rnd intn ck to"

definition SMH_deleteClient :: "nat \<Rightarrow> 'b sm_config \<Rightarrow> 'b sm_config" where
  "SMH_deleteClient ck = deleteClient ck"

definition SMH_ConnectClientUnlocked :: "nat \<Rightarrow> nat list \<Rightarrow> 'b sm_config \<Rightarrow> 'b sm_config option" where
  "SMH_ConnectClientUnlocked ck to = ConnectClientUnlocked ck to"

definition SMH_DisconnectClientUnlocked :: "nat \<Rightarrow> nat list \<Rightarrow> 'b sm_config \<Rightarrow> 'b sm_config option" where
  "SMH_DisconnectClientUnlocked ck fr = DisconnectClientUnlocked ck fr"

definition SMH_ShutdownServer :: "(unit, 'b) decoder \<Rightarrow> nat \<Rightarrow> 'b sm_config \<Rightarrow> 'b sm_config option" where
  "SMH_ShutdownServer dec i = ShutdownServer (sm_service dec) i"

definition SMH_StartServer :: "(unit, 'b) decoder \<Rightarrow> (nat \<Rightarrow> string) \<Rightarrow> nat \<Rightarrow> nat \<Rightarrow> 'b sm_config \<Rightarrow> 'b sm_config option" where
  "SMH_StartServer dec rnd srv i = StartServer (sm_service dec) rnd srv i"

definition SMH_Leader :: "(unit, 'b) decoder \<Rightarrow> 'b sm_config \<Rightarrow> (bool \<times> nat) option" where
  "SMH_Leader dec = find_leader (sm_service dec)"

definition SMH_make_partition :: "(unit, 'b) decoder \<Rightarrow> 'b sm_config \<Rightarrow> (nat list \<times> nat list) option" where
  "SMH_make_partition dec = make_partition (sm_service dec)"

definition SMH_LogSize :: "(unit, 'b) decoder \<Rightarrow> 'b sm_config \<Rightarrow> int option" where
  "SMH_LogSize dec = LogSize (sm_service dec)"

definition SMH_cleanup :: "(unit, 'b) decoder \<Rightarrow> 'b sm_config \<Rightarrow> 'b sm_config option" where
  "SMH_cleanup dec = s_cleanup (sm_service dec)"

definition SMH_make_config :: "(unit, 'b) decoder \<Rightarrow> (nat \<Rightarrow> nat \<Rightarrow> string) \<Rightarrow> nat \<Rightarrow> bool \<Rightarrow> 'b sm_config option" where
  "SMH_make_config dec rnd n unreliable = make_sconfig (sm_service dec) rnd n unreliable"

definition SMH_All :: "'b sm_config \<Rightarrow> nat list" where
  "SMH_All = All_servers"

definition SMH_connect :: "nat \<Rightarrow> nat list \<Rightarrow> bool \<times> 'b sm_config \<Rightarrow> (bool \<times> 'b sm_config) option" where
  "SMH_connect i to = locked (SMH_connectUnlocked i to)"

definition SMH_disconnect :: "nat \<Rightarrow> nat list \<Rightarrow> bool \<times> 'b sm_config \<Rightarrow> (bool \<times> 'b sm_config) option" where
  "SMH_disconnect i fr = locked (SMH_disconnectUnlocked i fr)"

definition SMH_ConnectClient :: "nat \<Rightarrow> nat list \<Rightarrow> bool \<times> 'b sm_config \<Rightarrow> (bool \<times> 'b sm_config) option" where
  "SMH_ConnectClient ck to = locked (SMH_ConnectClientUnlocked ck to)"

definition SMH_DisconnectClient :: "nat \<Rightarrow> nat list \<Rightarrow> bool \<times> 'b sm_config \<Rightarrow> (bool \<times> 'b sm_config) option" where
  "SMH_DisconnectClient ck fr = locked (SMH_DisconnectClientUnlocked ck fr)"

lemma SMH_restart:
  assumes "s_servers cfg ! i = Some old" and "i < length (s_servers cfg)" and "length (s_saved cfg) = length (s_servers cfg)"
    and "SMH_ShutdownServer dec i cfg = Some cfg1" and "SMH_StartServer dec rnd srv i cfg1 = Some cfg2"
  shows "\<exists>new. s_servers cfg2 ! i = Some new \<and> SM_StartServer dec (s_n cfg) i (persister (sm_rf old)) = Some new"
  using sm.restart [OF assms [unfolded SMH_ShutdownServer_def SMH_StartServer_def]] by (auto simp: sm_service_def)

section \<open>Properties\<close>

text \<open>
  C30. Shutting a key/value server down and starting it again keeps what it has saved: the new instance is
  the one that \<open>StartKVServer\<close> builds from the state and the snapshot in the persister of the old one.
\<close>

theorem harness_restart_keeps_saved_state:
  assumes "s_servers cfg ! i = Some old" and "i < length (s_servers cfg)" and "length (s_saved cfg) = length (s_servers cfg)"
    and "ShutdownServer (kv_service dec maxraftstate) i cfg = Some cfg1"
    and "StartServer (kv_service dec maxraftstate) rnd srv i cfg1 = Some cfg2"
  shows "\<exists>new. s_servers cfg2 ! i = Some new \<and> StartKVServer dec (s_n cfg) i (persister (kv_rf old)) maxraftstate = Some new
    \<and> persister (kv_rf new) = persister (kv_rf old)"
  using kv.restart [OF assms] by (auto simp: kv_service_def)

definition ex_svc :: "(nat KVServer, nat) service" where
  "ex_svc = kv_service (\<lambda>bs. None) 100"

text \<open>Three servers with the harness; \<open>ex_rnd3\<close> names ends.\<close>

definition ex_rnd3 :: "nat \<Rightarrow> nat \<Rightarrow> string" where
  "ex_rnd3 i j = replicate (Suc (3 * i + j)) CHR ''x''"

definition ex_three :: "(nat KVServer, nat) sconfig option" where
  "ex_three = make_sconfig ex_svc ex_rnd3 3 False"

lemma ex_three_facts:
  "\<exists>cfg cfg1 cfg2 old. ex_three = Some cfg \<and> s_servers cfg ! 1 = Some old \<and> length (s_servers cfg) = 3 \<and> length (s_saved cfg) = 3
    \<and> find_leader ex_svc cfg = Some (False, 0)
    \<and> ShutdownServer ex_svc 1 cfg = Some cfg1 \<and> StartServer ex_svc (ex_rnd3 7) 9 1 cfg1 = Some cfg2"
proof -
  have "(case ex_three of Some cfg \<Rightarrow> s_servers cfg ! 1 \<noteq> None \<and> length (s_servers cfg) = 3 \<and> length (s_saved cfg) = 3
      \<and> find_leader ex_svc cfg = Some (False, 0)
      \<and> (case ShutdownServer ex_svc 1 cfg of Some cfg1 \<Rightarrow> StartServer ex_svc (ex_rnd3 7) 9 1 cfg1 \<noteq> None | None \<Rightarrow> False)
    | None \<Rightarrow> False)"
    by code_simp
  then show ?thesis by (fastforce split: option.splits)
qed

theorem harness_restart_keeps_saved_state_witness:
  "\<exists>cfg cfg1 cfg2 old new. ex_three = Some cfg \<and> s_servers cfg ! 1 = Some old \<and> ShutdownServer ex_svc 1 cfg = Some cfg1
    \<and> StartServer ex_svc (ex_rnd3 7) 9 1 cfg1 = Some cfg2 \<and> s_servers cfg2 ! 1 = Some new
    \<and> persister (kv_rf new) = persister (kv_rf old)"
proof -
  obtain cfg cfg1 cfg2 old where ex: "ex_three = Some cfg" "s_servers cfg ! 1 = Some old" "length (s_servers cfg) = 3" "length (s_saved cfg) = 3"
      "ShutdownServer ex_svc 1 cfg = Some cfg1" "StartServer ex_svc (ex_rnd3 7) 9 1 cfg1 = Some cfg2"
    using ex_three_facts by blast
  then show ?thesis
    using harness_restart_keeps_saved_state [OF ex(2) _ _ ex(5,6) [unfolded ex_svc_def]] by (auto simp: ex_svc_def)
qed

theorem partition_cuts_off_leader_witness:
  "\<exists>cfg p1 p2 cfg'. ex_three = Some cfg \<and> make_partition ex_svc cfg = Some (p1, p2) \<and> partition_net p1 p2 cfg = Some cfg'
    \<and> 3 < 2 * card (set p1) \<and> 0 \<notin> set p1"
proof -
  obtain cfg where ex: "ex_three = Some cfg" "find_leader ex_svc cfg = Some (False, 0)" using ex_three_facts by blast
  have "ready cfg" "s_n cfg = 3" using make_sconfig_ready ex(1) unfolding ex_three_def by blast+
  then show ?thesis using partition_cuts_off_leader [OF _ _ _ ex(2)] ex(1) by fastforce
qed

text \<open>With an even number of servers \<open>make_partition\<close> puts server 0 into both parts: here four servers, the last is the leader.\<close>

lemma make_partition_even_overlaps:
  "map_option (\<lambda>(p1, p2). (p1, p2[1 := 3])) (part_loop 3 [0..<4] 0 (replicate (4 div 2 + 1) 0) (replicate (4 div 2) 0))
    = Some ([0, 1, 2], [0, 3])"
  by code_simp

end
