(* ===== verification/Shardkv_Harness.thy ===== *)
theory Shardkv_Harness
  imports Raft_Harness Shard_Clients
begin

text \<open>
  The harness of the tests of the sharded store (\<open>src/src/shardkv/config.go\<close>): three shard masters and
  three groups of \<open>n\<close> servers on the simulated network, whose server names are strings here. Random
  names are arguments; an index out of range, \<open>t.Fatalf\<close> and \<open>log.Fatalf\<close> are \<open>None\<close>. \<open>deleteClient\<close> also
  removes files named like the ends, which do not exist.
\<close>

section \<open>Groups and the configuration\<close>

record 'b sk_group =
  gg_gid :: int
  gg_servers :: "'b ShardKV option list"
  gg_saved :: "'b Persister option list"
  gg_endnames :: "string list option list"
  gg_mendnames :: "string list option list"

record 'b sk_config =
  k_net :: "(string, string) Network"
  k_nmasters :: nat
  k_masterservers :: "'b ShardMaster option list"
  k_mck :: SmClerk
  k_ngroups :: nat
  k_n :: nat
  k_groups :: "'b sk_group list"
  k_clerks :: "nat \<rightharpoonup> string list"
  k_nextClientId :: int
  k_maxraftstate :: int

definition mastername :: "nat \<Rightarrow> string" where
  "mastername i = ''master'' @ Itoa (int i)"

definition servername :: "int \<Rightarrow> nat \<Rightarrow> string" where
  "servername gid i = ''server-'' @ Itoa gid @ ''-'' @ Itoa (int i)"

section \<open>Ends\<close>

text \<open>The closure that makes an end to a server: a new end, connected and enabled.\<close>

definition make_end :: "string \<Rightarrow> string \<Rightarrow> (string, string) Network \<Rightarrow> (string, string) Network option" where
  "make_end name sname rn = do { (rn1, e) \<leftarrow> MakeEnd name rn; Some (Enable name True (Connect name sname rn1)) }"

fun link_ends :: "(nat \<Rightarrow> string) \<Rightarrow> nat \<Rightarrow> string list \<Rightarrow> (string, string) Network \<Rightarrow> (string, string) Network option" where
  "link_ends target j [] rn = Some rn"
| "link_ends target j (e # es) rn = do { rn1 \<leftarrow> make_end e (target j) rn; link_ends target (Suc j) es rn1 }"

fun disable_all :: "string list \<Rightarrow> (string, string) Network \<Rightarrow> (string, string) Network" where
  "disable_all [] rn = rn"
| "disable_all (e # es) rn = disable_all es (Enable e False rn)"

section \<open>Clerks\<close>

text \<open>\<open>endnames[j] = randstring(20)\<close> for every master, in a slice with one element per server of a group.\<close>

fun fill_names :: "(nat \<Rightarrow> string) \<Rightarrow> nat list \<Rightarrow> string list \<Rightarrow> string list option" where
  "fill_names rnd [] endnames = Some endnames"
| "fill_names rnd (j # js) endnames = do { es \<leftarrow> set_idx endnames (int j) (rnd j); fill_names rnd js es }"

definition sk_makeClient :: "(nat \<Rightarrow> string) \<Rightarrow> nat \<Rightarrow> 'b sk_config \<Rightarrow> 'b sk_config option" where
  "sk_makeClient rnd ck cfg =
     do {
       endnames \<leftarrow> fill_names rnd [0..<k_nmasters cfg] (replicate (k_n cfg) []);
       rn \<leftarrow> link_ends mastername 0 (map rnd [0..<k_nmasters cfg]) (k_net cfg);
       Some (cfg\<lparr>k_net := rn, k_clerks := (k_clerks cfg)(ck \<mapsto> endnames), k_nextClientId := k_nextClientId cfg + 1\<rparr>)
     }"

definition sk_deleteClient :: "nat \<Rightarrow> 'b sk_config \<Rightarrow> 'b sk_config" where
  "sk_deleteClient ck cfg = cfg\<lparr>k_clerks := (k_clerks cfg)(ck := None)\<rparr>"

section \<open>Servers of a group\<close>

definition gg_saved_of :: "'b sk_group \<Rightarrow> nat \<Rightarrow> 'b Persister option" where
  "gg_saved_of gg i = (case gg_servers gg ! i of Some kv \<Rightarrow> Some (persister (sk_rf kv)) | None \<Rightarrow> gg_saved gg ! i)"

definition sk_ShutdownServer :: "nat \<Rightarrow> nat \<Rightarrow> 'b sk_config \<Rightarrow> 'b sk_config option" where
  "sk_ShutdownServer gi i cfg =
     do {
       gg \<leftarrow> idx (k_groups cfg) (int gi);
       row \<leftarrow> idx (gg_endnames gg) (int i);
       names \<leftarrow> those (map (\<lambda>j. idx (case row of Some ns \<Rightarrow> ns | None \<Rightarrow> []) (int j)) [0..<length (gg_servers gg)]);
       mrow \<leftarrow> idx (gg_mendnames gg) (int i);
       let mnames = (case mrow of Some ns \<Rightarrow> ns | None \<Rightarrow> []);
       let rn = disable_all mnames (disable_all names (k_net cfg));
       saved \<leftarrow> set_idx (gg_saved gg) (int i) (map_option Copy (gg_saved_of gg i));
       let gg' = gg\<lparr>gg_saved := saved, gg_servers := (gg_servers gg)[i := None]\<rparr>;
       Some (cfg\<lparr>k_net := DeleteServer (servername (gg_gid gg) i) rn, k_groups := (k_groups cfg)[gi := gg']\<rparr>)
     }"

definition sk_ShutdownGroup :: "nat \<Rightarrow> 'b sk_config \<Rightarrow> 'b sk_config option" where
  "sk_ShutdownGroup gi cfg = run_all (sk_ShutdownServer gi) [0..<k_n cfg] cfg"

text \<open>The names of the ends to the group are \<open>rnd 0, rnd 1, \<dots>\<close>, those of the ends to the masters follow.\<close>

definition sk_harness_StartServer ::
  "(unit, 'b) decoder \<Rightarrow> (nat \<Rightarrow> string) \<Rightarrow> nat \<Rightarrow> nat \<Rightarrow> nat \<Rightarrow> 'b sk_config \<Rightarrow> 'b sk_config option" where
  "sk_harness_StartServer dec rnd srv gi i cfg =
     do {
       gg \<leftarrow> idx (k_groups cfg) (int gi);
       let names = map rnd [0..<k_n cfg];
       endnames \<leftarrow> set_idx (gg_endnames gg) (int i) (Some names);
       rn1 \<leftarrow> link_ends (servername (gg_gid gg)) 0 names (k_net cfg);
       let mnames = map (\<lambda>j. rnd (k_n cfg + j)) [0..<k_nmasters cfg];
       mendnames \<leftarrow> set_idx (gg_mendnames gg) (int i) (Some mnames);
       rn2 \<leftarrow> link_ends mastername 0 mnames rn1;
       let saved = (case gg_saved_of gg i of Some ps \<Rightarrow> Copy ps | None \<Rightarrow> MakePersister);
       kv \<leftarrow> SK_StartServer dec (k_n cfg) i saved (k_maxraftstate cfg) (gg_gid gg) [0..<k_nmasters cfg];
       let gg' = gg\<lparr>gg_endnames := endnames, gg_mendnames := mendnames, gg_saved := (gg_saved gg)[i := Some saved],
                    gg_servers := (gg_servers gg)[i := Some kv]\<rparr>;
       Some (cfg\<lparr>k_net := AddServer (servername (gg_gid gg) i) srv rn2, k_groups := (k_groups cfg)[gi := gg']\<rparr>)
     }"

definition sk_StartGroup :: "(unit, 'b) decoder \<Rightarrow> (nat \<Rightarrow> nat \<Rightarrow> string) \<Rightarrow> nat \<Rightarrow> nat \<Rightarrow> 'b sk_config \<Rightarrow> 'b sk_config option" where
  "sk_StartGroup dec rnd srv gi cfg =
     run_all (\<lambda>i. sk_harness_StartServer dec (rnd i) (srv + i) gi i) [0..<k_n cfg] cfg"

section \<open>Masters\<close>

definition StartMasterServer ::
  "(unit, 'b) decoder \<Rightarrow> (nat \<Rightarrow> string) \<Rightarrow> nat \<Rightarrow> nat \<Rightarrow> 'b sk_config \<Rightarrow> 'b sk_config option" where
  "StartMasterServer dec rnd srv i cfg =
     do {
       rn \<leftarrow> link_ends mastername 0 (map rnd [0..<k_nmasters cfg]) (k_net cfg);
       sm \<leftarrow> SM_StartServer dec (k_nmasters cfg) i MakePersister;
       masters \<leftarrow> set_idx (k_masterservers cfg) (int i) (Some sm);
       Some (cfg\<lparr>k_masterservers := masters, k_net := AddServer (mastername i) srv rn\<rparr>)
     }"

definition shardclerk :: "(nat \<Rightarrow> string) \<Rightarrow> 'b sk_config \<Rightarrow> ('b sk_config \<times> SmClerk) option" where
  "shardclerk rnd cfg =
     do {
       rn \<leftarrow> link_ends mastername 0 (map rnd [0..<k_nmasters cfg]) (k_net cfg);
       Some (cfg\<lparr>k_net := rn\<rparr>, SM_MakeClerk [0..<k_nmasters cfg])
     }"

text \<open>The arguments that \<open>joinm\<close> and \<open>leavem\<close> give to the clerk of the masters.\<close>

fun joinm_servers :: "'b sk_config \<Rightarrow> nat list \<Rightarrow> (int \<rightharpoonup> string list) \<Rightarrow> (int \<rightharpoonup> string list) option" where
  "joinm_servers cfg [] m = Some m"
| "joinm_servers cfg (g # gis) m =
     do {
       gg \<leftarrow> idx (k_groups cfg) (int g);
       joinm_servers cfg gis (m(gg_gid gg \<mapsto> map (servername (gg_gid gg)) [0..<k_n cfg]))
     }"

definition joinm :: "(JoinArgs \<Rightarrow> (nat, SmReply) calls) \<Rightarrow> nat \<Rightarrow> nat list \<Rightarrow> 'b sk_config \<Rightarrow> nat \<Rightarrow> nat option" where
  "joinm net fuel gis cfg k = do { m \<leftarrow> joinm_servers cfg gis Map.empty; SM_clerk_Join net fuel m (k_mck cfg) k }"

definition leavem :: "(LeaveArgs \<Rightarrow> (nat, SmReply) calls) \<Rightarrow> nat \<Rightarrow> nat list \<Rightarrow> 'b sk_config \<Rightarrow> nat \<Rightarrow> nat option" where
  "leavem net fuel gis cfg k =
     do {
       gids \<leftarrow> those (map (\<lambda>g. map_option gg_gid (idx (k_groups cfg) (int g))) gis);
       SM_clerk_Leave net fuel gids (k_mck cfg) k
     }"

definition sk_join :: "(JoinArgs \<Rightarrow> (nat, SmReply) calls) \<Rightarrow> nat \<Rightarrow> nat \<Rightarrow> 'b sk_config \<Rightarrow> nat \<Rightarrow> nat option" where
  "sk_join net fuel gi cfg k = joinm net fuel [gi] cfg k"

definition sk_leave :: "(LeaveArgs \<Rightarrow> (nat, SmReply) calls) \<Rightarrow> nat \<Rightarrow> nat \<Rightarrow> 'b sk_config \<Rightarrow> nat \<Rightarrow> nat option" where
  "sk_leave net fuel gi cfg k = leavem net fuel [gi] cfg k"

section \<open>Checking, setting up, cleaning up\<close>

definition log_small :: "int \<Rightarrow> 'b Persister \<Rightarrow> bool" where
  "log_small maxraftstate ps \<longleftrightarrow> \<not> (maxraftstate \<ge> 0 \<and> RaftStateSize ps > 2 * maxraftstate)
     \<and> \<not> (maxraftstate < 0 \<and> length (ReadSnapshot ps) > 0)"

definition checklogs :: "'b sk_config \<Rightarrow> unit option" where
  "checklogs cfg =
     do {
       pss \<leftarrow> those (concat (map (\<lambda>gi. map (\<lambda>i. do { gg \<leftarrow> idx (k_groups cfg) (int gi); gg_saved_of gg i }) [0..<k_n cfg]) [0..<k_ngroups cfg]));
       if list_all (log_small (k_maxraftstate cfg)) pss then Some () else None
     }"

definition sk_cleanup :: "'b sk_config \<Rightarrow> 'b sk_config option" where
  "sk_cleanup cfg =
     do {
       cfg1 \<leftarrow> run_all sk_ShutdownGroup [0..<k_ngroups cfg] cfg;
       rn \<leftarrow> Cleanup (k_net cfg1);
       Some (cfg1\<lparr>k_net := rn\<rparr>)
     }"

definition new_group :: "nat \<Rightarrow> nat \<Rightarrow> nat \<Rightarrow> 'b sk_group" where
  "new_group n nmasters gi =
     \<lparr>gg_gid = 100 + int gi, gg_servers = replicate n None, gg_saved = replicate n None,
      gg_endnames = replicate n None, gg_mendnames = replicate nmasters None\<rparr>"

definition empty_sk_config :: "int \<Rightarrow> 'b sk_config" where
  "empty_sk_config maxraftstate =
     \<lparr>k_net = MakeNetwork, k_nmasters = 3, k_masterservers = replicate 3 None, k_mck = SM_MakeClerk [], k_ngroups = 0, k_n = 0,
      k_groups = [], k_clerks = Map.empty, k_nextClientId = 0, k_maxraftstate = maxraftstate\<rparr>"

text \<open>
  \<open>mrnd\<close>, \<open>crnd\<close> and \<open>rnd\<close> are the names of the ends of the masters, of the clerk of the masters and of the
  servers. The servers of the masters are numbered from 0, those of group \<open>gi\<close> from \<open>nmasters + gi * n\<close>.
\<close>

definition add_group_servers ::
  "(unit, 'b) decoder \<Rightarrow> (nat \<Rightarrow> nat \<Rightarrow> nat \<Rightarrow> string) \<Rightarrow> nat \<Rightarrow> 'b sk_config \<Rightarrow> 'b sk_config option" where
  "add_group_servers dec rnd gi cfg =
     sk_StartGroup dec (rnd gi) (k_nmasters cfg + gi * k_n cfg) gi
       (cfg\<lparr>k_groups := k_groups cfg @ [new_group (k_n cfg) (k_nmasters cfg) gi]\<rparr>)"

definition sk_make_config ::
  "(unit, 'b) decoder \<Rightarrow> (nat \<Rightarrow> nat \<Rightarrow> string) \<Rightarrow> (nat \<Rightarrow> string) \<Rightarrow> (nat \<Rightarrow> nat \<Rightarrow> nat \<Rightarrow> string)
     \<Rightarrow> nat \<Rightarrow> bool \<Rightarrow> int \<Rightarrow> 'b sk_config option" where
  "sk_make_config dec mrnd crnd rnd n unreliable maxraftstate =
     do {
       cfg1 \<leftarrow> run_all (\<lambda>i. StartMasterServer dec (mrnd i) i i) [0..<3] (empty_sk_config maxraftstate);
       (cfg2, mck) \<leftarrow> shardclerk crnd cfg1;
       cfg3 \<leftarrow> run_all (add_group_servers dec rnd) [0..<3] (cfg2\<lparr>k_mck := mck, k_ngroups := 3, k_n := n\<rparr>);
       Some (cfg3\<lparr>k_clerks := Map.empty, k_nextClientId := int n + 1000, k_net := Reliable (\<not> unreliable) (k_net cfg3)\<rparr>)
     }"

section \<open>Names of servers\<close>

lemma servername_inj: "servername gid i = servername gid' i' \<longleftrightarrow> gid = gid' \<and> i = i'"
proof -
  have "CHR ''-'' \<notin> set (Itoa (int k))" for k by (simp add: Itoa_def no_dash)
  then show ?thesis by (simp add: servername_def last_dash_split Itoa_inj)
qed

lemma servername_not_master: "servername gid i \<noteq> mastername j"
  by (simp add: servername_def mastername_def)

lemma mastername_inj: "mastername i = mastername j \<longleftrightarrow> i = j"
  by (simp add: mastername_def Itoa_inj)

section \<open>Shutting a server down\<close>

lemma disable_all_eq:
  "nw_servers (disable_all es rn) = nw_servers rn"
  "is_enabled (disable_all es rn) e \<longleftrightarrow> e \<notin> set es \<and> is_enabled rn e"
  by (induction es arbitrary: rn) (auto simp: Enable_def is_enabled_def)

lemma those_idx_all: "those (map (\<lambda>j. idx xs (int j)) [0..<length xs]) = Some xs"
  by (simp add: those_eq_Some)

text \<open>
  \<open>ShutdownServer\<close> takes exactly one server off the network: its name is not registered any more, none
  of the ends it sends with is enabled, and every other server and master stays registered and every
  other end as it was.
\<close>

theorem ShutdownServer_isolates_one_server:
  assumes "sk_ShutdownServer gi i cfg = Some cfg'" and "idx (k_groups cfg) (int gi) = Some gg"
    and "gg_endnames gg ! i = Some names" and "length names = length (gg_servers gg)" and "gg_mendnames gg ! i = Some mnames"
  shows "nw_servers (k_net cfg') (servername (gg_gid gg) i) = None
    \<and> (\<forall>gid j. (gid, j) \<noteq> (gg_gid gg, i) \<longrightarrow> nw_servers (k_net cfg') (servername gid j) = nw_servers (k_net cfg) (servername gid j))
    \<and> (\<forall>j. nw_servers (k_net cfg') (mastername j) = nw_servers (k_net cfg) (mastername j))
    \<and> (\<forall>e. is_enabled (k_net cfg') e \<longleftrightarrow> e \<notin> set names \<union> set mnames \<and> is_enabled (k_net cfg) e)"
proof -
  have "idx (gg_endnames gg) (int i) = Some (Some names)" "idx (gg_mendnames gg) (int i) = Some (Some mnames)"
    using assms by (auto simp: sk_ShutdownServer_def Option.bind_eq_Some_conv go_simps)
  then have net: "k_net cfg' = DeleteServer (servername (gg_gid gg) i) (disable_all mnames (disable_all names (k_net cfg)))"
    using assms(1,2,4) those_idx_all [of names] by (auto simp: sk_ShutdownServer_def Let_def Option.bind_eq_Some_conv)
  have servers: "nw_servers (k_net cfg') = (nw_servers (k_net cfg))(servername (gg_gid gg) i := None)"
    by (simp add: net DeleteServer_def disable_all_eq)
  have ends: "is_enabled (k_net cfg') e \<longleftrightarrow> e \<notin> set names \<union> set mnames \<and> is_enabled (k_net cfg) e" for e
  proof -
    have "is_enabled (k_net cfg') e \<longleftrightarrow> is_enabled (disable_all mnames (disable_all names (k_net cfg))) e"
      by (simp add: net DeleteServer_def is_enabled_def)
    then show ?thesis by (auto simp: disable_all_eq)
  qed
  show ?thesis
    unfolding servers ends by (simp add: servername_inj servername_not_master [symmetric])
qed

section \<open>The size of a group\<close>

lemma fill_names_length: "fill_names rnd js es = Some es' \<Longrightarrow> \<forall>j \<in> set js. j < length es"
  by (induction js arbitrary: es) (fastforce simp: Option.bind_eq_Some_conv go_simps)+

lemma sk_StartServer_keeps:
  assumes "sk_harness_StartServer dec rnd srv gi i cfg = Some cfg'"
  shows "k_n cfg' = k_n cfg \<and> length (k_groups cfg') = length (k_groups cfg) \<and> (\<exists>gg. idx (k_groups cfg) (int gi) = Some gg
    \<and> i < length (gg_mendnames gg) \<and> length (gg_mendnames (k_groups cfg' ! gi)) = length (gg_mendnames gg))"
  using assms by (auto simp: sk_harness_StartServer_def Let_def Option.bind_eq_Some_conv go_simps)

lemma run_StartServer_bound:
  assumes "run_all (\<lambda>i. sk_harness_StartServer dec (rnd i) (srv + i) gi i) is cfg = Some cfg'" and "gi < length (k_groups cfg)"
  shows "\<forall>i \<in> set is. i < length (gg_mendnames (k_groups cfg ! gi))"
  using assms
proof (induction "is" arbitrary: cfg)
  case (Cons i "is")
  then obtain cfg1 where 1: "sk_harness_StartServer dec (rnd i) (srv + i) gi i cfg = Some cfg1"
      "run_all (\<lambda>i. sk_harness_StartServer dec (rnd i) (srv + i) gi i) is cfg1 = Some cfg'"
    by (auto simp: Option.bind_eq_Some_conv)
  note k = sk_StartServer_keeps [OF 1(1)]
  with Cons.IH [OF 1(2)] Cons.prems(2) show ?case by (auto simp: go_simps)
qed simp

lemma run_StartMaster_nmasters:
  "run_all (\<lambda>i. StartMasterServer dec (mrnd i) i i) is cfg = Some cfg' \<Longrightarrow> k_nmasters cfg' = k_nmasters cfg \<and> k_groups cfg' = k_groups cfg"
  by (induction "is" arbitrary: cfg) (fastforce simp: StartMasterServer_def Option.bind_eq_Some_conv)+

text \<open>
  C33. The harness only works for groups of three servers. With more servers than masters, \<open>make_config\<close>
  panics, since \<open>mendnames\<close> has one row per master but is indexed by servers; with fewer servers than
  masters, \<open>makeClient\<close> panics, since its slice of names has one element per server but is indexed by
  masters.
\<close>

theorem shard_harness_group_size:
  "(sk_make_config dec mrnd crnd rnd n unreliable maxraftstate = Some cfg \<longrightarrow> n \<le> 3)
   \<and> (sk_makeClient crnd ck cfg = Some cfg' \<longrightarrow> k_nmasters cfg \<le> k_n cfg)"
proof (intro conjI impI)
  assume "sk_make_config dec mrnd crnd rnd n unreliable maxraftstate = Some cfg"
  then obtain cfg1 cfg2 mck cfg3 where c: "run_all (\<lambda>i. StartMasterServer dec (mrnd i) i i) [0..<3] (empty_sk_config maxraftstate) = Some cfg1"
      "shardclerk crnd cfg1 = Some (cfg2, mck)"
      "add_group_servers dec rnd 0 (cfg2\<lparr>k_mck := mck, k_ngroups := 3, k_n := n\<rparr>) = Some cfg3"
    by (auto simp: sk_make_config_def Option.bind_eq_Some_conv upt_rec)
  have "k_nmasters cfg2 = 3" "k_groups cfg2 = []"
    using run_StartMaster_nmasters [OF c(1)] c(2) by (auto simp: shardclerk_def empty_sk_config_def Option.bind_eq_Some_conv)
  with c(3) have "\<forall>i \<in> set [0..<n]. i < 3"
    unfolding add_group_servers_def sk_StartGroup_def by (auto dest!: run_StartServer_bound simp: new_group_def)
  then show "n \<le> 3" by (metis atLeast0LessThan ball_empty leI lessThan_iff less_irrefl set_upt)
next
  assume "sk_makeClient crnd ck cfg = Some cfg'"
  then obtain es where "fill_names crnd [0..<k_nmasters cfg] (replicate (k_n cfg) []) = Some es"
    by (auto simp: sk_makeClient_def Option.bind_eq_Some_conv)
  from fill_names_length [OF this] show "k_nmasters cfg \<le> k_n cfg"
    by (metis atLeast0LessThan leI length_replicate lessThan_iff less_irrefl set_upt)
qed

section \<open>A harness with groups of three\<close>

definition ex_shards :: "nat sk_config option" where
  "ex_shards = sk_make_config (\<lambda>bs. None) (\<lambda>i j. [CHR ''m'', digit i, digit j]) (\<lambda>j. [CHR ''c'', digit j])
     (\<lambda>g i j. [digit g, digit i, digit j]) 3 False 1000"

definition ex_client :: "nat sk_config \<Rightarrow> nat sk_config option" where
  "ex_client cfg = sk_makeClient (\<lambda>j. [CHR ''k'', digit j]) 0 cfg"

lemma ex_shards_facts:
  "\<exists>cfg cfg1 cfg2 gg names mnames. ex_shards = Some cfg \<and> ex_client cfg = Some cfg1 \<and> sk_ShutdownServer 1 2 cfg = Some cfg2
    \<and> idx (k_groups cfg) (int 1) = Some gg \<and> gg_gid gg = 101 \<and> gg_endnames gg ! 2 = Some names \<and> length names = length (gg_servers gg)
    \<and> gg_mendnames gg ! 2 = Some mnames"
proof -
  have "(case ex_shards of None \<Rightarrow> False | Some cfg \<Rightarrow> ex_client cfg \<noteq> None \<and> sk_ShutdownServer 1 2 cfg \<noteq> None
      \<and> (case idx (k_groups cfg) (int 1) of None \<Rightarrow> False | Some gg \<Rightarrow> gg_gid gg = 101
           \<and> (case gg_endnames gg ! 2 of None \<Rightarrow> False | Some names \<Rightarrow> length names = length (gg_servers gg)) \<and> gg_mendnames gg ! 2 \<noteq> None))"
    by code_simp
  then show ?thesis by (fastforce split: option.splits)
qed

theorem shard_harness_group_size_witness:
  "\<exists>cfg cfg'. ex_shards = Some cfg \<and> ex_client cfg = Some cfg' \<and> k_nmasters cfg \<le> k_n cfg"
proof -
  obtain cfg cfg1 where ex: "ex_shards = Some cfg" "ex_client cfg = Some cfg1" using ex_shards_facts by blast
  with shard_harness_group_size show ?thesis unfolding ex_client_def by blast
qed

theorem ShutdownServer_isolates_one_server_witness:
  "\<exists>cfg cfg'. ex_shards = Some cfg \<and> sk_ShutdownServer 1 2 cfg = Some cfg' \<and> nw_servers (k_net cfg') (servername 101 2) = None
    \<and> nw_servers (k_net cfg') (servername 101 1) = nw_servers (k_net cfg) (servername 101 1)"
proof -
  obtain cfg cfg' gg names mnames where ex: "ex_shards = Some cfg" "sk_ShutdownServer 1 2 cfg = Some cfg'"
      "idx (k_groups cfg) (int 1) = Some gg" "gg_endnames gg ! 2 = Some names" "length names = length (gg_servers gg)"
      "gg_mendnames gg ! 2 = Some mnames" "gg_gid gg = 101" using ex_shards_facts by blast
  from ShutdownServer_isolates_one_server [OF ex(2-6)] ex(1,2,7) show ?thesis by auto
qed

end
