(* ===== verification/Lin_Heap.thy ===== *)
theory Lin_Heap
  imports Go_Prelude
begin

text \<open>
  The data of the linearizability checker (\<open>src/src/linearizability/model.go\<close> and the first half of
  \<open>src/src/linearizability/linearizability.go\<close>): operations, events and entries, and the doubly linked
  list of nodes that the search cuts operations out of (\<open>lift\<close>) and puts back (\<open>unlift\<close>).

  A pointer \<open>*node\<close> is a \<open>nat option\<close>, an index into the heap of nodes or \<open>None\<close> for \<open>nil\<close>; following
  \<open>nil\<close> panics (\<open>None\<close>). The fields of a node are read again from the heap where the code reads
  them again, since \<open>lift\<close> and \<open>unlift\<close> change nodes they still use. \<open>'v\<close> is the dynamic type of the
  values in the history.

  \<open>sort.Sort\<close> is not stable, so the order of entries with equal times is not determined: the sorting
  routine is the argument \<open>sorter\<close>, with its contract the locale \<open>sort_routine\<close>.
\<close>

section \<open>Operations, events and entries\<close>

record 'v Operation =
  Input :: 'v
  Call :: int
  Output :: 'v
  Return :: int

datatype EventKind = CallEvent | ReturnEvent

record 'v Event =
  Kind :: EventKind
  EvValue :: 'v
  EvId :: nat

datatype entryKind = callEntry | returnEntry

record 'v entry =
  ekind :: entryKind
  evalue :: 'v
  eid :: nat
  etime :: int

text \<open>The loop of \<open>makeEntries\<close>: two entries per operation, with the operation's number.\<close>

fun op_entries :: "nat \<Rightarrow> 'v Operation list \<Rightarrow> 'v entry list" where
  "op_entries n [] = []"
| "op_entries n (e # es) =
     \<lparr>ekind = callEntry, evalue = Input e, eid = n, etime = Call e\<rparr>
     # \<lparr>ekind = returnEntry, evalue = Output e, eid = n, etime = Return e\<rparr>
     # op_entries (n + 1) es"

definition makeEntries :: "('v entry list \<Rightarrow> 'v entry list) \<Rightarrow> 'v Operation list \<Rightarrow> 'v entry list" where
  "makeEntries sorter history = sorter (op_entries 0 history)"

fun renumber_loop :: "(nat \<rightharpoonup> nat) \<Rightarrow> nat \<Rightarrow> 'v Event list \<Rightarrow> 'v Event list" where
  "renumber_loop m n [] = []"
| "renumber_loop m n (v # vs) =
     (case m (EvId v) of
        Some r \<Rightarrow> \<lparr>Kind = Kind v, EvValue = EvValue v, EvId = r\<rparr> # renumber_loop m n vs
      | None \<Rightarrow> \<lparr>Kind = Kind v, EvValue = EvValue v, EvId = n\<rparr>
                # renumber_loop (m(EvId v \<mapsto> n)) (n + 1) vs)"

definition renumber :: "'v Event list \<Rightarrow> 'v Event list" where
  "renumber events = renumber_loop Map.empty 0 events"

definition convertEntries :: "'v Event list \<Rightarrow> 'v entry list" where
  "convertEntries events =
     map (\<lambda>elem. \<lparr>ekind = (if Kind elem = ReturnEvent then returnEntry else callEntry),
                  evalue = EvValue elem, eid = EvId elem, etime = - 1\<rparr>) events"

section \<open>Nodes\<close>

type_synonym ptr = "nat option"

record 'v node =
  nvalue :: "'v option"
  nmatch :: ptr
  nid :: nat
  nnext :: ptr
  nprev :: ptr

type_synonym 'v heap = "'v node list"

definition field :: "('v node \<Rightarrow> 'x) \<Rightarrow> ptr \<Rightarrow> 'v heap \<Rightarrow> 'x option" where
  "field f p h = do { a \<leftarrow> p; n \<leftarrow> idx h (int a); Some (f n) }"

definition set_next :: "ptr \<Rightarrow> ptr \<Rightarrow> 'v heap \<Rightarrow> 'v heap option" where
  "set_next p q h = do { a \<leftarrow> p; n \<leftarrow> idx h (int a); Some (h[a := n\<lparr>nnext := q\<rparr>]) }"

definition set_prev :: "ptr \<Rightarrow> ptr \<Rightarrow> 'v heap \<Rightarrow> 'v heap option" where
  "set_prev p q h = do { a \<leftarrow> p; n \<leftarrow> idx h (int a); Some (h[a := n\<lparr>nprev := q\<rparr>]) }"

definition alloc :: "'v node \<Rightarrow> 'v heap \<Rightarrow> 'v heap \<times> nat" where
  "alloc n h = (h @ [n], length h)"

definition insertBefore :: "ptr \<Rightarrow> ptr \<Rightarrow> 'v heap \<Rightarrow> ('v heap \<times> ptr) option" where
  "insertBefore n mark h =
     (if mark = None then Some (h, n)
      else do {
        beforeMark \<leftarrow> field nprev mark h;
        h1 \<leftarrow> set_prev mark n h;
        h2 \<leftarrow> set_next n mark h1;
        if beforeMark = None then Some (h2, n)
        else do { h3 \<leftarrow> set_prev n beforeMark h2; h4 \<leftarrow> set_next beforeMark n h3; Some (h4, n) }
      })"

partial_function (option) length_loop :: "'v heap \<Rightarrow> ptr \<Rightarrow> nat \<Rightarrow> nat option" where
  "length_loop h n l =
     (if n = None then Some l
      else do { n' \<leftarrow> field nnext n h; length_loop h n' (l + 1) })"

declare length_loop.simps [code]

definition node_length :: "'v heap \<Rightarrow> ptr \<Rightarrow> nat option" where
  "node_length h n = length_loop h n 0"

text \<open>The loop of \<open>makeLinkedEntries\<close>, over the entries from the last to the first.\<close>

fun link_loop :: "'v entry list \<Rightarrow> 'v heap \<Rightarrow> ptr \<Rightarrow> (nat \<rightharpoonup> nat) \<Rightarrow> ('v heap \<times> ptr) option" where
  "link_loop [] h root match = Some (h, root)"
| "link_loop (elem # es) h root match =
     (let m = (if ekind elem = returnEntry then None else match (eid elem));
          (h1, a) = alloc \<lparr>nvalue = Some (evalue elem), nmatch = m, nid = eid elem, nnext = None, nprev = None\<rparr> h;
          match' = (if ekind elem = returnEntry then match(eid elem \<mapsto> a) else match)
      in do {
        (h2, n) \<leftarrow> insertBefore (Some a) root h1;
        link_loop es h2 (Some a) match'
      })"

definition makeLinkedEntries :: "'v entry list \<Rightarrow> ('v heap \<times> ptr) option" where
  "makeLinkedEntries entries = link_loop (rev entries) [] None Map.empty"

definition lift :: "ptr \<Rightarrow> 'v heap \<Rightarrow> 'v heap option" where
  "lift e h =
     do {
       p \<leftarrow> field nprev e h; x \<leftarrow> field nnext e h; h1 \<leftarrow> set_next p x h;
       x \<leftarrow> field nnext e h1; p \<leftarrow> field nprev e h1; h2 \<leftarrow> set_prev x p h1;
       m \<leftarrow> field nmatch e h2;
       p \<leftarrow> field nprev m h2; x \<leftarrow> field nnext m h2; h3 \<leftarrow> set_next p x h2;
       x \<leftarrow> field nnext m h3;
       if x \<noteq> None then do { p \<leftarrow> field nprev m h3; set_prev x p h3 } else Some h3
     }"

definition unlift :: "ptr \<Rightarrow> 'v heap \<Rightarrow> 'v heap option" where
  "unlift e h =
     do {
       m \<leftarrow> field nmatch e h;
       p \<leftarrow> field nprev m h; h1 \<leftarrow> set_next p m h;
       x \<leftarrow> field nnext m h1;
       h2 \<leftarrow> (if x \<noteq> None then set_prev x m h1 else Some h1);
       p \<leftarrow> field nprev e h2; h3 \<leftarrow> set_next p e h2;
       x \<leftarrow> field nnext e h3; set_prev x e h3
     }"

section \<open>Doubly linked lists\<close>

fun hd_ptr :: "nat list \<Rightarrow> ptr \<Rightarrow> ptr" where
  "hd_ptr [] q = q"
| "hd_ptr (a # xs) q = Some a"

fun last_ptr :: "ptr \<Rightarrow> nat list \<Rightarrow> ptr" where
  "last_ptr p [] = p"
| "last_ptr p (a # xs) = last_ptr (Some a) xs"

text \<open>The nodes \<open>xs\<close> are linked in this order, after \<open>p\<close> and before \<open>q\<close>.\<close>

fun chain :: "'v heap \<Rightarrow> ptr \<Rightarrow> nat list \<Rightarrow> ptr \<Rightarrow> bool" where
  "chain h p [] q = True"
| "chain h p (a # xs) q =
     (a < length h \<and> nprev (h ! a) = p \<and> nnext (h ! a) = hd_ptr xs q \<and> chain h (Some a) xs q)"

lemma hd_ptr_append: "hd_ptr (xs @ ys) q = hd_ptr xs (hd_ptr ys q)"
  by (cases xs) auto

lemma last_ptr_append [simp]: "last_ptr p (xs @ ys) = last_ptr (last_ptr p xs) ys"
  by (induction xs arbitrary: p) auto

lemma chain_append: "chain h p (xs @ ys) q \<longleftrightarrow> chain h p xs (hd_ptr ys q) \<and> chain h (last_ptr p xs) ys q"
  by (induction xs arbitrary: p) (auto simp: hd_ptr_append)

lemma chain_less: "chain h p xs q \<Longrightarrow> a \<in> set xs \<Longrightarrow> a < length h"
  by (induction xs arbitrary: p) auto

lemma chain_frame: "a \<notin> set xs \<Longrightarrow> chain (h[a := n]) p xs q = chain h p xs q"
  by (induction xs arbitrary: p) auto

lemma chain_new_next:
  assumes "chain h p (us @ [a]) q" and "a \<notin> set us"
  shows "chain (h[a := (h ! a)\<lparr>nnext := q'\<rparr>]) p (us @ [a]) q'"
  using assms by (auto simp: chain_append chain_frame)

lemma chain_new_prev:
  assumes "chain h p (b # vs) q" and "b \<notin> set vs"
  shows "chain (h[b := (h ! b)\<lparr>nprev := p'\<rparr>]) p' (b # vs) q"
  using assms by (auto simp: chain_frame)

text \<open>Cutting out one node and linking it in again.\<close>

definition unlink :: "nat \<Rightarrow> 'v heap \<Rightarrow> 'v heap option" where
  "unlink e h =
     do {
       h1 \<leftarrow> set_next (nprev (h ! e)) (nnext (h ! e)) h;
       if nnext (h ! e) \<noteq> None then set_prev (nnext (h ! e)) (nprev (h ! e)) h1 else Some h1
     }"

definition relink :: "nat \<Rightarrow> 'v heap \<Rightarrow> 'v heap option" where
  "relink e h =
     do {
       h1 \<leftarrow> set_next (nprev (h ! e)) (Some e) h;
       if nnext (h ! e) \<noteq> None then set_prev (nnext (h ! e)) (Some e) h1 else Some h1
     }"

definition same_data :: "'v heap \<Rightarrow> 'v heap \<Rightarrow> bool" where
  "same_data h h' \<longleftrightarrow> length h' = length h
     \<and> (\<forall>a. nvalue (h' ! a) = nvalue (h ! a) \<and> nmatch (h' ! a) = nmatch (h ! a) \<and> nid (h' ! a) = nid (h ! a))"

lemma same_data_trans: "same_data h h1 \<Longrightarrow> same_data h1 h2 \<Longrightarrow> same_data h h2"
  by (simp add: same_data_def)

lemma same_data_refl [simp]: "same_data h h"
  by (simp add: same_data_def)

lemma set_next_Some [simp]: "a < length h \<Longrightarrow> set_next (Some a) q h = Some (h[a := (h ! a)\<lparr>nnext := q\<rparr>])"
  by (simp add: set_next_def)

lemma set_prev_Some [simp]: "a < length h \<Longrightarrow> set_prev (Some a) q h = Some (h[a := (h ! a)\<lparr>nprev := q\<rparr>])"
  by (simp add: set_prev_def)

lemma field_Some [simp]: "a < length h \<Longrightarrow> field f (Some a) h = Some (f (h ! a))"
  by (simp add: field_def)

lemma same_data_update:
  assumes "nvalue n = nvalue (h ! a)" "nmatch n = nmatch (h ! a)" "nid n = nid (h ! a)"
  shows "same_data h (h[a := n])"
  using assms by (cases "a < length h") (auto simp: same_data_def nth_list_update list_update_beyond)

lemma next_id: "nnext (h ! a) = q \<Longrightarrow> h[a := (h ! a)\<lparr>nnext := q\<rparr>] = h"
  and prev_id: "nprev (h ! a) = q \<Longrightarrow> h[a := (h ! a)\<lparr>nprev := q\<rparr>] = h"
  by auto

lemma unlink_chain:
  assumes "chain h None (us @ a # e # vs) None" and "distinct (us @ a # e # vs)"
  shows "\<exists>h'. unlink e h = Some h' \<and> chain h' None (us @ a # vs) None \<and> relink e h' = Some h
    \<and> same_data h h' \<and> (\<forall>x. x \<notin> set (us @ a # vs) \<longrightarrow> h' ! x = h ! x)"
proof -
  have ch: "chain h None (us @ [a]) (Some e)" "a < length h" "e < length h" "nprev (h ! e) = Some a"
    "nnext (h ! e) = hd_ptr vs None" "chain h (Some e) vs None" "nnext (h ! a) = Some e"
    using assms(1) by (auto simp: chain_append)
  define h1 where "h1 = h[a := (h ! a)\<lparr>nnext := hd_ptr vs None\<rparr>]"
  have ch1: "chain h1 None (us @ [a]) (hd_ptr vs None)"
    unfolding h1_def using chain_new_next [OF ch(1)] assms(2) by simp
  have other1: "x \<noteq> a \<Longrightarrow> h1 ! x = h ! x" for x by (simp add: h1_def)
  have same1: "same_data h h1" unfolding h1_def by (rule same_data_update) simp_all
  have back1: "h1[a := (h1 ! a)\<lparr>nnext := Some e\<rparr>] = h" using ch by (simp add: h1_def next_id)
  show ?thesis
  proof (cases vs)
    case Nil
    with ch ch1 assms(2) have "unlink e h = Some h1" "relink e h1 = Some h"
      using other1 [of e] back1 by (auto simp: unlink_def relink_def h1_def)
    with ch1 Nil other1 same1 show ?thesis by auto
  next
    case (Cons b ws)
    define h2 where "h2 = h1[b := (h1 ! b)\<lparr>nprev := Some a\<rparr>]"
    have b: "b < length h" "nprev (h ! b) = Some e" "b \<noteq> a" "b \<noteq> e"
      using ch(6) assms(2) Cons by auto
    have "chain h1 (Some e) (b # ws) None" using ch(6) assms(2) Cons unfolding h1_def by (subst chain_frame) auto
    then have "chain h2 (Some a) (b # ws) None" unfolding h2_def using assms(2) Cons by (intro chain_new_prev) auto
    moreover have "chain h2 None (us @ [a]) (hd_ptr (b # ws) None)"
      using ch1 assms(2) Cons unfolding h2_def by (subst chain_frame) auto
    ultimately have "chain h2 None ((us @ [a]) @ b # ws) None"
      unfolding chain_append by simp
    moreover have "unlink e h = Some h2"
      using ch b Cons by (simp add: unlink_def h1_def h2_def)
    moreover have "relink e h2 = Some h"
    proof -
      have "h2 ! e = h ! e" "h2 ! a = h1 ! a" "a < length h2" "b < length h2"
        using b other1 [of e] assms(2) ch by (auto simp: h2_def h1_def)
      moreover have "h2[a := (h1 ! a)\<lparr>nnext := Some e\<rparr>] = h[b := (h ! b)\<lparr>nprev := Some a\<rparr>]"
        unfolding h2_def using b back1 other1 [of b] by (simp add: list_update_swap [of b a])
      ultimately show ?thesis using b ch Cons by (simp add: relink_def prev_id)
    qed
    moreover have "same_data h h2"
      by (rule same_data_trans [OF same1]) (unfold h2_def, rule same_data_update, simp_all)
    moreover have "x \<notin> set (us @ a # vs) \<Longrightarrow> h2 ! x = h ! x" for x
      using other1 [of x] Cons by (simp add: h2_def)
    ultimately show ?thesis using Cons by auto
  qed
qed

text \<open>
  Lifting an operation cuts its two nodes out of the list and changes nothing else of the nodes;
  putting it back restores the heap exactly.
\<close>

lemma lift_unlink:
  assumes "unlink e h = Some h1" and "unlink m h1 = Some h2" and "e < length h" and "m < length h1"
    and "nmatch (h ! e) = Some m" and "h1 ! e = h ! e" and "same_data h h1"
    and "nprev (h ! e) = Some p" "p \<noteq> e" "nnext (h ! e) = Some x" "x < length h" "p < length h"
    and "nprev (h1 ! m) = Some p'" "p' \<noteq> m" "p' < length h1"
  shows "lift (Some e) h = Some h2"
proof -
  have "e < length h1" using assms(3,7) by (simp add: same_data_def)
  have h1: "h1 = h[p := (h ! p)\<lparr>nnext := Some x\<rparr>, x := (h[p := (h ! p)\<lparr>nnext := Some x\<rparr>] ! x)\<lparr>nprev := Some p\<rparr>]"
    using assms by (simp add: unlink_def)
  have "lift (Some e) h = do {
       p \<leftarrow> field nprev (Some m) h1; x \<leftarrow> field nnext (Some m) h1; h3 \<leftarrow> set_next p x h1;
       x \<leftarrow> field nnext (Some m) h3;
       if x \<noteq> None then do { p \<leftarrow> field nprev (Some m) h3; set_prev x p h3 } else Some h3 }"
    using assms \<open>e < length h1\<close> by (simp add: lift_def flip: h1)
  then show ?thesis
    using assms(2,4,13-15) by (cases "nnext (h1 ! m)") (simp_all add: unlink_def)
qed

lemma unlift_relink:
  assumes "relink m h2 = Some h1" and "relink e h1 = Some h" and "e < length h2" and "m < length h2"
    and "length h1 = length h2" and "nmatch (h2 ! e) = Some m" and "h1 ! m = h2 ! m"
    and "nprev (h2 ! m) = Some p'" "p' \<noteq> m" "p' < length h2"
    and "nprev (h1 ! e) = Some p" "p \<noteq> e" "p < length h1" "nnext (h1 ! e) \<noteq> None"
  shows "unlift (Some e) h2 = Some h"
  using assms by (auto simp: unlift_def relink_def)

lemma lift_chain:
  assumes "chain h None (us @ a # e # vs @ m # ws) None" and "distinct (us @ a # e # vs @ m # ws)"
    and "nmatch (h ! e) = Some m"
  shows "\<exists>h'. lift (Some e) h = Some h' \<and> chain h' None (us @ a # vs @ ws) None \<and> unlift (Some e) h' = Some h
    \<and> same_data h h'"
proof -
  obtain h1 where h1: "unlink e h = Some h1" "chain h1 None (us @ a # vs @ m # ws) None" "relink e h1 = Some h"
    "same_data h h1" "\<forall>x. x \<notin> set (us @ a # vs @ m # ws) \<longrightarrow> h1 ! x = h ! x"
    using unlink_chain [OF assms(1,2)] by blast
  obtain us' a' where us': "us @ a # vs = us' @ [a']" by (metis append_butlast_last_id append_is_Nil_conv list.distinct(1))
  then have split: "us @ a # vs @ m # ws = us' @ a' # m # ws" "us @ a # vs @ ws = us' @ a' # ws"
    by (metis append.assoc append_Cons append_Nil)+
  have d: "distinct (us @ a # vs @ m # ws)" using assms(2) by auto
  then have d': "distinct (us' @ a' # m # ws)" unfolding split(1) .
  with h1(2) obtain h2 where h2: "unlink m h1 = Some h2" "chain h2 None (us' @ a' # ws) None"
    "relink m h2 = Some h1" "same_data h1 h2" "\<forall>x. x \<notin> set (us' @ a' # ws) \<longrightarrow> h2 ! x = h1 ! x"
    unfolding split(1) using unlink_chain by blast
  have len: "length h1 = length h" "length h2 = length h" using h1(4) h2(4) by (simp_all add: same_data_def)
  have e: "e \<notin> set (us @ a # vs @ m # ws)" using assms(2) by auto
  then have "h1 ! e = h ! e" "h2 ! e = h ! e" using h1(5) h2(5) split by (metis, metis Un_iff set_append set_ConsD list.set_intros)
  have prev: "nprev (h ! e) = Some a" "nprev (h1 ! m) = Some a'" "a \<noteq> e" "a' \<noteq> m" "m < length h1" "e < length h"
    "a < length h" "a' < length h1"
    using assms(1,2) h1(2) d' unfolding split(1) by (auto simp: chain_append)
  obtain x where x: "nnext (h ! e) = Some x" "x < length h"
    using assms(1) by (cases vs) (auto simp: chain_append)
  have m: "h2 ! m = h1 ! m" using h2(5) d' by auto
  have "lift (Some e) h = Some h2"
    using lift_unlink [OF h1(1) h2(1) prev(6,5) assms(3) \<open>h1 ! e = h ! e\<close> h1(4) prev(1,3) x prev(7) prev(2,4,8)] .
  moreover have "unlift (Some e) h2 = Some h"
    using unlift_relink [OF h2(3) h1(3)] prev x m len assms(3) \<open>h1 ! e = h ! e\<close> \<open>h2 ! e = h ! e\<close> by simp
  moreover have "chain h2 None (us @ a # vs @ ws) None" using h2(2) unfolding split(2) .
  ultimately show ?thesis using same_data_trans [OF h1(4) h2(4)] by blast
qed

section \<open>Building the list\<close>

lemma chain_heap_append: "chain h p xs q \<Longrightarrow> chain (h @ [n]) p xs q"
  by (induction xs arbitrary: p) (auto simp: nth_append)

lemma insertBefore_chain:
  assumes "chain h None (r # rs) None" and "distinct (a # r # rs)" and "a < length h" and "nprev (h ! a) = None"
  shows "\<exists>h'. insertBefore (Some a) (Some r) h = Some (h', Some a) \<and> chain h' None (a # r # rs) None \<and> same_data h h'"
proof -
  define h1 where "h1 = h[r := (h ! r)\<lparr>nprev := Some a\<rparr>]"
  define h2 where "h2 = h1[a := (h1 ! a)\<lparr>nnext := Some r\<rparr>]"
  have r: "r < length h" "nprev (h ! r) = None" using assms(1) by auto
  have "chain h1 (Some a) (r # rs) None" unfolding h1_def using assms(1,2) by (intro chain_new_prev) auto
  then have "chain h2 (Some a) (r # rs) None" unfolding h2_def using assms(2) by (subst chain_frame) auto
  moreover have "same_data h h2"
    by (rule same_data_trans [of _ h1]) (simp_all add: h1_def h2_def same_data_update)
  moreover have "insertBefore (Some a) (Some r) h = Some (h2, Some a)"
    using r assms(2,3) by (simp add: insertBefore_def h1_def h2_def)
  ultimately show ?thesis using assms(2-4) r by (auto simp: h2_def h1_def)
qed

lemma length_loop_chain: "chain h p xs None \<Longrightarrow> length_loop h (hd_ptr xs None) l = Some (l + length xs)"
proof (induction xs arbitrary: p l)
  case Nil
  then show ?case by (simp add: length_loop.simps)
next
  case (Cons a xs)
  then show ?case by (subst length_loop.simps) auto
qed

text \<open>What \<open>makeLinkedEntries\<close> writes into the nodes besides the links.\<close>

definition node_data :: "'v node \<Rightarrow> 'v option \<times> ptr \<times> nat" where
  "node_data n = (nvalue n, nmatch n, nid n)"

fun datas :: "(nat \<rightharpoonup> nat) \<Rightarrow> nat \<Rightarrow> 'v entry list \<Rightarrow> ('v option \<times> ptr \<times> nat) list" where
  "datas match k [] = []"
| "datas match k (e # es) =
     (Some (evalue e), if ekind e = returnEntry then None else match (eid e), eid e)
     # datas (if ekind e = returnEntry then match(eid e \<mapsto> k) else match) (Suc k) es"

lemma same_data_node_data: "same_data h h' \<Longrightarrow> map node_data h' = map node_data h"
  by (rule nth_equalityI) (auto simp: same_data_def node_data_def)

definition top_ptr :: "'v heap \<Rightarrow> ptr" where
  "top_ptr h = hd_ptr (rev [0..<length h]) None"

lemma link_loop_chain:
  assumes "chain h None (rev [0..<length h]) None"
  shows "\<exists>h'. link_loop es h (top_ptr h) match = Some (h', top_ptr h')
    \<and> chain h' None (rev [0..<length h']) None
    \<and> map node_data h' = map node_data h @ datas match (length h) es"
  using assms
proof (induction es arbitrary: h match)
  case (Cons e es)
  let ?n = "\<lparr>nvalue = Some (evalue e), nmatch = (if ekind e = returnEntry then None else match (eid e)),
    nid = eid e, nnext = None, nprev = None\<rparr>"
  let ?match = "if ekind e = returnEntry then match(eid e \<mapsto> length h) else match"
  obtain h2 where h2: "insertBefore (Some (length h)) (top_ptr h) (h @ [?n]) = Some (h2, Some (length h))"
    "chain h2 None (length h # rev [0..<length h]) None" "same_data (h @ [?n]) h2"
  proof (cases h)
    case Nil
    then show ?thesis using that [of "[?n]"] by (simp add: insertBefore_def top_ptr_def)
  next
    case (Cons x xs)
    then have rev: "rev [0..<length h] = (length xs) # rev [0..<length xs]" by simp
    have "chain (h @ [?n]) None (length xs # rev [0..<length xs]) None"
      using chain_heap_append [OF Cons.prems] unfolding rev .
    then show ?thesis
      using insertBefore_chain [of "h @ [?n]" "length xs" "rev [0..<length xs]" "length h"] that Cons
      by (auto simp: top_ptr_def nth_append)
  qed
  have len: "length h2 = Suc (length h)" using h2(3) by (simp add: same_data_def)
  then have "chain h2 None (rev [0..<length h2]) None" "top_ptr h2 = Some (length h)"
    using h2(2) by (simp_all add: top_ptr_def)
  with Cons.IH [of h2 ?match] len obtain h' where h': "link_loop es h2 (Some (length h)) ?match = Some (h', top_ptr h')"
    "chain h' None (rev [0..<length h']) None"
    "map node_data h' = map node_data h2 @ datas ?match (Suc (length h)) es"
    by auto
  have "map node_data h2 = map node_data h @ [node_data ?n]"
    using same_data_node_data [OF h2(3)] by simp
  moreover have "node_data ?n = (Some (evalue e), if ekind e = returnEntry then None else match (eid e), eid e)"
    by (simp add: node_data_def)
  ultimately show ?case
    using h' h2(1) by (intro exI [of _ h']) (simp add: alloc_def Let_def)
qed simp

lemma length_datas [simp]: "length (datas match k es) = length es"
  by (induction es arbitrary: match k) auto

lemma datas_value: "j < length es \<Longrightarrow> fst (datas match k es ! j) = Some (evalue (es ! j)) \<and> snd (snd (datas match k es ! j)) = eid (es ! j)"
  by (induction es arbitrary: match k j) (auto simp: nth_Cons split: nat.splits)

lemma datas_return: "j < length es \<Longrightarrow> ekind (es ! j) = returnEntry \<Longrightarrow> fst (snd (datas match k es ! j)) = None"
  by (induction es arbitrary: match k j) (auto simp: nth_Cons split: nat.splits)

text \<open>A call gets the return of the same number that comes next in the history.\<close>

lemma datas_kept:
  assumes "j < length es" and "ekind (es ! j) = callEntry"
    and "\<forall>i < j. \<not> (ekind (es ! i) = returnEntry \<and> eid (es ! i) = eid (es ! j))"
  shows "fst (snd (datas match k es ! j)) = match (eid (es ! j))"
  using assms
proof (induction es arbitrary: match k j)
  case (Cons e es)
  show ?case
  proof (cases j)
    case (Suc j')
    let ?match = "if ekind e = returnEntry then match(eid e \<mapsto> k) else match"
    have "fst (snd (datas ?match (Suc k) es ! j')) = ?match (eid (es ! j'))"
      using Cons.prems Suc by (intro Cons.IH) force+
    moreover have "?match (eid (es ! j')) = match (eid (es ! j'))"
      using Cons.prems(3) Suc by (auto dest: spec [of _ 0])
    ultimately show ?thesis using Suc by simp
  qed (use Cons.prems in simp)
qed simp

lemma datas_call:
  assumes "i < j" and "j < length es" and "ekind (es ! j) = callEntry"
    and "ekind (es ! i) = returnEntry" and "eid (es ! i) = eid (es ! j)"
    and "\<forall>i' < j. i' \<noteq> i \<longrightarrow> \<not> (ekind (es ! i') = returnEntry \<and> eid (es ! i') = eid (es ! j))"
  shows "fst (snd (datas match k es ! j)) = Some (k + i)"
  using assms
proof (induction es arbitrary: match k i j)
  case (Cons e es)
  then obtain j' where j: "j = Suc j'" by (cases j) auto
  let ?match = "if ekind e = returnEntry then match(eid e \<mapsto> k) else match"
  show ?case
  proof (cases i)
    case 0
    have "fst (snd (datas ?match (Suc k) es ! j')) = ?match (eid (es ! j'))"
      using Cons.prems j 0 by (intro datas_kept) force+
    with Cons.prems j 0 show ?thesis by auto
  next
    case (Suc i')
    have "fst (snd (datas ?match (Suc k) es ! j')) = Some (Suc k + i')"
      using Cons.prems j Suc by (intro Cons.IH) force+
    with j Suc show ?thesis by simp
  qed
qed simp

text \<open>
  A complete history of \<open>n\<close> operations: every number below \<open>n\<close> has one call entry and, later, one
  return entry, and there are no other entries.
\<close>

definition complete_history :: "nat \<Rightarrow> 'v entry list \<Rightarrow> bool" where
  "complete_history n E \<longleftrightarrow>
     length E = 2 * n \<and> (\<forall>i < length E. eid (E ! i) < n)
     \<and> (\<forall>x < n. \<exists>c r. c < r \<and> r < length E \<and> {i. i < length E \<and> eid (E ! i) = x} = {c, r}
          \<and> ekind (E ! c) = callEntry \<and> ekind (E ! r) = returnEntry)"

end
