(* ===== verification/Lin_Search.thy ===== *)
theory Lin_Search
  imports Go_Prelude
begin

text \<open>
  The search space of the linearizability checker, apart from how the checker represents it. A
  history is a list of nodes; \<open>m\<close> gives the return of a call and \<open>None\<close> for a return. An operation may
  be executed next when no return precedes its call among the operations not yet executed.
  \<open>completable S s\<close> says that from state \<open>s\<close>, with the operations \<open>S\<close> executed, the rest can be executed.

  The locale \<open>search_space\<close> shows what makes depth-first search with a cache of visited
  configurations correct: what may be concluded when the search skips an operation, executes one,
  or meets a return and goes back. \<open>src/src/linearizability/linearizability.go\<close> implements this
  search; \<open>Lin_Check\<close> interprets the locale on it.
\<close>

section \<open>Histories and configurations\<close>

definition calls_of :: "nat list \<Rightarrow> (nat \<rightharpoonup> nat) \<Rightarrow> nat set" where
  "calls_of xs m = {c \<in> set xs. m c \<noteq> None}"

definition remaining :: "nat list \<Rightarrow> (nat \<rightharpoonup> nat) \<Rightarrow> nat set \<Rightarrow> nat list" where
  "remaining xs m S = filter (\<lambda>a. a \<notin> S \<and> a \<notin> (the \<circ> m) ` S) xs"

definition candidate :: "nat list \<Rightarrow> (nat \<rightharpoonup> nat) \<Rightarrow> nat set \<Rightarrow> nat \<Rightarrow> bool" where
  "candidate xs m S c \<longleftrightarrow>
     (\<exists>us vs. remaining xs m S = us @ c # vs \<and> (\<forall>u \<in> set us. m u \<noteq> None) \<and> m c \<noteq> None)"

inductive completable ::
  "nat list \<Rightarrow> (nat \<rightharpoonup> nat) \<Rightarrow> ('s \<Rightarrow> nat \<Rightarrow> bool \<times> 's) \<Rightarrow> nat set \<Rightarrow> 's \<Rightarrow> bool"
  for xs :: "nat list" and m :: "nat \<rightharpoonup> nat" and stp :: "'s \<Rightarrow> nat \<Rightarrow> bool \<times> 's"
where
  complete: "remaining xs m S = [] \<Longrightarrow> completable xs m stp S s"
| execute: "candidate xs m S c \<Longrightarrow> stp s c = (True, s') \<Longrightarrow> completable xs m stp (insert c S) s'
    \<Longrightarrow> completable xs m stp S s"

inductive_cases completableE: "completable xs m stp S s"

text \<open>An order of operations that the model accepts from state \<open>s\<close>, and the order of the history.\<close>

fun runs :: "('s \<Rightarrow> nat \<Rightarrow> bool \<times> 's) \<Rightarrow> 's \<Rightarrow> nat list \<Rightarrow> bool" where
  "runs stp s [] \<longleftrightarrow> True"
| "runs stp s (c # os) \<longleftrightarrow> fst (stp s c) \<and> runs stp (snd (stp s c)) os"

definition before :: "nat list \<Rightarrow> nat \<Rightarrow> nat \<Rightarrow> bool" where
  "before xs a b \<longleftrightarrow> (\<exists>us vs. xs = us @ b # vs \<and> a \<in> set us)"

section \<open>Depth-first search\<close>

locale search_space =
  fixes xs :: "nat list" and m :: "nat \<rightharpoonup> nat" and stp :: "'s \<Rightarrow> nat \<Rightarrow> bool \<times> 's" and init :: 's
  assumes distinct_xs: "distinct xs"
    and return_later: "c \<in> set xs \<Longrightarrow> m c = Some r \<Longrightarrow> \<exists>us vs ws. xs = us @ c # vs @ r # ws"
    and return_no_match: "c \<in> set xs \<Longrightarrow> m c = Some r \<Longrightarrow> m r = None"
    and return_has_call: "r \<in> set xs \<Longrightarrow> m r = None \<Longrightarrow> \<exists>c \<in> set xs. m c = Some r"
    and match_inj: "c \<in> set xs \<Longrightarrow> d \<in> set xs \<Longrightarrow> m c = Some r \<Longrightarrow> m d = Some r \<Longrightarrow> c = d"
begin

abbreviation "rem \<equiv> remaining xs m"
abbreviation "compl \<equiv> completable xs m stp"

definition dead_move :: "nat set \<Rightarrow> 's \<Rightarrow> nat \<Rightarrow> bool" where
  "dead_move S s c \<longleftrightarrow> (\<forall>s'. stp s c = (True, s') \<longrightarrow> \<not> compl (insert c S) s')"

text \<open>The search stands at \<open>a\<close>, and everything before it cannot be executed next with success.\<close>

definition stands_at :: "nat set \<Rightarrow> 's \<Rightarrow> nat \<Rightarrow> nat list \<Rightarrow> bool" where
  "stands_at S s a vs \<longleftrightarrow>
     (\<exists>us. rem S = us @ a # vs \<and> (\<forall>u \<in> set us. m u \<noteq> None \<and> dead_move S s u))"

lemma stands_at_head: "rem S = a # vs \<Longrightarrow> stands_at S s a vs"
  unfolding stands_at_def by (intro exI [of _ "[]"]) simp

lemma remaining_return:
  assumes "rem S = us @ c # vs" and "m c = Some r" and "S \<subseteq> calls_of xs m"
  shows "\<exists>ws ys. vs = ws @ r # ys \<and> rem (insert c S) = us @ ws @ ys"
proof -
  let ?keep = "\<lambda>a. a \<notin> S \<and> a \<notin> (the \<circ> m) ` S"
  have "c \<in> set (rem S)" using assms(1) by simp
  then have c: "c \<in> set xs" "?keep c" by (auto simp: remaining_def)
  obtain as bs cs where x: "xs = as @ c # bs @ r # cs" using return_later [OF c(1) assms(2)] by blast
  have r: "?keep r"
  proof -
    have "r \<notin> S" using return_no_match [OF c(1) assms(2)] assms(3) by (auto simp: calls_of_def)
    moreover have "r \<noteq> the (m d)" if "d \<in> S" for d
      using that assms(2,3) c match_inj [of c d r] by (auto simp: calls_of_def)
    ultimately show ?thesis by auto
  qed
  have "us @ c # vs = filter ?keep as @ c # filter ?keep bs @ r # filter ?keep cs"
    using assms(1) x c r by (simp add: remaining_def)
  moreover have "distinct (filter ?keep as @ c # filter ?keep bs @ r # filter ?keep cs)"
    using distinct_filter [OF distinct_xs, of ?keep] x c r by simp
  ultimately have split: "us = filter ?keep as" "vs = filter ?keep bs @ r # filter ?keep cs"
    using append_Cons_eq_iff [of c "filter ?keep as" "filter ?keep bs @ r # filter ?keep cs" us vs] by auto
  have "rem (insert c S) = filter (\<lambda>a. a \<noteq> c \<and> a \<noteq> r) (filter ?keep xs)"
    using assms(2) by (auto simp: remaining_def intro: filter_cong)
  also have "\<dots> = us @ filter ?keep bs @ filter ?keep cs"
  proof -
    have "filter (\<lambda>a. a \<noteq> c \<and> a \<noteq> r) (filter ?keep l) = filter ?keep l" if "c \<notin> set l" "r \<notin> set l" for l
      using that by (auto intro!: filter_cong)
    then show ?thesis using distinct_xs x c r split by auto
  qed
  finally show ?thesis using split by blast
qed

lemma remaining_not_executed:
  assumes "rem S = us @ c # vs"
  shows "c \<notin> S" and "c \<in> set xs"
proof -
  have "c \<in> set (rem S)" using assms by simp
  then show "c \<notin> S" and "c \<in> set xs" by (auto simp: remaining_def)
qed

text \<open>Skipping an operation that cannot be executed with success.\<close>

lemma stands_at_skip:
  assumes "stands_at S s a vs" and "m a \<noteq> None" and "dead_move S s a" and "S \<subseteq> calls_of xs m"
  shows "\<exists>b ws. vs = b # ws \<and> stands_at S s b ws"
proof -
  obtain us where us: "rem S = us @ a # vs" "\<forall>u \<in> set us. m u \<noteq> None \<and> dead_move S s u"
    using assms(1) by (auto simp: stands_at_def)
  obtain r where "m a = Some r" using assms(2) by auto
  with remaining_return [OF us(1) this assms(4)] obtain b ws where vs: "vs = b # ws"
    by (metis append_is_Nil_conv list.distinct(1) neq_Nil_conv)
  with us assms(2,3) have "rem S = (us @ [a]) @ b # ws \<and> (\<forall>u \<in> set (us @ [a]). m u \<noteq> None \<and> dead_move S s u)"
    by auto
  with vs show ?thesis unfolding stands_at_def by blast
qed

lemma stands_at_candidate: "stands_at S s a vs \<Longrightarrow> m a \<noteq> None \<Longrightarrow> candidate xs m S a"
  by (auto simp: stands_at_def candidate_def)

text \<open>Standing at a return: nothing can be executed next with success.\<close>

lemma stands_at_return:
  assumes "stands_at S s a vs" and "m a = None"
  shows "\<not> compl S s"
proof
  assume "compl S s"
  obtain us where us: "rem S = us @ a # vs" "\<forall>u \<in> set us. m u \<noteq> None \<and> dead_move S s u"
    using assms(1) by (auto simp: stands_at_def)
  from \<open>compl S s\<close> show False
  proof (cases rule: completable.cases)
    case complete
    with us(1) show False by simp
  next
    case (execute c s')
    then obtain us' vs' where c: "rem S = us' @ c # vs'" "\<forall>u \<in> set us'. m u \<noteq> None" "m c \<noteq> None"
      by (auto simp: candidate_def)
    with us(1) assms(2) have "c \<in> set us"
      by (auto simp: append_eq_append_conv2 append_eq_Cons_conv Cons_eq_append_conv)
    with us(2) execute show False by (auto simp: dead_move_def)
  qed
qed

subsection \<open>The stack of executed operations\<close>

fun stack_ok :: "nat set \<Rightarrow> 's \<Rightarrow> (nat \<times> 's) list \<Rightarrow> bool" where
  "stack_ok S s [] \<longleftrightarrow> S = {} \<and> s = init"
| "stack_ok S s ((c, s0) # st) \<longleftrightarrow>
     c \<in> S \<and> m c \<noteq> None \<and> stp s0 c = (True, s) \<and> (\<exists>vs. stands_at (S - {c}) s0 c vs) \<and> stack_ok (S - {c}) s0 st"

fun configs :: "nat set \<Rightarrow> 's \<Rightarrow> (nat \<times> 's) list \<Rightarrow> (nat set \<times> 's) set" where
  "configs S s [] = {}"
| "configs S s ((c, s0) # st) = insert (S, s) (configs (S - {c}) s0 st)"

definition cache_ok :: "(nat set \<times> 's) set \<Rightarrow> nat set \<Rightarrow> 's \<Rightarrow> (nat \<times> 's) list \<Rightarrow> bool" where
  "cache_ok C S s st \<longleftrightarrow> (\<forall>(T, t) \<in> C. \<not> compl T t \<or> (T, t) \<in> configs S s st)"

lemma configs_subset: "(T, t) \<in> configs S s st \<Longrightarrow> T \<subseteq> S"
  by (induction S s st rule: configs.induct) auto

text \<open>A cached configuration with one more operation cannot be completed.\<close>

lemma cached_dead:
  assumes "cache_ok C S s st" and "(insert a S, s') \<in> C" and "a \<notin> S"
  shows "\<not> compl (insert a S) s'"
  using assms configs_subset [of "insert a S" s' S s st] by (auto simp: cache_ok_def)

lemma stack_push:
  assumes "stack_ok S s st" and "stands_at S s a vs" and "m a \<noteq> None" and "stp s a = (True, s')" and "a \<notin> S"
  shows "stack_ok (insert a S) s' ((a, s) # st)"
  using assms by auto

lemma cache_push:
  assumes "cache_ok C S s st" and "a \<notin> S"
  shows "cache_ok (insert (insert a S, s') C) (insert a S) s' ((a, s) # st)"
  using assms by (auto simp: cache_ok_def)

text \<open>Going back: the last executed operation becomes a move that cannot succeed.\<close>

lemma stack_pop:
  assumes "stack_ok S s ((c, s0) # st)" and "\<not> compl S s"
  shows "dead_move (S - {c}) s0 c" and "cache_ok C S s ((c, s0) # st) \<Longrightarrow> cache_ok C (S - {c}) s0 st"
  using assms by (auto simp: dead_move_def cache_ok_def insert_absorb)

lemma stack_found: "stack_ok S s st \<Longrightarrow> compl S s \<Longrightarrow> compl {} init"
proof (induction S s st rule: stack_ok.induct)
  case (2 S s c s0 st)
  then have "insert c (S - {c}) = S" by auto
  moreover have "candidate xs m (S - {c}) c" using 2 by (auto intro: stands_at_candidate)
  ultimately have "compl (S - {c}) s0" using 2 by (auto intro: completable.execute)
  with 2 show ?case by simp
qed simp

subsection \<open>Finitely many configurations\<close>

definition universe :: "(nat set \<times> 's) set" where
  "universe = (\<lambda>os. (set os, foldl (\<lambda>s c. snd (stp s c)) init os)) ` {os. set os \<subseteq> set xs \<and> distinct os}"

lemma finite_universe: "finite universe"
  by (simp add: universe_def finite_subset_distinct)

lemma universe_init: "({}, init) \<in> universe"
  unfolding universe_def by (rule image_eqI [of _ _ "[]"]) auto

lemma universe_step:
  assumes "(S, s) \<in> universe" and "a \<in> set xs" and "a \<notin> S" and "stp s a = (True, s')"
  shows "(insert a S, s') \<in> universe"
proof -
  obtain os where "S = set os" "s = foldl (\<lambda>s c. snd (stp s c)) init os" "set os \<subseteq> set xs" "distinct os"
    using assms(1) by (auto simp: universe_def)
  with assms(2-4) show ?thesis unfolding universe_def by (intro image_eqI [of _ _ "os @ [a]"]) auto
qed

lemma stack_universe: "stack_ok S s st \<Longrightarrow> (S, s) \<in> universe"
proof (induction S s st rule: stack_ok.induct)
  case (2 S s c s0 st)
  then obtain vs where "stands_at (S - {c}) s0 c vs" by auto
  then have "c \<in> set xs" by (auto simp: stands_at_def dest: remaining_not_executed(2))
  with 2 have "(insert c (S - {c}), s) \<in> universe" by (intro universe_step) auto
  with 2 show ?case by (simp add: insert_absorb)
qed (simp add: universe_init)

lemma cache_grows:
  assumes "C \<subseteq> universe" and "x \<in> universe" and "x \<notin> C"
  shows "card (universe - insert x C) < card (universe - C)"
proof -
  have "universe - insert x C \<subset> universe - C" using assms by auto
  then show ?thesis by (intro psubset_card_mono) (simp_all add: finite_universe)
qed

subsection \<open>Completable configurations and orders\<close>

lemma kept_return:
  assumes "d \<in> calls_of xs m" and "d \<notin> S" and "S \<subseteq> calls_of xs m" and "m d = Some r"
  shows "r \<in> set (rem S)"
proof -
  have d: "d \<in> set xs" using assms(1) by (simp add: calls_of_def)
  then have "r \<in> set xs" using return_later [OF d assms(4)] by auto
  moreover have "r \<notin> S" using return_no_match [OF d assms(4)] assms(3) by (auto simp: calls_of_def)
  moreover have "r \<noteq> the (m e)" if "e \<in> S" for e
    using that assms match_inj [of d e r] d by (auto simp: calls_of_def)
  ultimately show ?thesis by (auto simp: remaining_def)
qed

lemma kept_call:
  assumes "c \<in> calls_of xs m" and "c \<notin> S" and "S \<subseteq> calls_of xs m"
  shows "c \<in> set (rem S)"
proof -
  have "c \<noteq> the (m d)" if "d \<in> S" for d
    using that assms return_no_match [of d] by (auto simp: calls_of_def)
  with assms show ?thesis by (auto simp: remaining_def calls_of_def)
qed

lemma before_filter:
  assumes "filter P xs = us @ c # vs"
  shows "a \<in> set us \<longleftrightarrow> before xs a c \<and> P a"
proof -
  have "c \<in> set (filter P xs)" using assms by simp
  then obtain as bs where x: "xs = as @ c # bs" and "P c" by (auto simp: in_set_conv_decomp [of c])
  with assms distinct_xs have eq: "us = filter P as"
    using append_Cons_eq_iff [of c "filter P as" "filter P bs" us vs] by auto
  have "before xs a c \<longleftrightarrow> a \<in> set as"
    using distinct_xs x append_Cons_eq_iff [of c as bs] unfolding before_def by auto
  with eq show ?thesis by auto
qed

lemma candidate_iff:
  assumes "S \<subseteq> calls_of xs m"
  shows "candidate xs m S c \<longleftrightarrow> c \<in> calls_of xs m \<and> c \<notin> S
    \<and> (\<forall>d \<in> calls_of xs m - S. \<not> before xs (the (m d)) c)"
proof
  assume "candidate xs m S c"
  then obtain us vs where us: "rem S = us @ c # vs" "\<forall>u \<in> set us. m u \<noteq> None" "m c \<noteq> None"
    by (auto simp: candidate_def)
  note rest = remaining_not_executed [OF us(1)]
  have "\<not> before xs (the (m d)) c" if d: "d \<in> calls_of xs m - S" for d
  proof
    assume bf: "before xs (the (m d)) c"
    obtain r where r: "m d = Some r" using d by (auto simp: calls_of_def)
    then have "r \<in> set (rem S)" using kept_return [OF _ _ assms r] d by auto
    then have "r \<in> set us"
      using before_filter [OF us(1) [unfolded remaining_def], of r] bf r by (auto simp: remaining_def)
    moreover have "m r = None" using return_no_match [OF _ r] d by (auto simp: calls_of_def)
    ultimately show False using us(2) by auto
  qed
  with rest us(3) show "c \<in> calls_of xs m \<and> c \<notin> S \<and> (\<forall>d \<in> calls_of xs m - S. \<not> before xs (the (m d)) c)"
    by (auto simp: calls_of_def)
next
  assume c: "c \<in> calls_of xs m \<and> c \<notin> S \<and> (\<forall>d \<in> calls_of xs m - S. \<not> before xs (the (m d)) c)"
  then obtain us vs where us: "rem S = us @ c # vs" using kept_call assms by (metis split_list)
  have "m u \<noteq> None" if "u \<in> set us" for u
  proof
    assume "m u = None"
    have u: "before xs u c" "u \<in> set (rem S)"
      using before_filter [OF us [unfolded remaining_def]] that us by (auto simp: remaining_def)
    then obtain d where d: "d \<in> set xs" "m d = Some u"
      using return_has_call [OF _ \<open>m u = None\<close>] by (auto simp: remaining_def)
    moreover have "d \<notin> S" using u(2) d(2) by (force simp: remaining_def)
    ultimately have "d \<in> calls_of xs m - S" by (simp add: calls_of_def)
    with c have "\<not> before xs (the (m d)) c" by blast
    with u(1) d(2) show False by simp
  qed
  with us c show "candidate xs m S c" by (auto simp: candidate_def calls_of_def)
qed

text \<open>A configuration is completable when its remaining operations have an order that respects the history.\<close>

lemma completable_order:
  assumes "S \<subseteq> calls_of xs m"
  shows "compl S s \<longleftrightarrow> (\<exists>os. distinct os \<and> set os = calls_of xs m - S \<and> runs stp s os
    \<and> sorted_wrt (\<lambda>c d. \<not> before xs (the (m d)) c) os)"
proof
  show "\<exists>os. distinct os \<and> set os = calls_of xs m - S \<and> runs stp s os
      \<and> sorted_wrt (\<lambda>c d. \<not> before xs (the (m d)) c) os" if "compl S s"
    using that assms
  proof (induction rule: completable.induct)
    case (complete S s)
    then have "calls_of xs m - S = {}" using kept_call by fastforce
    then show ?case by (intro exI [of _ "[]"]) simp
  next
    case (execute S c s s')
    then have c: "c \<in> calls_of xs m" "c \<notin> S" "\<forall>d \<in> calls_of xs m - S. \<not> before xs (the (m d)) c"
      using candidate_iff by auto
    with execute obtain os where "distinct os" "set os = calls_of xs m - insert c S" "runs stp s' os"
      "sorted_wrt (\<lambda>c d. \<not> before xs (the (m d)) c) os" by auto
    with c execute.hyps(2) show ?case by (intro exI [of _ "c # os"]) auto
  qed
next
  assume "\<exists>os. distinct os \<and> set os = calls_of xs m - S \<and> runs stp s os
    \<and> sorted_wrt (\<lambda>c d. \<not> before xs (the (m d)) c) os"
  then obtain os where "distinct os" "set os = calls_of xs m - S" "runs stp s os"
    "sorted_wrt (\<lambda>c d. \<not> before xs (the (m d)) c) os" by blast
  then show "compl S s" using assms
  proof (induction os arbitrary: S s)
    case Nil
    have "rem S = []"
    proof (rule ccontr)
      assume "rem S \<noteq> []"
      then obtain a where a: "a \<in> set xs" "a \<notin> S" "a \<notin> (the \<circ> m) ` S" 
        by (auto simp: remaining_def filter_empty_conv)
      show False
      proof (cases "m a")
        case None
        then obtain c where "c \<in> set xs" "m c = Some a" using return_has_call a(1) by blast
        with a Nil show False by (force simp: calls_of_def)
      qed (use a Nil in \<open>auto simp: calls_of_def\<close>)
    qed
    then show ?case by (rule completable.complete)
  next
    case (Cons c os)
    have c: "c \<in> calls_of xs m" "c \<notin> S" using Cons.prems by auto
    have "\<not> before xs (the (m c)) c"
    proof -
      obtain r where r: "m c = Some r" "c \<in> set xs" using c by (auto simp: calls_of_def)
      then obtain as bs cs where "xs = as @ c # bs @ r # cs" using return_later by blast
      with before_filter [of "\<lambda>_. True" as c "bs @ r # cs" r] distinct_xs r show ?thesis by auto
    qed
    then have "candidate xs m S c" unfolding candidate_iff [OF Cons.prems(5)] using Cons.prems c by auto
    moreover have "compl (insert c S) (snd (stp s c))" using Cons.prems c by (intro Cons.IH) auto
    ultimately show ?case using Cons.prems(3) by (intro completable.execute [of xs m S c]) (auto simp: prod_eq_iff)
  qed
qed

end

end
