(* ===== verification/Lin_Bitset.thy ===== *)
theory Lin_Bitset
  imports Go_Prelude "HOL-Library.Word"
begin

text \<open>
  The bit set of the linearizability checker (\<open>src/src/linearizability/bitset.go\<close>): a slice of 64-bit
  words, with the population count computed by parallel addition inside the word. A position out of
  range panics (\<open>None\<close>). The theorems say that \<open>set\<close>, \<open>clear\<close> and \<open>get\<close> are the operations of a set of
  positions, that \<open>equals\<close> is equality of these sets, and that the parallel \<open>popcnt\<close> counts them.
\<close>

unbundle bit_operations_syntax

section \<open>Operations\<close>

type_synonym bitset = "64 word list"

definition newBitset :: "nat \<Rightarrow> bitset" where
  "newBitset bits = replicate (bits div 64 + (if bits mod 64 \<noteq> 0 then 1 else 0)) 0"

definition clone :: "bitset \<Rightarrow> bitset" where
  "clone b = map (\<lambda>i. b ! i) [0..<length b]"

definition bitsetIndex :: "nat \<Rightarrow> nat \<times> nat" where
  "bitsetIndex pos = (pos div 64, pos mod 64)"

definition bs_set :: "nat \<Rightarrow> bitset \<Rightarrow> bitset option" where
  "bs_set pos b =
     (let (major, minor) = bitsetIndex pos
      in do { v \<leftarrow> idx b (int major); set_idx b (int major) (v OR push_bit minor 1) })"

definition bs_clear :: "nat \<Rightarrow> bitset \<Rightarrow> bitset option" where
  "bs_clear pos b =
     (let (major, minor) = bitsetIndex pos
      in do { v \<leftarrow> idx b (int major); set_idx b (int major) (v AND NOT (push_bit minor 1)) })"

definition bs_get :: "nat \<Rightarrow> bitset \<Rightarrow> bool option" where
  "bs_get pos b =
     (let (major, minor) = bitsetIndex pos
      in do { v \<leftarrow> idx b (int major); Some (v AND push_bit minor 1 \<noteq> 0) })"

definition popcnt_word :: "64 word \<Rightarrow> 64 word" where
  "popcnt_word v0 =
     (let v1 = (v0 AND 0x5555555555555555) + drop_bit 1 (v0 AND 0xAAAAAAAAAAAAAAAA);
          v2 = (v1 AND 0x3333333333333333) + drop_bit 2 (v1 AND 0xCCCCCCCCCCCCCCCC);
          v3 = (v2 AND 0x0F0F0F0F0F0F0F0F) + drop_bit 4 (v2 AND 0xF0F0F0F0F0F0F0F0);
          v4 = v3 * 0x0101010101010101
      in drop_bit 56 v4 AND 0xFF)"

definition popcnt :: "bitset \<Rightarrow> 64 word" where
  "popcnt b = fold (\<lambda>v total. total + popcnt_word v) b 0"

definition hash :: "bitset \<Rightarrow> 64 word" where
  "hash b = fold (\<lambda>v h. h XOR v) b (popcnt b)"

definition bs_equals :: "bitset \<Rightarrow> bitset \<Rightarrow> bool" where
  "bs_equals b b2 = (if length b \<noteq> length b2 then False else \<forall>i \<in> set [0..<length b]. b ! i = b2 ! i)"

section \<open>A bit set is a set of positions\<close>

definition positions :: "bitset \<Rightarrow> nat set" where
  "positions b = {p. p < 64 * length b \<and> bit (b ! (p div 64)) (p mod 64)}"

lemma clone_eq [simp]: "clone b = b"
  by (simp add: clone_def map_nth)

lemma bs_equals_iff [simp]: "bs_equals b b2 \<longleftrightarrow> b = b2"
  by (auto simp: bs_equals_def intro: nth_equalityI)

lemma div64_less: "p < 64 * n \<longleftrightarrow> p div 64 < (n :: nat)"
  using div_less_iff_less_mult [of 64 p n] by (simp add: mult.commute)

lemma length_newBitset: "p < bits \<Longrightarrow> p div 64 < length (newBitset bits)"
proof -
  assume "p < bits"
  moreover have "bits = 64 * (bits div 64) + bits mod 64" by simp
  ultimately have "p < 64 * (bits div 64 + (if bits mod 64 \<noteq> 0 then 1 else 0))"
    using mod_less_divisor [of 64 bits] by (auto split: if_splits)
  then show ?thesis by (simp add: newBitset_def div64_less)
qed

lemma positions_new [simp]: "positions (newBitset bits) = {}"
  by (auto simp: positions_def newBitset_def div64_less nth_append)

lemma bit_push1: "bit (push_bit m (1 :: 64 word)) n \<longleftrightarrow> n = m \<and> m < 64"
  by (auto simp: bit_simps)

lemma bs_set_eq:
  assumes "p div 64 < length b"
  shows "\<exists>b'. bs_set p b = Some b' \<and> length b' = length b \<and> positions b' = insert p (positions b)"
proof -
  let ?b' = "b[p div 64 := (b ! (p div 64)) OR push_bit (p mod 64) 1]"
  have "bit (?b' ! (q div 64)) (q mod 64) \<longleftrightarrow> q = p \<or> bit (b ! (q div 64)) (q mod 64)"
    if "q div 64 < length b" for q
  proof (cases "q div 64 = p div 64")
    case True
    then have "q mod 64 = p mod 64 \<longleftrightarrow> q = p" by (metis mod_mult_div_eq)
    with True that show ?thesis by (auto simp: bit_simps bit_push1)
  qed (use that in auto)
  then have "positions ?b' = insert p (positions b)"
    using assms by (auto simp: positions_def div64_less)
  with assms show ?thesis by (simp add: bs_set_def bitsetIndex_def zdiv_int [symmetric])
qed

lemma bs_clear_eq:
  assumes "p div 64 < length b"
  shows "\<exists>b'. bs_clear p b = Some b' \<and> length b' = length b \<and> positions b' = positions b - {p}"
proof -
  let ?b' = "b[p div 64 := (b ! (p div 64)) AND NOT (push_bit (p mod 64) 1)]"
  have "bit (?b' ! (q div 64)) (q mod 64) \<longleftrightarrow> q \<noteq> p \<and> bit (b ! (q div 64)) (q mod 64)"
    if "q div 64 < length b" for q
  proof (cases "q div 64 = p div 64")
    case True
    then have "q mod 64 = p mod 64 \<longleftrightarrow> q = p" by (metis mod_mult_div_eq)
    with True that show ?thesis by (auto simp: bit_simps bit_push1)
  qed (use that in auto)
  then have "positions ?b' = positions b - {p}"
    using assms by (auto simp: positions_def div64_less)
  with assms show ?thesis by (simp add: bs_clear_def bitsetIndex_def zdiv_int [symmetric])
qed

lemma bs_get_eq:
  assumes "p div 64 < length b"
  shows "bs_get p b = Some (p \<in> positions b)"
proof -
  have "(b ! (p div 64)) AND push_bit (p mod 64) 1 \<noteq> 0 \<longleftrightarrow> bit (b ! (p div 64)) (p mod 64)"
    by (rule bit_iff_and_push_bit_not_eq_0 [symmetric])
  with assms show ?thesis
    by (simp add: bs_get_def bitsetIndex_def positions_def div64_less zdiv_int [symmetric])
qed

lemma positions_inject:
  assumes "length b = length b2" and "positions b = positions b2"
  shows "b = b2"
proof (rule nth_equalityI [OF assms(1)], rule bit_word_eqI)
  fix i n
  assume "i < length b" and "n < LENGTH(64)"
  then have "(64 * i + n) div 64 = i" "(64 * i + n) mod 64 = n" by auto
  with \<open>i < length b\<close> assms show "bit (b ! i) n \<longleftrightarrow> bit (b2 ! i) n"
    by (auto simp: positions_def set_eq_iff div64_less dest!: spec [of _ "64 * i + n"])
qed

section \<open>The parallel population count\<close>

text \<open>
  A word is its eight bytes. Masking, shifting and adding act on each byte separately, because no
  sum leaves its byte; on one byte the three steps are checked by a table; the multiplication adds
  the eight counts into the highest byte.
\<close>

fun bytes :: "int list \<Rightarrow> int" where
  "bytes [] = 0"
| "bytes (a # as) = concat_bit 8 a (bytes as)"

definition byte :: "int \<Rightarrow> bool" where
  "byte a \<longleftrightarrow> 0 \<le> a \<and> a < 256"

lemma byte_take_bit: "byte a \<Longrightarrow> take_bit 8 a = a"
  by (simp add: byte_def take_bit_int_eq_self)

lemma byte_high: "byte a \<Longrightarrow> 8 \<le> i \<Longrightarrow> \<not> bit a i"
  by (metis byte_take_bit bit_take_bit_iff not_less)

lemma byteI: "(\<And>i. 8 \<le> i \<Longrightarrow> \<not> bit a i) \<Longrightarrow> byte a"
proof -
  assume high: "\<And>i. 8 \<le> i \<Longrightarrow> \<not> bit a i"
  have "take_bit 8 a = a" by (rule bit_eqI) (metis bit_take_bit_iff high not_less)
  moreover have "0 \<le> take_bit 8 a" "take_bit 8 a < 2 ^ 8"
    by (simp, rule take_bit_int_less_exp)
  ultimately show "byte a" by (simp add: byte_def)
qed

lemma byte_and: "byte b \<Longrightarrow> byte (a AND b)"
  by (rule byteI) (simp add: bit_and_iff byte_high)

lemma byte_drop: "byte a \<Longrightarrow> byte (drop_bit s a)"
  by (rule byteI) (simp add: bit_drop_bit_eq byte_high)

lemma bytes_range: "0 \<le> bytes as \<and> bytes as < 256 ^ length as"
proof (induction as)
  case (Cons a as)
  have "0 \<le> take_bit 8 a" "take_bit 8 a < 256" by (simp_all add: take_bit_int_less_exp [of 8 a, simplified])
  with Cons show ?case by (simp add: concat_bit_eq push_bit_eq_mult)
qed simp

lemma bytes_and: "bytes as AND bytes (replicate (length as) m) = bytes (map (\<lambda>a. a AND m) as)"
proof (induction as)
  case (Cons a as)
  have "concat_bit 8 a x AND concat_bit 8 m y = concat_bit 8 (a AND m) (x AND y)" for x y
    by (rule bit_eqI) (auto simp: bit_concat_bit_iff bit_and_iff)
  with Cons show ?case by simp
qed simp

lemma bytes_add:
  assumes "\<forall>a \<in> set as. byte (f a) \<and> byte (g a) \<and> byte (f a + g a)"
  shows "bytes (map f as) + bytes (map g as) = bytes (map (\<lambda>a. f a + g a) as)"
  using assms by (induction as) (auto simp: concat_bit_eq byte_take_bit simp flip: push_bit_add)

definition low_clear :: "nat \<Rightarrow> int \<Rightarrow> bool" where
  "low_clear s a \<longleftrightarrow> (\<forall>i < s. \<not> bit a i)"

lemma bytes_low: "\<forall>a \<in> set as. low_clear s a \<Longrightarrow> s \<le> 8 \<Longrightarrow> low_clear s (bytes as)"
  by (cases as) (auto simp: bit_concat_bit_iff low_clear_def)

lemma bytes_shift:
  assumes "\<forall>a \<in> set as. byte a \<and> low_clear s a" and "s \<le> 8"
  shows "drop_bit s (bytes as) = bytes (map (drop_bit s) as)"
  using assms(1)
proof (induction as)
  case (Cons a as)
  have "drop_bit s (concat_bit 8 a (bytes as)) = concat_bit 8 (drop_bit s a) (drop_bit s (bytes as))"
  proof (rule bit_eqI)
    fix i
    have "low_clear s (bytes as)" using Cons.prems assms(2) bytes_low by auto
    moreover have "bit a (s + i) \<Longrightarrow> s + i < 8" using Cons.prems byte_high [of a "s + i"] by fastforce
    moreover have "8 \<le> i \<Longrightarrow> s + i - 8 = s + (i - 8)" by simp
    ultimately show "bit (drop_bit s (concat_bit 8 a (bytes as))) i
        \<longleftrightarrow> bit (concat_bit 8 (drop_bit s a) (drop_bit s (bytes as))) i"
      using assms(2) by (cases "8 \<le> i") (auto simp: bit_drop_bit_eq bit_concat_bit_iff low_clear_def)
  qed
  with Cons show ?case by simp
qed simp

lemma bytes_exist: "0 \<le> x \<Longrightarrow> x < 256 ^ n \<Longrightarrow> \<exists>as. length as = n \<and> (\<forall>a \<in> set as. byte a) \<and> x = bytes as"
proof (induction n arbitrary: x)
  case (Suc n)
  then have "0 \<le> x div 256" "x div 256 < 256 ^ n" by auto
  from Suc.IH [OF this] obtain as where as: "length as = n" "\<forall>a \<in> set as. byte a" "x div 256 = bytes as" by blast
  have "x = bytes (x mod 256 # as)"
    by (simp add: concat_bit_eq push_bit_eq_mult take_bit_eq_mod flip: as(3))
  with as show ?case by (intro exI [of _ "x mod 256 # as"]) (auto simp: byte_def)
qed simp


definition stage :: "nat \<Rightarrow> int \<Rightarrow> int \<Rightarrow> int \<Rightarrow> int" where
  "stage s m m' a = (a AND m) + drop_bit s (a AND m')"

lemma bytes_stage:
  assumes "\<forall>a \<in> set as. byte a \<and> byte (stage s m m' a)"
    and "byte m" and "byte m'" and "low_clear s m'" and "s \<le> 8"
  shows "stage s (bytes (replicate (length as) m)) (bytes (replicate (length as) m')) (bytes as)
    = bytes (map (stage s m m') as)"
proof -
  have "drop_bit s (bytes (map (\<lambda>a. a AND m') as)) = bytes (map (drop_bit s) (map (\<lambda>a. a AND m') as))"
    using assms(3-5) byte_and by (intro bytes_shift) (auto simp: low_clear_def bit_and_iff)
  then have "drop_bit s (bytes (map (\<lambda>a. a AND m') as)) = bytes (map (\<lambda>a. drop_bit s (a AND m')) as)"
    by (simp only: map_map comp_def)
  moreover have "bytes (map (\<lambda>a. a AND m) as) + bytes (map (\<lambda>a. drop_bit s (a AND m')) as)
      = bytes (map (\<lambda>a. (a AND m) + drop_bit s (a AND m')) as)"
    using assms(1-3) by (intro bytes_add) (auto simp: byte_and byte_drop stage_def simp del: drop_bit_and)
  ultimately show ?thesis by (simp only: stage_def [abs_def] bytes_and)
qed

definition bitcount :: "nat \<Rightarrow> int \<Rightarrow> int" where
  "bitcount n a = sum_list (map (\<lambda>i. of_bool (bit a i)) [0..<n])"

definition pairs :: "int \<Rightarrow> int" where "pairs = stage 1 0x55 0xAA"
definition nibbles :: "int \<Rightarrow> int" where "nibbles = stage 2 0x33 0xCC"
definition whole :: "int \<Rightarrow> int" where "whole = stage 4 0x0F 0xF0"

lemma stages_table:
  "map (\<lambda>n. whole (nibbles (pairs (int n)))) [0..<256] = map (\<lambda>n. bitcount 8 (int n)) [0..<256]"
  by code_simp

lemma byte_stage:
  assumes "0 \<le> m" "0 \<le> m'" "m + m' div 2 ^ s < 256"
  shows "byte (stage s m m' a)"
proof -
  have "a AND m \<le> m" "a AND m' \<le> m'" using assms by (simp_all add: AND_upper2)
  then have "stage s m m' a \<le> m + m' div 2 ^ s"
    unfolding stage_def drop_bit_eq_div by (intro add_mono zdiv_mono1) simp_all
  moreover have "0 \<le> stage s m m' a"
    using assms by (simp add: stage_def and_nonnegative_int_iff)
  ultimately show ?thesis using assms(3) by (simp add: byte_def)
qed

lemma bitcount_range: "0 \<le> bitcount n a \<and> bitcount n a \<le> int n"
  by (induction n) (auto simp: bitcount_def)

lemma stages_byte:
  assumes "byte a"
  shows "byte (pairs a)" "byte (nibbles (pairs a))" "whole (nibbles (pairs a)) = bitcount 8 a"
    "byte (whole (nibbles (pairs a)))" "0 \<le> bitcount 8 a" "bitcount 8 a \<le> 8"
proof -
  have "nat a < 256" and "int (nat a) = a" using assms by (auto simp: byte_def)
  with stages_table show "whole (nibbles (pairs a)) = bitcount 8 a"
    by (metis (no_types, lifting) add.left_neutral diff_zero length_upt map_eq_conv atLeastLessThan_iff set_upt zero_le)
  show "byte (pairs a)" "byte (nibbles (pairs a))" "byte (whole (nibbles (pairs a)))"
    by (simp_all add: pairs_def nibbles_def whole_def byte_stage)
  show "0 \<le> bitcount 8 a" "bitcount 8 a \<le> 8" using bitcount_range [of 8 a] by simp_all
qed

lemma bitcount_bytes:
  assumes "\<forall>a \<in> set as. byte a"
  shows "bitcount (8 * length as) (bytes as) = sum_list (map (bitcount 8) as)"
  using assms
proof (induction as)
  case (Cons a as)
  have "[0..<8 * length (a # as)] = [0..<8] @ map (\<lambda>i. i + 8) [0..<8 * length as]"
    using upt_add_eq_append [of 0 8 "8 * length as"] map_add_upt [of 8 "8 * length as"]
    by (simp add: add.commute)
  moreover have "map (\<lambda>i. of_bool (bit (concat_bit 8 a (bytes as)) i)) [0..<8]
      = map (\<lambda>i. of_bool (bit a i) :: int) [0..<8]"
    by (intro map_cong) (auto simp: bit_concat_bit_iff)
  moreover have "map (\<lambda>i. of_bool (bit (concat_bit 8 a (bytes as)) (i + 8)) :: int) [0..<8 * length as]
      = map (\<lambda>i. of_bool (bit (bytes as) i)) [0..<8 * length as]"
    by (intro map_cong) (auto simp: bit_concat_bit_iff)
  ultimately show ?case
    using Cons by (simp add: bitcount_def comp_def del: upt_Suc length_Cons upt_rec_numeral map_eq_conv)
qed (simp add: bitcount_def)

lemma middle_byte:
  fixes p t u :: int
  assumes "0 \<le> p" "p < 2 ^ 56" "0 \<le> t" "t < 256"
  shows "((p + 2 ^ 56 * t) + 2 ^ 64 * u) mod 2 ^ 64 div 2 ^ 56 = t"
proof -
  have "p + 2 ^ 56 * t < 2 ^ 64" using assms by simp
  then have "((p + 2 ^ 56 * t) + 2 ^ 64 * u) mod 2 ^ 64 = p + 2 ^ 56 * t"
    using assms by (simp add: mod_pos_pos_trivial)
  then show ?thesis using assms by (simp add: div_pos_pos_trivial)
qed

lemma top_byte:
  fixes g0 g1 g2 g3 g4 g5 g6 g7 :: int
  assumes "0 \<le> g0" "g0 \<le> 8" "0 \<le> g1" "g1 \<le> 8" "0 \<le> g2" "g2 \<le> 8" "0 \<le> g3" "g3 \<le> 8"
    "0 \<le> g4" "g4 \<le> 8" "0 \<le> g5" "g5 \<le> 8" "0 \<le> g6" "g6 \<le> 8" "0 \<le> g7" "g7 \<le> 8"
  shows "bytes [g0, g1, g2, g3, g4, g5, g6, g7] * 0x0101010101010101 mod 2 ^ 64 div 2 ^ 56
    = g0 + g1 + g2 + g3 + g4 + g5 + g6 + g7"
proof -
  let ?p = "g0 + 256 * (g0 + g1) + 256^2 * (g0 + g1 + g2) + 256^3 * (g0 + g1 + g2 + g3)
    + 256^4 * (g0 + g1 + g2 + g3 + g4) + 256^5 * (g0 + g1 + g2 + g3 + g4 + g5)
    + 256^6 * (g0 + g1 + g2 + g3 + g4 + g5 + g6)"
  let ?t = "g0 + g1 + g2 + g3 + g4 + g5 + g6 + g7"
  let ?u = "(g1 + g2 + g3 + g4 + g5 + g6 + g7) + 256 * (g2 + g3 + g4 + g5 + g6 + g7)
    + 256^2 * (g3 + g4 + g5 + g6 + g7) + 256^3 * (g4 + g5 + g6 + g7) + 256^4 * (g5 + g6 + g7)
    + 256^5 * (g6 + g7) + 256^6 * g7"
  have bs: "byte g0" "byte g1" "byte g2" "byte g3" "byte g4" "byte g5" "byte g6" "byte g7"
    using assms by (auto simp: byte_def)
  have "bytes [g0, g1, g2, g3, g4, g5, g6, g7] * 0x0101010101010101 = (?p + 2 ^ 56 * ?t) + 2 ^ 64 * ?u"
    by (simp add: concat_bit_eq push_bit_eq_mult byte_take_bit bs algebra_simps)
  moreover have "0 \<le> ?p" "?p < 2 ^ 56" using assms by simp_all
  moreover have "0 \<le> ?t" "?t < 256" using assms by simp_all
  ultimately show ?thesis using middle_byte [of ?p ?t ?u] by simp
qed


lemma uint_drop64: "uint (drop_bit s (w :: 64 word)) = drop_bit s (uint w)"
  using uint_lt2p [of w] by (simp add: unsigned_drop_bit_eq take_bit_int_eq_self)

lemma uint_stage:
  fixes v :: "64 word"
  assumes "uint v = bytes as" "length as = 8" "\<forall>a \<in> set as. byte a \<and> byte (stage s m m' a)"
    and "byte m" "byte m'" "low_clear s m'" "s \<le> 8"
    and "uint M = bytes (replicate 8 m)" "uint M' = bytes (replicate 8 m')"
  shows "uint ((v AND M) + drop_bit s (v AND M')) = bytes (map (stage s m m') as)"
proof -
  have "uint (v AND M) + uint (drop_bit s (v AND M')) = bytes (map (stage s m m') as)"
    using bytes_stage [OF assms(3-7)] assms(1,2,8,9)
    by (simp add: stage_def uint_drop64 uint_and del: drop_bit_and)
  moreover have "0 \<le> bytes (map (stage s m m') as) \<and> bytes (map (stage s m m') as) < 2 ^ 64"
    using bytes_range [of "map (stage s m m') as"] assms(2) by simp
  ultimately show ?thesis by (simp add: uint_word_ariths)
qed

lemma popcnt_word_bitcount: "uint (popcnt_word v) = bitcount 64 (uint v)"
proof -
  obtain as where as: "length as = 8" "\<forall>a \<in> set as. byte a" "uint v = bytes as"
    using bytes_exist [of "uint v" 8] uint_lt2p [of v] by auto
  define v1 where "v1 = (v AND 0x5555555555555555) + drop_bit 1 (v AND 0xAAAAAAAAAAAAAAAA)"
  define v2 where "v2 = (v1 AND 0x3333333333333333) + drop_bit 2 (v1 AND 0xCCCCCCCCCCCCCCCC)"
  define v3 where "v3 = (v2 AND 0x0F0F0F0F0F0F0F0F) + drop_bit 4 (v2 AND 0xF0F0F0F0F0F0F0F0)"
  have eight: "replicate 8 x = [x, x, x, x, x, x, x, x]" for x :: int by (simp add: eval_nat_numeral)
  note masks = eight concat_bit_eq push_bit_eq_mult byte_def low_clear_def take_bit_eq_mod
  have u1: "uint v1 = bytes (map pairs as)"
    unfolding v1_def pairs_def
    using as stages_byte(1) by (intro uint_stage) (auto simp: pairs_def masks less_Suc_eq numeral_2_eq_2)
  have u2: "uint v2 = bytes (map nibbles (map pairs as))"
    unfolding v2_def nibbles_def
    using u1 as stages_byte by (intro uint_stage) (auto simp: nibbles_def masks less_Suc_eq eval_nat_numeral)
  have u3: "uint v3 = bytes (map whole (map nibbles (map pairs as)))"
    unfolding v3_def whole_def
    using u2 as stages_byte by (intro uint_stage) (auto simp: whole_def masks less_Suc_eq eval_nat_numeral)
  have "map whole (map nibbles (map pairs as)) = map (bitcount 8) as"
    using as(2) by (simp add: stages_byte(3))
  with u3 have u3: "uint v3 = bytes (map (bitcount 8) as)" by (simp only:)
  obtain a0 a1 a2 a3 a4 a5 a6 a7 where eq: "as = [a0, a1, a2, a3, a4, a5, a6, a7]"
    using as(1) by (auto simp: length_Suc_conv eval_nat_numeral)
  have top: "uint (v3 * 0x0101010101010101) div 2 ^ 56 = sum_list (map (bitcount 8) as)"
    using u3 as(2) stages_byte(5,6)
      top_byte [of "bitcount 8 a0" "bitcount 8 a1" "bitcount 8 a2" "bitcount 8 a3"
        "bitcount 8 a4" "bitcount 8 a5" "bitcount 8 a6" "bitcount 8 a7"]
    by (simp add: uint_word_ariths eq)
  have "uint (popcnt_word v) = uint (drop_bit 56 (v3 * 0x0101010101010101)) AND 255"
    by (simp add: popcnt_word_def v1_def v2_def v3_def Let_def uint_and)
  also have "uint (drop_bit 56 (v3 * 0x0101010101010101)) = sum_list (map (bitcount 8) as)"
    using top unfolding uint_drop64 by (simp only: drop_bit_eq_div)
  also have "sum_list (map (bitcount 8) as) AND 255 = sum_list (map (bitcount 8) as)"
  proof -
    have "0 \<le> sum_list (map (bitcount 8) as)" "sum_list (map (bitcount 8) as) \<le> 64"
      using as(2) sum_list_nonneg [of "map (bitcount 8) as"] stages_byte(5)
        stages_byte(6) [of a0] stages_byte(6) [of a1] stages_byte(6) [of a2] stages_byte(6) [of a3]
        stages_byte(6) [of a4] stages_byte(6) [of a5] stages_byte(6) [of a6] stages_byte(6) [of a7]
      by (auto simp: eq)
    then have "take_bit 8 (sum_list (map (bitcount 8) as)) = sum_list (map (bitcount 8) as)"
      by (simp add: take_bit_int_eq_self)
    moreover have "(mask 8 :: int) = 255" by (simp add: mask_eq_exp_minus_1)
    ultimately show ?thesis by (metis take_bit_eq_mask)
  qed
  also have "\<dots> = bitcount 64 (uint v)" using bitcount_bytes [OF as(2)] as by simp
  finally show ?thesis .
qed

lemma bitcount_card: "bitcount n (uint (v :: 64 word)) = int (card {i. i < n \<and> i < 64 \<and> bit v i})"
proof (induction n)
  case (Suc n)
  have "{i. i < Suc n \<and> i < 64 \<and> bit v i} = (if n < 64 \<and> bit v n then insert n else id) {i. i < n \<and> i < 64 \<and> bit v i}"
    by (auto simp: less_Suc_eq)
  with Suc show ?case by (auto simp: bitcount_def bit_uint_iff)
qed (simp add: bitcount_def)

lemma popcnt_word_card: "popcnt_word v = of_nat (card {i. i < 64 \<and> bit v i})"
proof -
  have "{i. i < 64 \<and> i < 64 \<and> bit v i} = {i. i < 64 \<and> bit v i}" by auto
  then have "uint (popcnt_word v) = int (card {i. i < 64 \<and> bit v i})"
    unfolding popcnt_word_bitcount bitcount_card by (simp only:)
  then have "of_int (uint (popcnt_word v)) = (of_int (int (card {i. i < 64 \<and> bit v i})) :: 64 word)"
    by (rule arg_cong)
  then show ?thesis by simp
qed

lemma pos_in_chunk: "(p :: nat) div 64 = n \<and> P (p mod 64) \<longleftrightarrow> (\<exists>i < 64. P i \<and> p = 64 * n + i)"
proof
  assume "p div 64 = n \<and> P (p mod 64)"
  moreover have "p = 64 * (p div 64) + p mod 64" by simp
  ultimately show "\<exists>i < 64. P i \<and> p = 64 * n + i" by (intro exI [of _ "p mod 64"]) simp
qed auto

lemma positions_snoc: "positions (b @ [v]) = positions b \<union> (\<lambda>i. 64 * length b + i) ` {i. i < 64 \<and> bit v i}"
proof (rule set_eqI)
  fix p
  have chunk: "p div 64 = length b \<and> bit v (p mod 64) \<longleftrightarrow> p \<in> (\<lambda>i. 64 * length b + i) ` {i. i < 64 \<and> bit v i}"
    unfolding pos_in_chunk by auto
  show "p \<in> positions (b @ [v]) \<longleftrightarrow> p \<in> positions b \<union> (\<lambda>i. 64 * length b + i) ` {i. i < 64 \<and> bit v i}"
    unfolding Un_iff chunk [symmetric] positions_def div64_less by (auto simp: nth_append less_Suc_eq)
qed

lemma finite_positions: "finite (positions b)"
  by (simp add: positions_def)

section \<open>Properties\<close>

text \<open>
  C20. A bit set behaves as a set of positions: for every position in range, \<open>set\<close> adds it, \<open>clear\<close>
  removes it and \<open>get\<close> tests it, none of them panics or changes another position, and two bit sets of
  one length are \<open>equals\<close> exactly when they hold the same positions.
\<close>

theorem bitset_is_set_of_positions:
  assumes "p div 64 < length b" and "length b2 = length b"
  shows "bs_get p b = Some (p \<in> positions b)
    \<and> (\<exists>b'. bs_set p b = Some b' \<and> length b' = length b \<and> positions b' = insert p (positions b))
    \<and> (\<exists>b'. bs_clear p b = Some b' \<and> length b' = length b \<and> positions b' = positions b - {p})
    \<and> (bs_equals b b2 \<longleftrightarrow> positions b = positions b2)"
  using bs_get_eq [OF assms(1)] bs_set_eq [OF assms(1)] bs_clear_eq [OF assms(1)]
    positions_inject [of b b2] assms(2) by auto

theorem bitset_is_set_of_positions_witness:
  "\<exists>b'. bs_set 70 (newBitset 100) = Some b' \<and> positions b' = {70}"
  using bitset_is_set_of_positions [of 70 "newBitset 100" "newBitset 100"] length_newBitset [of 70 100] by auto

text \<open>
  C21. The population count, computed by adding pairs, nibbles and bytes in parallel inside each
  64-bit word, is the number of positions in the set.
\<close>

theorem popcnt_counts_positions: "popcnt b = of_nat (card (positions b))"
proof (induction b rule: rev_induct)
  case (snoc v b)
  have "positions b \<inter> (\<lambda>i. 64 * length b + i) ` {i. i < 64 \<and> bit v i} = {}"
    by (auto simp: positions_def)
  then have "card (positions (b @ [v])) = card (positions b) + card {i. i < 64 \<and> bit v i}"
    by (simp add: positions_snoc card_Un_disjoint finite_positions card_image inj_on_def)
  with snoc show ?case by (simp add: popcnt_def popcnt_word_card)
qed (simp add: popcnt_def positions_def)

end
