(* ===== verification/Lin_Check.thy ===== *)
theory Lin_Check
  imports Lin_Heap Lin_Search Lin_Bitset
begin

text \<open>
  The search of the linearizability checker (\<open>checkSingle\<close> in
  \<open>src/src/linearizability/linearizability.go\<close>), on the linked list of nodes, with its bit set, its
  cache and its stack, and the proof that it decides linearizability.

  \<^item> \<open>model.Step\<close> panics on values of a wrong dynamic type, so it returns an option.
  \<^item> One turn of the loop is \<open>search_turn\<close>. A turn continues, returns a result or panics. The loop has
    \<open>fuel\<close>; a result \<open>None\<close> means that it has not ended within it, \<open>Some None\<close> that it panicked.
    The number of turns needed is finite: every turn shortens what is left of the list, or goes back,
    or caches one of finitely many configurations.
  \<^item> \<open>kill k\<close> is the value that the \<open>k\<close>-th turn loads from the shared flag.
  \<^item> The cache is a function from hashes to lists, as a Go map whose missing keys read as \<open>nil\<close>.
\<close>

section \<open>The search\<close>

record 's cacheEntry =
  linearized :: bitset
  ceState :: 's

type_synonym 's cache = "64 word \<Rightarrow> 's cacheEntry list"
type_synonym ('v, 's) model_step = "'s \<Rightarrow> 'v \<Rightarrow> 'v \<Rightarrow> (bool \<times> 's) option"

definition cacheContains :: "('s \<Rightarrow> 's \<Rightarrow> bool) \<Rightarrow> 's cache \<Rightarrow> 's cacheEntry \<Rightarrow> bool" where
  "cacheContains equal cache e =
     list_ex (\<lambda>elem. bs_equals (linearized e) (linearized elem) \<and> equal (ceState e) (ceState elem))
       (cache (hash (linearized e)))"

record ('v, 's) search =
  sheap :: "'v heap"
  shead :: ptr
  sentry :: ptr
  sstate :: 's
  slinearized :: bitset
  scache :: "'s cache"
  scalls :: "(ptr \<times> 's) list"

datatype 'x outcome = Continue 'x | Returned bool

text \<open>The branch of a call entry (\<open>entry.match != nil\<close>).\<close>

definition search_call ::
  "('v, 's) model_step \<Rightarrow> ('s \<Rightarrow> 's \<Rightarrow> bool) \<Rightarrow> ptr \<Rightarrow> ('v, 's) search \<Rightarrow> ('v, 's) search option" where
  "search_call step equal matching st =
     do {
       v \<leftarrow> field nvalue (sentry st) (sheap st);
       w \<leftarrow> field nvalue matching (sheap st);
       input \<leftarrow> v;
       output \<leftarrow> w;
       (ok, newState) \<leftarrow> step (sstate st) input output;
       if ok
       then do {
         i \<leftarrow> field nid (sentry st) (sheap st);
         newLinearized \<leftarrow> bs_set i (clone (slinearized st));
         let newCacheEntry = \<lparr>linearized = newLinearized, ceState = newState\<rparr>;
         if \<not> cacheContains equal (scache st) newCacheEntry
         then do {
           let key = hash newLinearized;
           lin \<leftarrow> bs_set i (slinearized st);
           h \<leftarrow> lift (sentry st) (sheap st);
           x \<leftarrow> field nnext (shead st) h;
           Some (st\<lparr>scache := (scache st)(key := scache st key @ [newCacheEntry]),
                    scalls := scalls st @ [(sentry st, sstate st)],
                    sstate := newState, slinearized := lin, sheap := h, sentry := x\<rparr>)
         }
         else do { x \<leftarrow> field nnext (sentry st) (sheap st); Some (st\<lparr>sentry := x\<rparr>) }
       }
       else do { x \<leftarrow> field nnext (sentry st) (sheap st); Some (st\<lparr>sentry := x\<rparr>) }
     }"

text \<open>The branch of a return entry: back to the last executed operation, or give up.\<close>

definition search_back :: "('v, 's) search \<Rightarrow> ('v, 's) search option" where
  "search_back st =
     do {
       let (e, s) = last (scalls st);
       i \<leftarrow> field nid e (sheap st);
       lin \<leftarrow> bs_clear i (slinearized st);
       h \<leftarrow> unlift e (sheap st);
       x \<leftarrow> field nnext e h;
       Some (st\<lparr>sstate := s, slinearized := lin, scalls := butlast (scalls st), sheap := h, sentry := x\<rparr>)
     }"

definition search_turn ::
  "('v, 's) model_step \<Rightarrow> ('s \<Rightarrow> 's \<Rightarrow> bool) \<Rightarrow> int \<Rightarrow> ('v, 's) search \<Rightarrow> ('v, 's) search outcome option" where
  "search_turn step equal kill st =
     (if kill \<noteq> 0 then Some (Returned False)
      else do {
        matching \<leftarrow> field nmatch (sentry st) (sheap st);
        if matching \<noteq> None
        then do { st' \<leftarrow> search_call step equal matching st; Some (Continue st') }
        else if scalls st = [] then Some (Returned False)
        else do { st' \<leftarrow> search_back st; Some (Continue st') }
      })"

fun search_loop ::
  "('v, 's) model_step \<Rightarrow> ('s \<Rightarrow> 's \<Rightarrow> bool) \<Rightarrow> (nat \<Rightarrow> int) \<Rightarrow> nat \<Rightarrow> nat \<Rightarrow> ('v, 's) search
     \<Rightarrow> bool option option" where
  "search_loop step equal kill 0 k st = None"
| "search_loop step equal kill (Suc fuel) k st =
     (case field nnext (shead st) (sheap st) of
        None \<Rightarrow> Some None
      | Some None \<Rightarrow> Some (Some True)
      | Some (Some a) \<Rightarrow>
          (case search_turn step equal (kill k) st of
             None \<Rightarrow> Some None
           | Some (Returned b) \<Rightarrow> Some (Some b)
           | Some (Continue st') \<Rightarrow> search_loop step equal kill fuel (Suc k) st'))"

definition checkSingle ::
  "('v, 's) model_step \<Rightarrow> ('s \<Rightarrow> 's \<Rightarrow> bool) \<Rightarrow> 's \<Rightarrow> (nat \<Rightarrow> int) \<Rightarrow> nat \<Rightarrow> 'v heap \<times> ptr
     \<Rightarrow> bool option option" where
  "checkSingle step equal init kill fuel = (\<lambda>(h, subhistory).
     do {
       l \<leftarrow> node_length h subhistory;
       let (h1, a) = alloc \<lparr>nvalue = None, nmatch = None, nid = 2 ^ 64 - 1, nnext = None, nprev = None\<rparr> h;
       case insertBefore (Some a) subhistory h1 of
         None \<Rightarrow> Some None
       | Some (h2, headEntry) \<Rightarrow>
           search_loop step equal kill fuel 0
             \<lparr>sheap = h2, shead = headEntry, sentry = subhistory, sstate = init,
              slinearized = newBitset (l div 2), scache = (\<lambda>k. []), scalls = []\<rparr>
     })"

section \<open>The representation of a configuration\<close>

locale checker = search_space xs m stp init
  for xs :: "nat list" and m :: "nat \<rightharpoonup> nat" and stp :: "'s \<Rightarrow> nat \<Rightarrow> bool \<times> 's" and init :: 's +
  fixes h0 :: "'v heap" and head :: nat and step :: "('v, 's) model_step"
    and equal :: "'s \<Rightarrow> 's \<Rightarrow> bool" and bits :: nat
  assumes head_fresh: "head \<notin> set xs"
    and match_field: "a \<in> set xs \<Longrightarrow> nmatch (h0 ! a) = m a"
    and step_value: "c \<in> set xs \<Longrightarrow> m c = Some r \<Longrightarrow>
      \<exists>v w. nvalue (h0 ! c) = Some v \<and> nvalue (h0 ! r) = Some w \<and> (\<forall>s. step s v w = Some (stp s c))"
    and id_bound: "c \<in> calls_of xs m \<Longrightarrow> nid (h0 ! c) < bits"
    and id_inj: "inj_on (\<lambda>c. nid (h0 ! c)) (calls_of xs m)"
    and equal_eq: "equal s t \<longleftrightarrow> s = t"
begin

definition ids :: "nat set \<Rightarrow> nat set" where
  "ids S = (\<lambda>c. nid (h0 ! c)) ` S"

definition bits_ok :: "bitset \<Rightarrow> nat set \<Rightarrow> bool" where
  "bits_ok b S \<longleftrightarrow> length b = length (newBitset bits) \<and> positions b = ids S"

definition heap_ok :: "'v heap \<Rightarrow> nat set \<Rightarrow> bool" where
  "heap_ok h S \<longleftrightarrow> chain h None (head # rem S) None \<and> same_data h0 h"

fun heaps_ok :: "'v heap \<Rightarrow> nat set \<Rightarrow> (nat \<times> 's) list \<Rightarrow> bool" where
  "heaps_ok h S [] = True"
| "heaps_ok h S ((c, s) # st) =
     (\<exists>h'. unlift (Some c) h = Some h' \<and> heap_ok h' (S - {c}) \<and> heaps_ok h' (S - {c}) st)"

definition cached :: "'s cache \<Rightarrow> (nat set \<times> 's) set" where
  "cached cache = {(T, t). T \<subseteq> calls_of xs m \<and> (\<exists>k. \<exists>e \<in> set (cache k). bits_ok (linearized e) T \<and> ceState e = t)}"

definition keys_ok :: "'s cache \<Rightarrow> bool" where
  "keys_ok cache \<longleftrightarrow> (\<forall>k. \<forall>e \<in> set (cache k). hash (linearized e) = k)"

lemma ids_inject: "S \<subseteq> calls_of xs m \<Longrightarrow> T \<subseteq> calls_of xs m \<Longrightarrow> ids S = ids T \<Longrightarrow> S = T"
  using id_inj by (simp add: ids_def inj_on_image_eq_iff)

lemma bits_ok_iff: "bits_ok b S \<Longrightarrow> bits_ok b' S \<longleftrightarrow> b' = b"
  by (auto simp: bits_ok_def intro: positions_inject)

lemma bits_ok_unique:
  "bits_ok b S \<Longrightarrow> bits_ok b T \<Longrightarrow> S \<subseteq> calls_of xs m \<Longrightarrow> T \<subseteq> calls_of xs m \<Longrightarrow> S = T"
  by (rule ids_inject) (simp_all add: bits_ok_def)

text \<open>Looking in one bucket is looking in the whole cache.\<close>

lemma cacheContains_iff:
  assumes "keys_ok cache" and "bits_ok b T" and "T \<subseteq> calls_of xs m"
  shows "cacheContains equal cache \<lparr>linearized = b, ceState = t\<rparr> \<longleftrightarrow> (T, t) \<in> cached cache"
proof -
  have "(T, t) \<in> cached cache \<longleftrightarrow> (\<exists>k. \<exists>e \<in> set (cache k). linearized e = b \<and> ceState e = t)"
    using assms(3) by (simp add: cached_def bits_ok_iff [OF assms(2)])
  also have "\<dots> \<longleftrightarrow> (\<exists>e \<in> set (cache (hash b)). linearized e = b \<and> ceState e = t)"
    using assms(1) by (auto simp: keys_ok_def)
  finally show ?thesis by (auto simp: cacheContains_def list_ex_iff equal_eq)
qed

lemma cached_insert:
  assumes "bits_ok b T" and "T \<subseteq> calls_of xs m"
  shows "cached (cache(k := cache k @ [\<lparr>linearized = b, ceState = t\<rparr>])) = insert (T, t) (cached cache)"
proof -
  let ?e = "\<lparr>linearized = b, ceState = t\<rparr>"
  have bucket: "(\<exists>k'. \<exists>e \<in> set ((cache(k := cache k @ [?e])) k'). P e) \<longleftrightarrow> P ?e \<or> (\<exists>k'. \<exists>e \<in> set (cache k'). P e)" for P
    by (auto split: if_splits)
  have uniq: "U \<subseteq> calls_of xs m \<and> bits_ok b U \<and> t = u \<longleftrightarrow> (U, u) = (T, t)" for U u
    using assms bits_ok_unique by auto
  have "(U, u) \<in> cached (cache(k := cache k @ [?e])) \<longleftrightarrow> (U, u) = (T, t) \<or> (U, u) \<in> cached cache" for U u
    unfolding cached_def mem_Collect_eq prod.case bucket uniq [symmetric] by auto
  then show ?thesis by auto
qed

lemma bits_ok_set:
  assumes "bits_ok b S" and "c \<in> calls_of xs m"
  shows "\<exists>b'. bs_set (nid (h0 ! c)) b = Some b' \<and> bits_ok b' (insert c S)"
proof -
  have "nid (h0 ! c) div 64 < length b"
    using length_newBitset [OF id_bound [OF assms(2)]] assms(1) by (simp add: bits_ok_def)
  then show ?thesis using bs_set_eq assms(1) by (fastforce simp: bits_ok_def ids_def)
qed

lemma bits_ok_clear:
  assumes "bits_ok b S" and "S \<subseteq> calls_of xs m" and "c \<in> S"
  shows "\<exists>b'. bs_clear (nid (h0 ! c)) b = Some b' \<and> bits_ok b' (S - {c})"
proof -
  have "nid (h0 ! c) div 64 < length b"
    using length_newBitset [OF id_bound] assms by (auto simp: bits_ok_def)
  moreover have "ids (S - {c}) = ids S - {nid (h0 ! c)}"
    using assms(2,3) id_inj by (auto simp: ids_def inj_on_def)
  ultimately show ?thesis using bs_clear_eq [of "nid (h0 ! c)" b] assms(1) by (auto simp: bits_ok_def)
qed

text \<open>The state of the loop represents the executed operations and the stack.\<close>

definition represents :: "('v, 's) search \<Rightarrow> nat set \<Rightarrow> (nat \<times> 's) list \<Rightarrow> bool" where
  "represents st S stk \<longleftrightarrow>
     heap_ok (sheap st) S \<and> heaps_ok (sheap st) S stk \<and> shead st = Some head
     \<and> scalls st = rev (map (\<lambda>(c, s). (Some c, s)) stk)
     \<and> bits_ok (slinearized st) S \<and> keys_ok (scache st) \<and> S \<subseteq> calls_of xs m
     \<and> stack_ok S (sstate st) stk \<and> cache_ok (cached (scache st)) S (sstate st) stk
     \<and> cached (scache st) \<subseteq> universe"

lemma represents_entry [simp]: "represents (st\<lparr>sentry := x\<rparr>) S stk = represents st S stk"
  by (simp add: represents_def)

lemma heap_ok_node:
  assumes "heap_ok h S" and "rem S = us @ a # vs"
  shows "a < length h" and "nnext (h ! a) = hd_ptr vs None"
  using assms by (auto simp: heap_ok_def chain_append)

lemma heap_ok_head: "heap_ok h S \<Longrightarrow> field nnext (Some head) h = Some (hd_ptr (rem S) None)"
  by (auto simp: heap_ok_def)

lemma heap_ok_data:
  assumes "heap_ok h S"
  shows "nvalue (h ! a) = nvalue (h0 ! a)" "nmatch (h ! a) = nmatch (h0 ! a)" "nid (h ! a) = nid (h0 ! a)"
  using assms by (auto simp: heap_ok_def same_data_def)

lemma heap_ok_lift:
  assumes "heap_ok h S" and "rem S = us @ a # vs" and "m a = Some r" and "S \<subseteq> calls_of xs m"
  shows "\<exists>h'. lift (Some a) h = Some h' \<and> heap_ok h' (insert a S) \<and> unlift (Some a) h' = Some h"
proof -
  obtain ws ys where vs: "vs = ws @ r # ys" "rem (insert a S) = us @ ws @ ys"
    using remaining_return [OF assms(2-4)] by blast
  obtain us' p where p: "head # us = us' @ [p]" by (metis append_butlast_last_id list.distinct(1))
  then have list: "head # rem S = us' @ p # a # ws @ r # ys" "head # rem (insert a S) = us' @ p # ws @ ys"
    using assms(2) vs by (metis append.assoc append_Cons append_Nil)+
  have "distinct (head # rem S)" using distinct_xs head_fresh by (auto simp: remaining_def)
  then have d: "distinct (us' @ p # a # ws @ r # ys)" unfolding list(1) .
  have a: "a \<in> set xs" using remaining_not_executed(2) [OF assms(2)] .
  have "chain h None (us' @ p # a # ws @ r # ys) None" using assms(1) unfolding heap_ok_def list(1) by simp
  then obtain h' where h': "lift (Some a) h = Some h'" "chain h' None (us' @ p # ws @ ys) None"
    "unlift (Some a) h' = Some h" "same_data h h'"
    using lift_chain [OF _ d, of h] heap_ok_data(2) [OF assms(1)] match_field [OF a] assms(3) by auto
  moreover have "same_data h0 h'" using same_data_trans assms(1) h'(4) by (auto simp: heap_ok_def)
  ultimately show ?thesis unfolding heap_ok_def list(2) by blast
qed

lemma call_skip:
  assumes "represents st S stk" and "sentry st = Some a" and "stands_at S (sstate st) a vs"
    and "m a \<noteq> None" and "dead_move S (sstate st) a"
  shows "\<exists>b ws. vs = b # ws \<and> field nnext (sentry st) (sheap st) = Some (Some b)
    \<and> represents (st\<lparr>sentry := Some b\<rparr>) S stk \<and> stands_at S (sstate st) b ws"
proof -
  have "S \<subseteq> calls_of xs m" and h: "heap_ok (sheap st) S" using assms(1) by (simp_all add: represents_def)
  with assms stands_at_skip obtain b ws where b: "vs = b # ws" "stands_at S (sstate st) b ws" by blast
  obtain us where "rem S = us @ a # vs" using assms(3) by (auto simp: stands_at_def)
  with heap_ok_node [OF h] assms(1,2) b show ?thesis by auto
qed

lemma call_push:
  assumes r: "represents st S stk" and at: "stands_at S (sstate st) a vs" and ma: "m a = Some ret"
    and ok: "stp (sstate st) a = (True, s')" and new: "(insert a S, s') \<notin> cached (scache st)"
    and lin: "bits_ok b (insert a S)" and h: "lift (Some a) (sheap st) = Some h"
    and a: "sentry st = Some a"
  shows "represents (st\<lparr>scache := (scache st)(hash b := scache st (hash b) @ [\<lparr>linearized = b, ceState = s'\<rparr>]),
           scalls := scalls st @ [(sentry st, sstate st)], sstate := s', slinearized := b,
           sheap := h, sentry := x\<rparr>) (insert a S) ((a, sstate st) # stk)"
proof -
  obtain us where us: "rem S = us @ a # vs" using at by (auto simp: stands_at_def)
  have S: "S \<subseteq> calls_of xs m" and hs: "heap_ok (sheap st) S" using r by (simp_all add: represents_def)
  have aS: "a \<notin> S" "a \<in> set xs" using remaining_not_executed [OF us] by auto
  then have sub: "insert a S \<subseteq> calls_of xs m" using S ma by (auto simp: calls_of_def)
  have h': "heap_ok h (insert a S)" "unlift (Some a) h = Some (sheap st)"
    using heap_ok_lift [OF hs us ma S] h by auto
  have "stack_ok S (sstate st) stk" "cache_ok (cached (scache st)) S (sstate st) stk"
    using r by (simp_all add: represents_def)
  moreover have "(insert a S, s') \<in> universe"
    using universe_step [OF stack_universe [OF \<open>stack_ok S (sstate st) stk\<close>] aS(2,1) ok] .
  ultimately show ?thesis
    using r h' sub lin aS at ma ok cached_insert [OF lin sub, of "scache st" "hash b" s']
      cache_push [of "cached (scache st)" S "sstate st" stk a s']
    by (auto simp: represents_def a keys_ok_def)
qed

text \<open>A turn at a call entry.\<close>

lemma call_turn:
  assumes r: "represents st S stk" and a: "sentry st = Some a" and at: "stands_at S (sstate st) a vs"
    and ma: "m a = Some ret"
  shows "\<exists>st'. search_call step equal (Some ret) st = Some st' \<and>
    ((\<exists>b ws. vs = b # ws \<and> sentry st' = Some b \<and> stands_at S (sstate st') b ws
        \<and> represents st' S stk \<and> scache st' = scache st)
     \<or> (represents st' (insert a S) ((a, sstate st) # stk)
        \<and> sentry st' = hd_ptr (rem (insert a S)) None
        \<and> (\<exists>y. y \<in> universe \<and> y \<notin> cached (scache st) \<and> cached (scache st') = insert y (cached (scache st)))))"
proof -
  obtain us where us: "rem S = us @ a # vs" using at by (auto simp: stands_at_def)
  have S: "S \<subseteq> calls_of xs m" and hs: "heap_ok (sheap st) S" and lin: "bits_ok (slinearized st) S"
    and keys: "keys_ok (scache st)" and head: "shead st = Some head"
    using r by (simp_all add: represents_def)
  have aS: "a \<notin> S" "a \<in> set xs" using remaining_not_executed [OF us] by auto
  then have ac: "a \<in> calls_of xs m" "insert a S \<subseteq> calls_of xs m" using S ma by (auto simp: calls_of_def)
  obtain ws ys where "vs = ws @ ret # ys" using remaining_return [OF us ma S] by blast
  then have "ret < length (sheap st)" and al: "a < length (sheap st)"
    using heap_ok_node(1) [OF hs us] heap_ok_node(1) [OF hs, of "us @ a # ws" ret ys] us by auto
  moreover obtain v w where vw: "nvalue (h0 ! a) = Some v" "nvalue (h0 ! ret) = Some w"
    "step (sstate st) v w = Some (stp (sstate st) a)"
    using step_value [OF aS(2) ma] by blast
  ultimately have fields: "field nvalue (sentry st) (sheap st) = Some (Some v)"
    "field nvalue (Some ret) (sheap st) = Some (Some w)" "field nid (sentry st) (sheap st) = Some (nid (h0 ! a))"
    using heap_ok_data [OF hs] a by simp_all
  obtain ok s' where stp: "stp (sstate st) a = (ok, s')" by fastforce
  obtain b where b: "bs_set (nid (h0 ! a)) (slinearized st) = Some b" "bits_ok b (insert a S)"
    using bits_ok_set [OF lin ac(1)] by blast
  let ?e = "\<lparr>linearized = b, ceState = s'\<rparr>"
  show ?thesis
  proof (cases "ok \<and> (insert a S, s') \<notin> cached (scache st)")
    case True
    obtain h where h: "lift (Some a) (sheap st) = Some h" "heap_ok h (insert a S)"
      using heap_ok_lift [OF hs us ma S] by blast
    let ?st' = "st\<lparr>scache := (scache st)(hash b := scache st (hash b) @ [?e]),
           scalls := scalls st @ [(sentry st, sstate st)], sstate := s', slinearized := b,
           sheap := h, sentry := hd_ptr (rem (insert a S)) None\<rparr>"
    have "search_call step equal (Some ret) st = Some ?st'"
      using True fields vw stp b h head heap_ok_head [OF h(2)] cacheContains_iff [OF keys b(2) ac(2)] a
      by (simp add: search_call_def Let_def)
    moreover have "represents ?st' (insert a S) ((a, sstate st) # stk)"
      using call_push [OF r at ma _ _ b(2) h(1) a] True stp by simp
    moreover have "(insert a S, s') \<in> universe"
      using universe_step [OF stack_universe aS(2,1)] r True stp by (auto simp: represents_def)
    ultimately show ?thesis
      using True cached_insert [OF b(2) ac(2), of "scache st" "hash b" s']
      by (intro exI [of _ ?st']) (auto intro!: exI [of _ "(insert a S, s')"])
  next
    case False
    have "dead_move S (sstate st) a"
      using False stp cached_dead [of "cached (scache st)" S "sstate st" stk a s'] r aS
      by (auto simp: dead_move_def represents_def)
    with call_skip [OF r a at] ma obtain d ds where d: "vs = d # ds"
      "field nnext (sentry st) (sheap st) = Some (Some d)" "represents (st\<lparr>sentry := Some d\<rparr>) S stk"
      "stands_at S (sstate st) d ds" by auto
    then have "search_call step equal (Some ret) st = Some (st\<lparr>sentry := Some d\<rparr>)"
      using False fields vw stp b cacheContains_iff [OF keys b(2) ac(2)]
      by (auto simp: search_call_def Let_def)
    with d show ?thesis by (intro exI [of _ "st\<lparr>sentry := Some d\<rparr>"]) auto
  qed
qed

text \<open>A turn at a return entry.\<close>

lemma back_turn:
  assumes r: "represents st S ((c, s0) # stk)" and at: "stands_at S (sstate st) a vs" and ma: "m a = None"
  shows "\<exists>st' b ws. search_back st = Some st' \<and> represents st' (S - {c}) stk \<and> sentry st' = Some b
    \<and> stands_at (S - {c}) (sstate st') b ws \<and> scache st' = scache st"
proof -
  have sk: "stack_ok S (sstate st) ((c, s0) # stk)"
    and S: "S \<subseteq> calls_of xs m" and hs: "heap_ok (sheap st) S"
    and lin: "bits_ok (slinearized st) S" and calls: "scalls st = rev (map (\<lambda>(c, s). (Some c, s)) stk) @ [(Some c, s0)]"
    and ck: "cache_ok (cached (scache st)) S (sstate st) ((c, s0) # stk)"
    using r by (auto simp: represents_def)
  note pop = stack_pop [OF sk stands_at_return [OF at ma]]
  obtain h where h: "unlift (Some c) (sheap st) = Some h" "heap_ok h (S - {c})" "heaps_ok h (S - {c}) stk"
    using r by (auto simp: represents_def)
  obtain cs where cs: "stands_at (S - {c}) s0 c cs" using sk by auto
  obtain b ws where b: "cs = b # ws" "stands_at (S - {c}) s0 b ws"
    using stands_at_skip [OF cs _ pop(1)] sk S by auto
  obtain us where us: "rem (S - {c}) = us @ c # cs" using cs by (auto simp: stands_at_def)
  obtain lin' where lin': "bs_clear (nid (h0 ! c)) (slinearized st) = Some lin'" "bits_ok lin' (S - {c})"
    using bits_ok_clear [OF lin S] sk by auto
  have "c < length h" "nnext (h ! c) = Some b" using heap_ok_node [OF h(2) us] b(1) by auto
  moreover have "length h = length (sheap st)" using h(2) hs by (auto simp: heap_ok_def same_data_def)
  ultimately have goback: "search_back st = Some (st\<lparr>sstate := s0, slinearized := lin',
      scalls := rev (map (\<lambda>(c, s). (Some c, s)) stk), sheap := h, sentry := Some b\<rparr>)"
    using calls h(1) lin'(1) heap_ok_data(3) [OF hs] by (simp add: search_back_def Let_def)
  show ?thesis
    using r h lin' b(2) sk pop(2) [OF ck] unfolding goback represents_def by auto
qed

subsection \<open>Turns and the loop\<close>

definition pending :: "('v, 's) search \<Rightarrow> nat set \<Rightarrow> nat list \<Rightarrow> bool" where
  "pending st S vs \<longleftrightarrow> rem S = [] \<or> (\<exists>a. sentry st = Some a \<and> stands_at S (sstate st) a vs)"

definition work_left :: "('v, 's) search \<Rightarrow> (nat \<times> 's) list \<Rightarrow> nat list \<Rightarrow> nat \<times> nat \<times> nat" where
  "work_left st stk vs = (card (universe - cached (scache st)), length stk, length vs)"

abbreviation "less_work \<equiv> less_than <*lex*> less_than <*lex*> less_than"

lemma pending_head:
  assumes "sentry st = hd_ptr (rem S) None"
  shows "\<exists>vs. pending st S vs"
proof (cases "rem S")
  case (Cons a vs)
  then have "stands_at S (sstate st) a vs" by (rule stands_at_head)
  with assms Cons show ?thesis by (auto simp: pending_def)
qed (simp add: pending_def)

lemma turn_progress:
  assumes r: "represents st S stk" and a: "sentry st = Some a" and at: "stands_at S (sstate st) a vs"
  shows "(search_turn step equal 0 st = Some (Returned False) \<and> \<not> compl {} init)
    \<or> (\<exists>st' S' stk' vs'. search_turn step equal 0 st = Some (Continue st') \<and> represents st' S' stk'
         \<and> pending st' S' vs' \<and> (work_left st' stk' vs', work_left st stk vs) \<in> less_work)"
proof -
  obtain us where us: "rem S = us @ a # vs" using at by (auto simp: stands_at_def)
  have hs: "heap_ok (sheap st) S" and sk: "stack_ok S (sstate st) stk" and C: "cached (scache st) \<subseteq> universe"
    and calls: "scalls st = rev (map (\<lambda>(c, s). (Some c, s)) stk)"
    using r by (simp_all add: represents_def)
  have "field nmatch (sentry st) (sheap st) = Some (m a)"
    using heap_ok_node(1) [OF hs us] heap_ok_data(2) [OF hs] match_field remaining_not_executed(2) [OF us] a by simp
  note turn = search_turn_def [of step equal 0 st, unfolded this]
  show ?thesis
  proof (cases "m a")
    case (Some ret)
    from call_turn [OF r a at Some] obtain st' where st': "search_call step equal (Some ret) st = Some st'"
      and or: "(\<exists>b ws. vs = b # ws \<and> sentry st' = Some b \<and> stands_at S (sstate st') b ws
        \<and> represents st' S stk \<and> scache st' = scache st)
     \<or> (represents st' (insert a S) ((a, sstate st) # stk) \<and> sentry st' = hd_ptr (rem (insert a S)) None
        \<and> (\<exists>y. y \<in> universe \<and> y \<notin> cached (scache st) \<and> cached (scache st') = insert y (cached (scache st))))"
      by blast
    have "search_turn step equal 0 st = Some (Continue st')" using turn st' Some by simp
    with or show ?thesis
    proof (elim disjE exE conjE)
      fix b ws
      assume "vs = b # ws" "sentry st' = Some b" "stands_at S (sstate st') b ws" "represents st' S stk"
        "scache st' = scache st" "search_turn step equal 0 st = Some (Continue st')"
      then show ?thesis by (intro disjI2 exI [of _ st'] exI [of _ S] exI [of _ stk] exI [of _ ws])
          (auto simp: pending_def work_left_def)
    next
      fix y
      assume y: "represents st' (insert a S) ((a, sstate st) # stk)" "sentry st' = hd_ptr (rem (insert a S)) None"
        "y \<in> universe" "y \<notin> cached (scache st)" "cached (scache st') = insert y (cached (scache st))"
        "search_turn step equal 0 st = Some (Continue st')"
      then obtain ws where "pending st' (insert a S) ws" using pending_head by blast
      with y cache_grows [OF C y(3,4)] show ?thesis
        by (intro disjI2 exI [of _ st'] exI [of _ "insert a S"] exI [of _ "(a, sstate st) # stk"] exI [of _ ws])
          (auto simp: work_left_def)
    qed
  next
    case None
    show ?thesis
    proof (cases stk)
      case Nil
      with None turn calls stands_at_return [OF at None] sk show ?thesis by simp
    next
      case (Cons x stk')
      obtain c s0 where x: "x = (c, s0)" by (cases x)
      obtain st' b ws where st': "search_back st = Some st'" "represents st' (S - {c}) stk'" "sentry st' = Some b"
        "stands_at (S - {c}) (sstate st') b ws" "scache st' = scache st"
        using back_turn [OF _ at None, of c s0 stk'] r Cons x by auto
      with None turn calls Cons show ?thesis
        by (intro disjI2 exI [of _ st'] exI [of _ "S - {c}"] exI [of _ stk'] exI [of _ ws])
          (auto simp: pending_def work_left_def)
    qed
  qed
qed

lemma loop_found:
  assumes "represents st S stk" and "rem S = []"
  shows "search_loop step equal kill (Suc fuel) k st = Some (Some True)" and "compl {} init"
proof -
  have "field nnext (shead st) (sheap st) = Some None"
    using assms heap_ok_head [of "sheap st" S] by (simp add: represents_def)
  then show "search_loop step equal kill (Suc fuel) k st = Some (Some True)" by simp
  have "compl S (sstate st)" using assms(2) by (rule completable.complete)
  then show "compl {} init" using stack_found assms(1) by (auto simp: represents_def)
qed

lemma loop_turn:
  assumes "represents st S stk" and "rem S \<noteq> []"
  shows "search_loop step equal kill (Suc fuel) k st =
    (case search_turn step equal (kill k) st of
       None \<Rightarrow> Some None
     | Some (Returned b) \<Rightarrow> Some (Some b)
     | Some (Continue st') \<Rightarrow> search_loop step equal kill fuel (Suc k) st')"
proof -
  have "field nnext (shead st) (sheap st) = Some (hd_ptr (rem S) None)"
    using assms(1) heap_ok_head [of "sheap st" S] by (simp add: represents_def)
  with assms(2) show ?thesis by (cases "rem S") simp_all
qed

text \<open>The search ends, and its result is right.\<close>

lemma loop_decides:
  assumes "represents st S stk" and "pending st S vs" and "\<forall>k. kill k = 0"
  shows "\<exists>fuel. search_loop step equal kill fuel k st = Some (Some (compl {} init))"
proof -
  have "wf less_work" by auto
  then show ?thesis using assms
  proof (induction "work_left st stk vs" arbitrary: st S stk vs k rule: wf_induct_rule)
    case less
    show ?case
    proof (cases "rem S = []")
      case True
      with loop_found [OF less.prems(1)] show ?thesis by (metis (full_types))
    next
      case False
      then obtain a where a: "sentry st = Some a" "stands_at S (sstate st) a vs"
        using less.prems(2) by (auto simp: pending_def)
      from turn_progress [OF less.prems(1) a] show ?thesis
      proof (elim disjE exE conjE)
        assume "search_turn step equal 0 st = Some (Returned False)" "\<not> compl {} init"
        then show ?thesis
          using loop_turn [OF less.prems(1) False, of kill 0 k] less.prems(3) by (intro exI [of _ 1]) simp
      next
        fix st' S' stk' vs'
        assume st': "search_turn step equal 0 st = Some (Continue st')" "represents st' S' stk'" "pending st' S' vs'"
          "(work_left st' stk' vs', work_left st stk vs) \<in> less_work"
        from less.hyps [OF st'(4,2,3) less.prems(3)] obtain fuel where
          "search_loop step equal kill fuel (Suc k) st' = Some (Some (compl {} init))" by blast
        then show ?thesis
          using loop_turn [OF less.prems(1) False, of kill fuel k] less.prems(3) st'(1)
          by (intro exI [of _ "Suc fuel"]) simp
      qed
    qed
  qed
qed

text \<open>Whatever is stored in the flag, the search does not panic, and the result \<open>true\<close> is right.\<close>

lemma loop_safe:
  assumes "represents st S stk" and "pending st S vs" and "search_loop step equal kill fuel k st = Some res"
  shows "res \<noteq> None \<and> (res = Some True \<longrightarrow> compl {} init)"
  using assms
proof (induction fuel arbitrary: st S stk vs k)
  case (Suc fuel)
  show ?case
  proof (cases "rem S = []")
    case True
    with loop_found [OF Suc.prems(1)] Suc.prems(3) show ?thesis by auto
  next
    case False
    then obtain a where a: "sentry st = Some a" "stands_at S (sstate st) a vs"
      using Suc.prems(2) by (auto simp: pending_def)
    note loop = loop_turn [OF Suc.prems(1) False, of kill fuel k]
    show ?thesis
    proof (cases "kill k = 0")
      case True
      with turn_progress [OF Suc.prems(1) a] loop Suc.prems(3) Suc.IH show ?thesis by fastforce
    next
      case False
      then have "search_turn step equal (kill k) st = Some (Returned False)" by (simp add: search_turn_def)
      with loop Suc.prems(3) show ?thesis by auto
    qed
  qed
qed simp

end

end
