(* ===== verification/Lin_History.thy ===== *)
theory Lin_History
  imports Lin_Check
begin

text \<open>
  What the search of the checker decides. A complete history of \<open>n\<close> operations is linearizable when its
  operations have an order that the model accepts and in which no operation comes before one that
  had returned before it was called. The locales of the search are interpreted on the nodes that
  \<open>makeLinkedEntries\<close> builds, with the head node that \<open>checkSingle\<close> adds.
\<close>

section \<open>Linearizability\<close>

definition call_index :: "'v entry list \<Rightarrow> nat \<Rightarrow> nat" where
  "call_index E x = length (takeWhile (\<lambda>e. \<not> (ekind e = callEntry \<and> eid e = x)) E)"

definition ret_index :: "'v entry list \<Rightarrow> nat \<Rightarrow> nat" where
  "ret_index E x = length (takeWhile (\<lambda>e. \<not> (ekind e = returnEntry \<and> eid e = x)) E)"

definition entry_io :: "'v entry list \<Rightarrow> nat \<Rightarrow> 'v \<times> 'v" where
  "entry_io E x = (evalue (E ! call_index E x), evalue (E ! ret_index E x))"

fun accepts_run :: "('v, 's) model_step \<Rightarrow> 's \<Rightarrow> ('v \<times> 'v) list \<Rightarrow> bool" where
  "accepts_run step s [] \<longleftrightarrow> True"
| "accepts_run step s ((v, w) # ios) \<longleftrightarrow>
     (case step s v w of Some (ok, s') \<Rightarrow> ok \<and> accepts_run step s' ios | None \<Rightarrow> False)"

definition linearizable_entries :: "('v, 's) model_step \<Rightarrow> 's \<Rightarrow> nat \<Rightarrow> 'v entry list \<Rightarrow> bool" where
  "linearizable_entries step init n E \<longleftrightarrow>
     (\<exists>order. distinct order \<and> set order = {..<n} \<and> accepts_run step init (map (entry_io E) order)
        \<and> sorted_wrt (\<lambda>x y. \<not> ret_index E y < call_index E x) order)"

text \<open>The model does not panic on the values of the history.\<close>

definition well_typed :: "('v, 's) model_step \<Rightarrow> nat \<Rightarrow> 'v entry list \<Rightarrow> bool" where
  "well_typed step n E \<longleftrightarrow> (\<forall>x < n. \<forall>s. step s (fst (entry_io E x)) (snd (entry_io E x)) \<noteq> None)"

section \<open>The nodes of a history\<close>

text \<open>The entry of node \<open>a\<close>: nodes are allocated from the last entry to the first.\<close>

lemma takeWhile_index:
  assumes "i < length xs" and "P (xs ! i)" and "\<forall>j < length xs. P (xs ! j) \<longrightarrow> j = i"
  shows "length (takeWhile (\<lambda>x. \<not> P x) xs) = i"
proof (cases "length (takeWhile (\<lambda>x. \<not> P x) xs) < length xs")
  case True
  with nth_length_takeWhile [OF True] assms(3) show ?thesis by blast
next
  case False
  then have "takeWhile (\<lambda>x. \<not> P x) xs = xs"
    by (metis length_takeWhile_le le_neq_implies_less takeWhile_eq_take take_all_iff order_refl)
  then have "\<not> P (xs ! i)" using assms(1) by (metis nth_mem set_takeWhileD)
  with assms(2) show ?thesis by blast
qed

lemma complete_positions:
  assumes "complete_history n E" and "x < n"
  shows "call_index E x < ret_index E x" and "ret_index E x < length E"
    and "{i. i < length E \<and> eid (E ! i) = x} = {call_index E x, ret_index E x}"
    and "ekind (E ! call_index E x) = callEntry" and "ekind (E ! ret_index E x) = returnEntry"
proof -
  obtain c r where cr: "c < r" "r < length E" "{i. i < length E \<and> eid (E ! i) = x} = {c, r}"
    "ekind (E ! c) = callEntry" "ekind (E ! r) = returnEntry"
    using assms unfolding complete_history_def by blast
  have only: "i = c \<or> i = r" if "i < length E" "eid (E ! i) = x" for i using cr(3) that by blast
  have "eid (E ! c) = x" "eid (E ! r) = x" using cr(3) by auto
  then have "call_index E x = c" "ret_index E x = r"
    unfolding call_index_def ret_index_def
    using cr only by (intro takeWhile_index; force)+
  with cr show "call_index E x < ret_index E x" "ret_index E x < length E"
    "{i. i < length E \<and> eid (E ! i) = x} = {call_index E x, ret_index E x}"
    "ekind (E ! call_index E x) = callEntry" "ekind (E ! ret_index E x) = returnEntry"
    by simp_all
qed

text \<open>The heap that \<open>checkSingle\<close> searches: the nodes of the entries and, last, the head node.\<close>

definition head_node :: "'v node" where
  "head_node = \<lparr>nvalue = None, nmatch = None, nid = 2 ^ 64 - 1, nnext = None, nprev = None\<rparr>"

definition start_heap :: "'v entry list \<Rightarrow> 'v heap" where
  "start_heap E =
     (case makeLinkedEntries E of
        None \<Rightarrow> []
      | Some (h, root) \<Rightarrow> (case insertBefore (Some (length h)) root (h @ [head_node]) of
                            None \<Rightarrow> [] | Some (h', n) \<Rightarrow> h'))"

lemma built:
  "\<exists>h. makeLinkedEntries E = Some (h, top_ptr h) \<and> chain h None (rev [0..<length E]) None
     \<and> map node_data h = datas Map.empty 0 (rev E) \<and> length h = length E"
proof -
  obtain h where h: "makeLinkedEntries E = Some (h, top_ptr h)" "chain h None (rev [0..<length h]) None"
    "map node_data h = datas Map.empty 0 (rev E)"
    using link_loop_chain [of "[]" "rev E" Map.empty] by (auto simp: makeLinkedEntries_def top_ptr_def)
  moreover have "length h = length E" using arg_cong [OF h(3), of length] by simp
  ultimately show ?thesis by auto
qed

lemma start_heap_built:
  assumes "makeLinkedEntries E = Some (h, root)"
  shows "insertBefore (Some (length h)) root (h @ [head_node]) = Some (start_heap E, Some (length E))"
    and "chain (start_heap E) None (length E # rev [0..<length E]) None"
    and "same_data (h @ [head_node]) (start_heap E)" and "root = hd_ptr (rev [0..<length E]) None"
    and "length h = length E" and "chain h None (rev [0..<length E]) None"
proof -
  have h: "root = top_ptr h" "chain h None (rev [0..<length E]) None" "length h = length E"
    using built [of E] assms by auto
  have "\<exists>h'. insertBefore (Some (length h)) root (h @ [head_node]) = Some (h', Some (length E))
      \<and> chain h' None (length E # rev [0..<length E]) None \<and> same_data (h @ [head_node]) h'"
  proof (cases "length E")
    case 0
    with h show ?thesis
      by (intro exI [of _ "[head_node]"]) (auto simp: insertBefore_def top_ptr_def head_node_def)
  next
    case (Suc k)
    then have rev: "rev [0..<length E] = k # rev [0..<k]" by simp
    have "chain (h @ [head_node]) None (k # rev [0..<k]) None"
      using chain_heap_append [OF h(2)] unfolding rev .
    with insertBefore_chain [of "h @ [head_node]" k "rev [0..<k]" "length E"] h Suc show ?thesis
      by (auto simp: top_ptr_def nth_append head_node_def)
  qed
  then show "insertBefore (Some (length h)) root (h @ [head_node]) = Some (start_heap E, Some (length E))"
    "chain (start_heap E) None (length E # rev [0..<length E]) None"
    "same_data (h @ [head_node]) (start_heap E)"
    using assms by (auto simp: start_heap_def)
  show "root = hd_ptr (rev [0..<length E]) None" using h by (simp add: top_ptr_def)
  show "length h = length E" "chain h None (rev [0..<length E]) None" using h by simp_all
qed

lemma start_heap_data:
  assumes "a < length E"
  shows "nvalue (start_heap E ! a) = Some (evalue (rev E ! a))" and "nid (start_heap E ! a) = eid (rev E ! a)"
    and "nmatch (start_heap E ! a) = fst (snd (datas Map.empty 0 (rev E) ! a))"
proof -
  obtain h where h: "makeLinkedEntries E = Some (h, top_ptr h)" "map node_data h = datas Map.empty 0 (rev E)"
    using built by blast
  note b = start_heap_built [OF h(1)]
  have "node_data (start_heap E ! a) = node_data (h ! a)"
    using b(3,5) assms by (auto simp: same_data_def node_data_def nth_append)
  also have "\<dots> = datas Map.empty 0 (rev E) ! a" using h(2) b(5) assms by (metis nth_map)
  finally have d: "node_data (start_heap E ! a) = datas Map.empty 0 (rev E) ! a" .
  have "fst (datas Map.empty 0 (rev E) ! a) = Some (evalue (rev E ! a))"
    "snd (snd (datas Map.empty 0 (rev E) ! a)) = eid (rev E ! a)"
    using datas_value [of a "rev E"] assms by auto
  with d show "nvalue (start_heap E ! a) = Some (evalue (rev E ! a))" "nid (start_heap E ! a) = eid (rev E ! a)"
    "nmatch (start_heap E ! a) = fst (snd (datas Map.empty 0 (rev E) ! a))"
    by (auto simp: node_data_def prod_eq_iff)
qed

definition call_node :: "'v entry list \<Rightarrow> nat \<Rightarrow> nat" where
  "call_node E x = length E - 1 - call_index E x"

definition ret_node :: "'v entry list \<Rightarrow> nat \<Rightarrow> nat" where
  "ret_node E x = length E - 1 - ret_index E x"

definition match_of :: "'v entry list \<Rightarrow> nat \<rightharpoonup> nat" where
  "match_of E a = nmatch (start_heap E ! a)"

lemma op_nodes:
  assumes "complete_history n E" and "x < n"
  shows "ret_node E x < call_node E x" and "call_node E x < length E"
    and "rev E ! call_node E x = E ! call_index E x" and "rev E ! ret_node E x = E ! ret_index E x"
    and "eid (E ! call_index E x) = x" and "eid (E ! ret_index E x) = x"
    and "match_of E (call_node E x) = Some (ret_node E x)" and "match_of E (ret_node E x) = None"
proof -
  note p = complete_positions [OF assms]
  show lt: "ret_node E x < call_node E x" "call_node E x < length E"
    using p(1,2) by (auto simp: ret_node_def call_node_def)
  show r: "rev E ! call_node E x = E ! call_index E x" "rev E ! ret_node E x = E ! ret_index E x"
    using p(1,2) by (auto simp: ret_node_def call_node_def rev_nth)
  show e: "eid (E ! call_index E x) = x" "eid (E ! ret_index E x) = x" using p(3) by auto
  have "i' = ret_node E x" if "i' < length E" "ekind (rev E ! i') = returnEntry" "eid (rev E ! i') = x" for i'
  proof -
    let ?i = "length E - 1 - i'"
    have i: "?i < length E" "E ! ?i = rev E ! i'" using that(1) by (auto simp: rev_nth)
    then have "?i \<in> {i. i < length E \<and> eid (E ! i) = x}" using that(3) by simp
    then have "?i = call_index E x \<or> ?i = ret_index E x" unfolding p(3) by simp
    moreover have "?i \<noteq> call_index E x" using i(2) that(2) p(4) by auto
    ultimately show ?thesis using that(1) by (simp add: ret_node_def)
  qed
  then have "fst (snd (datas Map.empty 0 (rev E) ! call_node E x)) = Some (0 + ret_node E x)"
    using lt r e p(4,5) by (intro datas_call) auto
  then show "match_of E (call_node E x) = Some (ret_node E x)"
    using start_heap_data(3) [OF lt(2)] by (simp add: match_of_def)
  show "match_of E (ret_node E x) = None"
    using start_heap_data(3) [of "ret_node E x" E] datas_return [of "ret_node E x" "rev E"] lt r p(5)
    by (simp add: match_of_def)
qed

lemma node_cases:
  assumes "complete_history n E" and "a < length E"
  obtains x where "x < n" and "a = call_node E x" | x where "x < n" and "a = ret_node E x"
proof -
  let ?x = "eid (rev E ! a)" and ?i = "length E - 1 - a"
  have x: "?x < n" "eid (E ! ?i) = ?x" "?i < length E"
    using assms by (auto simp: complete_history_def rev_nth)
  then have "?i \<in> {call_index E ?x, ret_index E ?x}" using complete_positions(3) [OF assms(1) x(1)] by blast
  then have "a = call_node E ?x \<or> a = ret_node E ?x"
    using assms(2) by (auto simp: call_node_def ret_node_def)
  with x(1) that show ?thesis by blast
qed

definition good_history :: "('v, 's) model_step \<Rightarrow> nat \<Rightarrow> 'v entry list \<Rightarrow> bool" where
  "good_history step n E \<longleftrightarrow> complete_history n E \<and> well_typed step n E"

text \<open>The nodes in the order of the history; none when the history is not complete.\<close>

definition node_order :: "('v, 's) model_step \<Rightarrow> nat \<Rightarrow> 'v entry list \<Rightarrow> nat list" where
  "node_order step n E = (if good_history step n E then rev [0..<length E] else [])"

definition op_step :: "('v, 's) model_step \<Rightarrow> 'v entry list \<Rightarrow> 's \<Rightarrow> nat \<Rightarrow> bool \<times> 's" where
  "op_step step E s c = the (step s (evalue (rev E ! c)) (evalue (rev E ! the (match_of E c))))"

lemma call_node_inj:
  "complete_history n E \<Longrightarrow> x < n \<Longrightarrow> y < n \<Longrightarrow> call_node E x = call_node E y \<Longrightarrow> x = y"
  using op_nodes(3,5) by metis

lemma ret_node_inj:
  "complete_history n E \<Longrightarrow> x < n \<Longrightarrow> y < n \<Longrightarrow> ret_node E x = ret_node E y \<Longrightarrow> x = y"
  using op_nodes(4,6) by metis

lemma matched:
  assumes "complete_history n E" and "c < length E" and "match_of E c = Some r"
  shows "\<exists>x < n. c = call_node E x \<and> r = ret_node E x"
  using assms op_nodes(7,8) by (metis node_cases option.distinct(1) option.inject)

lemma calls_of_history:
  assumes "good_history step n E"
  shows "calls_of (node_order step n E) (match_of E) = call_node E ` {..<n}"
proof -
  have c: "complete_history n E" using assms by (simp add: good_history_def)
  show ?thesis
  proof (rule set_eqI)
    fix a
    show "a \<in> calls_of (node_order step n E) (match_of E) \<longleftrightarrow> a \<in> call_node E ` {..<n}"
      using matched [OF c, of a] op_nodes(2,7) [OF c] assms
      by (auto simp: calls_of_def node_order_def)
  qed
qed

lemma rev_upt_split: "r < c \<Longrightarrow> c < N \<Longrightarrow> \<exists>us vs ws. rev [0..<N] = us @ c # vs @ r # ws"
proof -
  assume rc: "r < c" "c < N"
  have "[0..<N] = [0..<r] @ [r..<N]" using upt_add_eq_append [of 0 r "N - r"] rc by simp
  moreover have "[r..<N] = r # [Suc r..<N]" using rc by (simp add: upt_conv_Cons)
  moreover have "[Suc r..<N] = [Suc r..<c] @ [c..<N]" using upt_add_eq_append [of "Suc r" c "N - c"] rc by simp
  moreover have "[c..<N] = c # [Suc c..<N]" using rc by (simp add: upt_conv_Cons)
  ultimately have "[0..<N] = [0..<r] @ r # [Suc r..<c] @ c # [Suc c..<N]" by simp
  then have "rev [0..<N] = rev [Suc c..<N] @ c # rev [Suc r..<c] @ r # rev [0..<r]" by simp
  then show ?thesis by blast
qed

interpretation lin: checker "node_order step n E" "match_of E" "op_step step E" init
  "start_heap E" "length E" step "(=)" n for step n E init
proof
  show "distinct (node_order step n E)" by (simp add: node_order_def)
  show "length E \<notin> set (node_order step n E)" by (simp add: node_order_def)
  show "nmatch (start_heap E ! a) = match_of E a" for a by (simp add: match_of_def)
  show "(s = t) = (s = t)" for s t :: 's by simp
  have good: "complete_history n E \<and> c < length E \<and> good_history step n E" if "c \<in> set (node_order step n E)" for c
    using that by (auto simp: node_order_def good_history_def split: if_splits)
  note m = matched [of n E]
  show "\<exists>us vs ws. node_order step n E = us @ c # vs @ r # ws"
    if "c \<in> set (node_order step n E)" "match_of E c = Some r" for c r
  proof -
    have "r < c" using good [OF that(1)] m [of c r] op_nodes(1) [of n E] that(2) by auto
    with rev_upt_split [of r c "length E"] good [OF that(1)] show ?thesis by (simp add: node_order_def)
  qed
  show "match_of E r = None" if "c \<in> set (node_order step n E)" "match_of E c = Some r" for c r
    using good [OF that(1)] m [of c r] op_nodes(8) [of n E] that(2) by auto
  show "\<exists>c \<in> set (node_order step n E). match_of E c = Some r"
    if r: "r \<in> set (node_order step n E)" "match_of E r = None" for r
  proof -
    obtain x where "x < n" "r = ret_node E x"
      using node_cases [of n E r] good [OF r(1)] op_nodes(7) r(2) by (metis option.distinct(1))
    with good [OF r(1)] op_nodes(2,7) show ?thesis by (fastforce simp: node_order_def)
  qed
  show "c = d" if "c \<in> set (node_order step n E)" "d \<in> set (node_order step n E)"
    "match_of E c = Some r" "match_of E d = Some r" for c d r
    using good [OF that(1)] good [OF that(2)] m [of c r] m [of d r] ret_node_inj that(3,4) by metis
  show "\<exists>v w. nvalue (start_heap E ! c) = Some v \<and> nvalue (start_heap E ! r) = Some w
      \<and> (\<forall>s. step s v w = Some (op_step step E s c))"
    if c: "c \<in> set (node_order step n E)" "match_of E c = Some r" for c r
  proof -
    obtain x where x: "x < n" "c = call_node E x" "r = ret_node E x" using m [of c r] good [OF c(1)] c(2) by blast
    have "step s (fst (entry_io E x)) (snd (entry_io E x)) \<noteq> None" for s
      using good [OF c(1)] x(1) by (auto simp: good_history_def well_typed_def)
    with x c(2) good [OF c(1)] op_nodes(1-4) [of n E x] show ?thesis
      by (auto simp: start_heap_data op_step_def entry_io_def)
  qed
  show "nid (start_heap E ! c) < n" if "c \<in> calls_of (node_order step n E) (match_of E)" for c
  proof -
    have "good_history step n E" using that good by (auto simp: calls_of_def)
    with that obtain x where "x < n" "c = call_node E x" by (auto simp: calls_of_history)
    with \<open>good_history step n E\<close> op_nodes(2,3,5) [of n E x] show ?thesis
      by (simp add: start_heap_data good_history_def)
  qed
  show "inj_on (\<lambda>c. nid (start_heap E ! c)) (calls_of (node_order step n E) (match_of E))"
  proof (rule inj_onI)
    fix c d
    assume cd: "c \<in> calls_of (node_order step n E) (match_of E)" "d \<in> calls_of (node_order step n E) (match_of E)"
      "nid (start_heap E ! c) = nid (start_heap E ! d)"
    then have "good_history step n E" using good by (auto simp: calls_of_def)
    with cd obtain x y where "x < n" "y < n" "c = call_node E x" "d = call_node E y"
      by (auto simp: calls_of_history)
    with \<open>good_history step n E\<close> cd(3) op_nodes(2,3,5) [of n E x] op_nodes(2,3,5) [of n E y] show "c = d"
      by (simp add: start_heap_data good_history_def)
  qed
qed

section \<open>The search decides linearizability\<close>

lemma before_rev_upt: "before (rev [0..<N]) a b \<longleftrightarrow> b < a \<and> a < N"
proof
  assume "before (rev [0..<N]) a b"
  then obtain us vs where us: "rev [0..<N] = us @ b # vs" "a \<in> set us" by (auto simp: before_def)
  have "sorted_wrt (>) (rev [0..<N])" by (simp add: sorted_wrt_rev)
  with us have "b < a" by (simp add: sorted_wrt_append)
  moreover have "a \<in> set (rev [0..<N])" using us by simp
  ultimately show "b < a \<and> a < N" by simp
next
  assume "b < a \<and> a < N"
  then obtain us vs ws where "rev [0..<N] = us @ a # vs @ b # ws" using rev_upt_split by blast
  then have "rev [0..<N] = (us @ a # vs) @ b # ws" by simp
  then show "before (rev [0..<N]) a b" unfolding before_def by fastforce
qed

lemma runs_accepts:
  assumes "good_history step n E" and "set order \<subseteq> {..<n}"
  shows "runs (op_step step E) s (map (call_node E) order) \<longleftrightarrow> accepts_run step s (map (entry_io E) order)"
  using assms(2)
proof (induction order arbitrary: s)
  case (Cons x order)
  have x: "x < n" "complete_history n E" using Cons.prems assms(1) by (auto simp: good_history_def)
  have "step s (fst (entry_io E x)) (snd (entry_io E x)) \<noteq> None"
    using assms(1) x(1) by (auto simp: good_history_def well_typed_def)
  then obtain ok s' where "step s (fst (entry_io E x)) (snd (entry_io E x)) = Some (ok, s')" by auto
  with op_nodes(3,4,7) [OF x(2,1)] Cons show ?case
    by (cases "entry_io E x") (simp add: op_step_def entry_io_def)
qed simp

lemma order_nodes:
  assumes "complete_history n E" and "x < n" and "y < n"
  shows "before (rev [0..<length E]) (ret_node E y) (call_node E x) \<longleftrightarrow> ret_index E y < call_index E x"
  using complete_positions(1,2) [OF assms(1,2)] complete_positions(1,2) [OF assms(1,3)]
  by (auto simp: before_rev_upt ret_node_def call_node_def)

lemma completable_linearizable:
  assumes "good_history step n E"
  shows "completable (node_order step n E) (match_of E) (op_step step E) {} init
    \<longleftrightarrow> linearizable_entries step init n E"
proof -
  have c: "complete_history n E" and order: "node_order step n E = rev [0..<length E]"
    using assms by (simp_all add: good_history_def node_order_def)
  let ?ok = "\<lambda>os. distinct os \<and> set os = call_node E ` {..<n} \<and> runs (op_step step E) init os
    \<and> sorted_wrt (\<lambda>c d. \<not> before (rev [0..<length E]) (the (match_of E d)) c) os"
  have inj: "inj_on (call_node E) {..<n}" using call_node_inj [OF c] by (auto intro: inj_onI)
  have ok: "?ok (map (call_node E) xs) \<longleftrightarrow> distinct xs \<and> accepts_run step init (map (entry_io E) xs)
      \<and> sorted_wrt (\<lambda>x y. \<not> ret_index E y < call_index E x) xs" if xs: "set xs = {..<n}" for xs
  proof -
    have "sorted_wrt (\<lambda>c d. \<not> before (rev [0..<length E]) (the (match_of E d)) c) (map (call_node E) xs)
        \<longleftrightarrow> sorted_wrt (\<lambda>x y. \<not> ret_index E y < call_index E x) xs"
      unfolding sorted_wrt_map
    proof (rule sorted_wrt_cong)
      show "(\<not> before (rev [0..<length E]) (the (match_of E (call_node E y))) (call_node E x))
          = (\<not> ret_index E y < call_index E x)" if "x \<in> set xs" "y \<in> set xs" for x y
        using order_nodes [OF c, of x y] op_nodes(7) [OF c, of y] that xs by auto
    qed
    with runs_accepts [OF assms, of xs init] xs inj show ?thesis by (auto simp: distinct_map)
  qed
  have nodes: "\<exists>xs. os = map (call_node E) xs \<and> set xs = {..<n}" if "set os = call_node E ` {..<n}" for os
  proof -
    have "map (call_node E) (map (inv_into {..<n} (call_node E)) os) = os"
      using that by (auto intro!: map_idI simp: f_inv_into_f)
    moreover have "set (map (inv_into {..<n} (call_node E)) os) = {..<n}"
      using that inj by (auto simp: image_image inv_into_f_f)
    ultimately show ?thesis by metis
  qed
  have "completable (node_order step n E) (match_of E) (op_step step E) {} init \<longleftrightarrow> (\<exists>os. ?ok os)"
    using lin.completable_order [where step = step and n = n and E = E and S = "{}" and s = init]
      calls_of_history [OF assms] by (simp add: order)
  also have "\<dots> \<longleftrightarrow> (\<exists>xs. set xs = {..<n} \<and> ?ok (map (call_node E) xs))"
  proof
    assume "\<exists>os. ?ok os"
    then obtain os where os: "?ok os" by (elim exE)
    then obtain xs where "os = map (call_node E) xs" "set xs = {..<n}" using nodes [of os] by (elim conjE) blast
    with os show "\<exists>xs. set xs = {..<n} \<and> ?ok (map (call_node E) xs)" by (intro exI [of _ xs]) simp
  qed (elim exE conjE, intro exI conjI)
  also have "\<dots> \<longleftrightarrow> linearizable_entries step init n E"
    unfolding linearizable_entries_def by (rule ex_cong1) (use ok in blast)
  finally show ?thesis .
qed

lemma start_represents:
  assumes "good_history step n E"
  shows "lin.represents step n E init
    \<lparr>sheap = start_heap E, shead = Some (length E), sentry = hd_ptr (rev [0..<length E]) None, sstate = init,
     slinearized = newBitset n, scache = (\<lambda>k. []), scalls = []\<rparr> {} []"
proof -
  have order: "node_order step n E = rev [0..<length E]" using assms by (simp add: node_order_def)
  obtain h where "makeLinkedEntries E = Some (h, top_ptr h)" using built by blast
  from start_heap_built(2) [OF this] show ?thesis
    unfolding lin.represents_def
    unfolding lin.heap_ok_def lin.bits_ok_def lin.ids_def lin.keys_ok_def lin.cached_def lin.cache_ok_def
      lin.heaps_ok.simps lin.stack_ok.simps
    unfolding remaining_def order by simp
qed

lemma loop_more_fuel:
  "search_loop step equal kill fuel k st = Some r \<Longrightarrow> fuel \<le> fuel' \<Longrightarrow> search_loop step equal kill fuel' k st = Some r"
proof (induction fuel arbitrary: fuel' k st)
  case (Suc fuel)
  then obtain f where "fuel' = Suc f" "fuel \<le> f" by (cases fuel') auto
  with Suc show ?case by (auto split: option.splits outcome.splits)
qed simp

lemma checkSingle_start:
  assumes "complete_history n E" and "makeLinkedEntries E = Some hr"
  shows "checkSingle step equal init kill fuel hr = search_loop step equal kill fuel 0
    \<lparr>sheap = start_heap E, shead = Some (length E), sentry = hd_ptr (rev [0..<length E]) None, sstate = init,
     slinearized = newBitset n, scache = (\<lambda>k. []), scalls = []\<rparr>"
proof -
  obtain h root where hr: "hr = (h, root)" by (cases hr)
  note b = start_heap_built [of E h root] assms(2) [unfolded hr]
  have "node_length h root = Some (2 * n)"
    using length_loop_chain [OF start_heap_built(6) [OF b(7)], of 0] start_heap_built(4) [OF b(7)] assms(1)
    by (simp add: node_length_def complete_history_def)
  with start_heap_built(1,4) [OF b(7)] show ?thesis
    by (simp add: checkSingle_def hr alloc_def head_node_def)
qed

lemma checkSingle_result:
  assumes "complete_history n E" and "well_typed step n E" and "makeLinkedEntries E = Some hr"
  shows "\<forall>k. kill k = 0 \<Longrightarrow> \<exists>F. \<forall>fuel \<ge> F. checkSingle step (=) init kill fuel hr
      = Some (Some (linearizable_entries step init n E))"
    and "checkSingle step (=) init kill fuel hr = Some res \<Longrightarrow>
      res \<noteq> None \<and> (res = Some True \<longrightarrow> linearizable_entries step init n E)"
proof -
  have good: "good_history step n E" using assms by (simp add: good_history_def)
  have order: "node_order step n E = rev [0..<length E]" using good by (simp add: node_order_def)
  let ?st = "\<lparr>sheap = start_heap E, shead = Some (length E), sentry = hd_ptr (rev [0..<length E]) None,
     sstate = init, slinearized = newBitset n, scache = (\<lambda>k. []), scalls = []\<rparr>"
  note start = start_represents [OF good, of init]
  have "sentry ?st = hd_ptr (remaining (node_order step n E) (match_of E) {}) None"
    by (simp add: remaining_def order)
  then obtain vs where pend: "lin.pending step n E ?st {} vs" using lin.pending_head by blast
  show "\<exists>F. \<forall>fuel \<ge> F. checkSingle step (=) init kill fuel hr = Some (Some (linearizable_entries step init n E))"
    if "\<forall>k. kill k = 0"
    using lin.loop_decides [OF start pend that, of 0] loop_more_fuel
    unfolding checkSingle_start [OF assms(1,3)] completable_linearizable [OF good] by blast
  show "res \<noteq> None \<and> (res = Some True \<longrightarrow> linearizable_entries step init n E)"
    if "checkSingle step (=) init kill fuel hr = Some res"
    using lin.loop_safe [OF start pend] that
    unfolding checkSingle_start [OF assms(1,3)] completable_linearizable [OF good] by blast
qed

end
