(* ===== verification/Lin_Ops.thy ===== *)
theory Lin_Ops
  imports Lin_History
begin

text \<open>
  From histories of operations with call and return times to histories of entries: \<open>makeEntries\<close>
  sorts the entries by time, and its result is complete when every operation is called before it
  returns. For histories in which no call and return happen at the same instant, the order of entries
  says the same about which operation precedes which as the times do.
\<close>

section \<open>The contract of \<open>sort.Sort\<close>\<close>

locale sort_routine =
  fixes sorter :: "'v entry list \<Rightarrow> 'v entry list"
  assumes mset_sorter: "mset (sorter es) = mset es"
    and sorted_sorter: "sorted (map etime (sorter es))"

interpretation key_sort: sort_routine "sort_key etime"
  by unfold_locales simp_all

section \<open>Linearizable histories of operations\<close>

definition op_io :: "'v Operation \<Rightarrow> 'v \<times> 'v" where
  "op_io p = (Input p, Output p)"

definition linearizable_ops :: "('v, 's) model_step \<Rightarrow> 's \<Rightarrow> 'v Operation list \<Rightarrow> bool" where
  "linearizable_ops step init ops \<longleftrightarrow>
     (\<exists>order. mset order = mset ops \<and> accepts_run step init (map op_io order)
        \<and> sorted_wrt (\<lambda>p q. \<not> Return q < Call p) order)"

definition timed :: "'v Operation list \<Rightarrow> bool" where
  "timed ops \<longleftrightarrow> (\<forall>p \<in> set ops. Call p < Return p) \<and> (\<forall>p \<in> set ops. \<forall>q \<in> set ops. Return p \<noteq> Call q)"

section \<open>Permutations as lists of indices\<close>

lemma mset_map_nth:
  assumes "distinct is" and "set is = {..<length ys}"
  shows "mset (map ((!) ys) is) = mset ys"
proof -
  have "mset is = mset [0..<length ys]"
    using assms set_eq_iff_mset_eq_distinct [of "is" "[0..<length ys]"] by (simp add: lessThan_atLeast0)
  then have "mset (map ((!) ys) is) = mset (map ((!) ys) [0..<length ys])" by (simp add: mset_map)
  then show ?thesis by (simp add: map_nth)
qed

lemma mset_eq_indices:
  "mset xs = mset ys \<Longrightarrow> \<exists>is. distinct is \<and> set is = {..<length ys} \<and> xs = map ((!) ys) is"
proof (induction xs arbitrary: ys)
  case (Cons x xs)
  then have "x \<in> set ys" by (metis list.set_intros(1) set_mset_mset)
  then obtain us vs where ys: "ys = us @ x # vs" by (auto simp: in_set_conv_decomp)
  with Cons.prems have "mset xs = mset (us @ vs)" by simp
  from Cons.IH [OF this] obtain "is" where is_eq: "distinct is" "set is = {..<length (us @ vs)}" "xs = map ((!) (us @ vs)) is"
    by blast
  define f where "f i = (if i < length us then i else Suc i)" for i
  have inj: "inj f" by (rule injI) (auto simp: f_def split: if_splits)
  have "map ((!) (us @ vs)) is = map ((!) ys) (map f is)"
    using is_eq(2) by (auto simp: ys f_def nth_append)
  moreover have "set (map f is) = {..<length ys} - {length us}"
  proof -
    have "f ` {..<length (us @ vs)} = {..<length ys} - {length us}"
    proof (rule set_eqI)
      fix i
      show "i \<in> f ` {..<length (us @ vs)} \<longleftrightarrow> i \<in> {..<length ys} - {length us}"
        by (cases "i < length us") (auto simp: f_def ys image_iff intro: bexI [of _ "i - 1"] bexI [of _ i])
    qed
    with is_eq(2) show ?thesis by simp
  qed
  moreover have "distinct (map f is)" using is_eq(1) inj by (simp add: distinct_map inj_on_def)
  ultimately show ?case
    using is_eq(3) ys by (intro exI [of _ "length us # map f is"]) auto
qed simp

section \<open>Sorted entries\<close>

definition call_entry :: "'v Operation list \<Rightarrow> nat \<Rightarrow> 'v entry" where
  "call_entry ops x = \<lparr>ekind = callEntry, evalue = Input (ops ! x), eid = x, etime = Call (ops ! x)\<rparr>"

definition ret_entry :: "'v Operation list \<Rightarrow> nat \<Rightarrow> 'v entry" where
  "ret_entry ops x = \<lparr>ekind = returnEntry, evalue = Output (ops ! x), eid = x, etime = Return (ops ! x)\<rparr>"

lemma op_entries_concat:
  "op_entries n ops = concat (map (\<lambda>x. [\<lparr>ekind = callEntry, evalue = Input (ops ! x), eid = n + x, etime = Call (ops ! x)\<rparr>,
     \<lparr>ekind = returnEntry, evalue = Output (ops ! x), eid = n + x, etime = Return (ops ! x)\<rparr>]) [0..<length ops])"
proof (induction ops arbitrary: n)
  case (Cons p ops)
  have "[0..<length (p # ops)] = 0 # map Suc [0..<length ops]" by (simp add: upt_conv_Cons map_Suc_upt del: upt_Suc)
  then show ?case using Cons [of "n + 1"] by (simp add: comp_def del: upt_Suc)
qed simp

lemma op_entries_0: "op_entries 0 ops = concat (map (\<lambda>x. [call_entry ops x, ret_entry ops x]) [0..<length ops])"
  by (simp add: op_entries_concat call_entry_def ret_entry_def)

lemma length_op_entries: "length (op_entries n ops) = 2 * length ops"
  by (induction ops arbitrary: n) auto

lemma filter_op_entries:
  assumes "x < length ops"
  shows "filter (\<lambda>e. eid e = x) (op_entries 0 ops) = [call_entry ops x, ret_entry ops x]"
proof -
  have eq: "filter (\<lambda>e. eid e = x) (concat (map (\<lambda>y. [call_entry ops y, ret_entry ops y]) ys))
      = concat (map (\<lambda>y. if y = x then [call_entry ops y, ret_entry ops y] else []) ys)" for ys
    by (induction ys) (auto simp: call_entry_def ret_entry_def)
  have none: "concat (map (\<lambda>y. if y = x then [call_entry ops y, ret_entry ops y] else []) ys) = []" if "x \<notin> set ys" for ys
    using that by auto
  have "[0..<length ops] = [0..<x] @ x # [Suc x..<length ops]"
    using assms upt_add_eq_append [of 0 x "length ops - x"] by (simp add: upt_conv_Cons)
  then show ?thesis unfolding op_entries_0 eq by (simp add: none)
qed

text \<open>An operation in the sorted entries: its call, later its return, and nothing else.\<close>

lemma filter_two:
  assumes "filter P xs = [a, b]"
  shows "\<exists>i j. i < j \<and> j < length xs \<and> xs ! i = a \<and> xs ! j = b \<and> {k. k < length xs \<and> P (xs ! k)} = {i, j}"
proof -
  obtain us ys where us: "xs = us @ a # ys" "\<forall>u \<in> set us. \<not> P u" "P a" "filter P ys = [b]"
    using filter_eq_Cons_iff [THEN iffD1, OF assms] by metis
  obtain vs ws where vs: "ys = vs @ b # ws" "\<forall>v \<in> set vs. \<not> P v" "P b" "filter P ws = []"
    using filter_eq_Cons_iff [THEN iffD1, OF us(4)] by metis
  let ?i = "length us" and ?j = "length us + 1 + length vs"
  have "xs ! ?i = a" "xs ! ?j = b" "?i < ?j" "?j < length xs"
    using us vs by (auto simp: nth_append)
  moreover have "{k. k < length xs \<and> P (xs ! k)} = {?i, ?j}"
  proof (rule set_eqI)
    fix k
    have w: "\<forall>w \<in> set ws. \<not> P w" using vs(4) by (simp add: filter_empty_conv)
    consider "k < ?i" | "k = ?i" | "?i < k" "k < ?j" | "k = ?j" | "?j < k" by linarith
    then show "k \<in> {k. k < length xs \<and> P (xs ! k)} \<longleftrightarrow> k \<in> {?i, ?j}"
    proof cases
      case 1
      then show ?thesis using us by (simp add: nth_append)
    next
      case 3
      then have "xs ! k = vs ! (k - ?i - 1)" "k - ?i - 1 < length vs" using us vs by (auto simp: nth_append nth_Cons')
      then show ?thesis using 3 vs(2) by auto
    next
      case 5
      then have "k < length xs \<Longrightarrow> xs ! k = ws ! (k - ?j - 1) \<and> k - ?j - 1 < length ws"
        using us vs by (auto simp: nth_append nth_Cons')
      then show ?thesis using 5 w by auto
    qed (use us vs in \<open>auto simp: nth_append\<close>)
  qed
  ultimately show ?thesis by blast
qed

lemma mset_two: "mset xs = mset [a, b] \<Longrightarrow> xs = [a, b] \<or> xs = [b, a]"
proof -
  assume eq: "mset xs = mset [a, b]"
  then have "length xs = 2" by (metis length_Cons list.size(3) mset_eq_length numeral_2_eq_2)
  then obtain u v where "xs = [u, v]" by (auto simp: numeral_2_eq_2 length_Suc_conv)
  with eq show ?thesis by (auto simp: add_eq_conv_ex)
qed

context sort_routine
begin

lemma filter_entries:
  assumes "timed ops" and "x < length ops"
  shows "filter (\<lambda>e. eid e = x) (makeEntries sorter ops) = [call_entry ops x, ret_entry ops x]"
proof -
  let ?F = "filter (\<lambda>e. eid e = x) (makeEntries sorter ops)"
  have "mset ?F = mset [call_entry ops x, ret_entry ops x]"
    by (metis assms(2) filter_op_entries makeEntries_def mset_filter mset_sorter)
  then have "?F = [call_entry ops x, ret_entry ops x] \<or> ?F = [ret_entry ops x, call_entry ops x]"
    by (rule mset_two)
  moreover have "sorted (map etime ?F)"
    using sorted_filter [of etime "sorter (op_entries 0 ops)"] sorted_sorter by (simp add: makeEntries_def)
  moreover have "Call (ops ! x) < Return (ops ! x)" using assms by (simp add: timed_def)
  ultimately show ?thesis by (auto simp: call_entry_def ret_entry_def)
qed

lemma entries_complete:
  assumes "timed ops"
  shows "complete_history (length ops) (makeEntries sorter ops)"
proof -
  let ?E = "makeEntries sorter ops"
  have "length ?E = 2 * length ops"
    by (metis length_op_entries makeEntries_def mset_sorter mset_eq_length)
  moreover have "eid (?E ! i) < length ops" if "i < length ?E" for i
  proof -
    have "set ?E = set (op_entries 0 ops)" by (metis makeEntries_def mset_sorter set_mset_mset)
    then have "?E ! i \<in> set (op_entries 0 ops)" using that nth_mem by blast
    then show ?thesis by (auto simp: op_entries_0 call_entry_def ret_entry_def)
  qed
  moreover have "\<exists>c r. c < r \<and> r < length ?E \<and> {i. i < length ?E \<and> eid (?E ! i) = x} = {c, r}
      \<and> ekind (?E ! c) = callEntry \<and> ekind (?E ! r) = returnEntry" if x: "x < length ops" for x
  proof -
    obtain i j where "i < j" "j < length ?E" "?E ! i = call_entry ops x" "?E ! j = ret_entry ops x"
      "{k. k < length ?E \<and> eid (?E ! k) = x} = {i, j}"
      using filter_two [OF filter_entries [OF assms x]] by blast
    then show ?thesis by (intro exI [of _ i] exI [of _ j]) (simp add: call_entry_def ret_entry_def)
  qed
  ultimately show ?thesis by (auto simp: complete_history_def)
qed

lemma entries_at:
  assumes "timed ops" and "x < length ops"
  shows "makeEntries sorter ops ! call_index (makeEntries sorter ops) x = call_entry ops x"
    and "makeEntries sorter ops ! ret_index (makeEntries sorter ops) x = ret_entry ops x"
proof -
  let ?E = "makeEntries sorter ops"
  obtain i j where ij: "i < j" "?E ! i = call_entry ops x" "?E ! j = ret_entry ops x"
    "{k. k < length ?E \<and> eid (?E ! k) = x} = {i, j}"
    using filter_two [OF filter_entries [OF assms]] by blast
  note p = complete_positions [OF entries_complete [OF assms(1)] assms(2)]
  have "{i, j} = {call_index ?E x, ret_index ?E x}" using trans [OF ij(4) [symmetric] p(3)] .
  with ij(1) p(1) have "call_index ?E x = i \<and> ret_index ?E x = j"
    unfolding doubleton_eq_iff by linarith
  with ij show "?E ! call_index ?E x = call_entry ops x" "?E ! ret_index ?E x = ret_entry ops x" by simp_all
qed

text \<open>Without ties, the entries are ordered as the times are.\<close>

lemma entries_precede:
  assumes "timed ops" and "x < length ops" and "y < length ops"
  shows "ret_index (makeEntries sorter ops) y < call_index (makeEntries sorter ops) x
    \<longleftrightarrow> Return (ops ! y) < Call (ops ! x)"
proof -
  let ?E = "makeEntries sorter ops"
  let ?c = "call_index ?E x" and ?r = "ret_index ?E y"
  note px = complete_positions [OF entries_complete [OF assms(1)] assms(2)]
  note py = complete_positions [OF entries_complete [OF assms(1)] assms(3)]
  have len: "?c < length ?E" "?r < length ?E" using px py by linarith+
  have t: "etime (?E ! ?c) = Call (ops ! x)" "etime (?E ! ?r) = Return (ops ! y)"
    using entries_at [OF assms(1)] assms(2,3) by (simp_all add: call_entry_def ret_entry_def)
  have "sorted (map etime ?E)" using sorted_sorter by (simp add: makeEntries_def)
  then have mono: "i \<le> j \<Longrightarrow> j < length ?E \<Longrightarrow> etime (?E ! i) \<le> etime (?E ! j)" for i j
    using sorted_nth_mono [of "map etime ?E" i j] by simp
  have "Return (ops ! y) \<noteq> Call (ops ! x)" using assms by (simp add: timed_def)
  then show ?thesis using mono [of ?r ?c] mono [of ?c ?r] len t by linarith
qed

lemma linearizable_makeEntries:
  assumes "timed ops"
  shows "linearizable_entries step init (length ops) (makeEntries sorter ops) \<longleftrightarrow> linearizable_ops step init ops"
proof -
  let ?E = "makeEntries sorter ops"
  let ?P = "\<lambda>order. accepts_run step init (map op_io order) \<and> sorted_wrt (\<lambda>p q. \<not> Return q < Call p) order"
  have eq: "accepts_run step init (map (entry_io ?E) xs) \<and> sorted_wrt (\<lambda>x y. \<not> ret_index ?E y < call_index ?E x) xs
      \<longleftrightarrow> ?P (map ((!) ops) xs)" if xs: "set xs = {..<length ops}" for xs
  proof -
    have "map (entry_io ?E) xs = map op_io (map ((!) ops) xs)"
      using xs entries_at [OF assms] by (auto simp: entry_io_def op_io_def call_entry_def ret_entry_def)
    moreover have "sorted_wrt (\<lambda>x y. \<not> ret_index ?E y < call_index ?E x) xs
        \<longleftrightarrow> sorted_wrt (\<lambda>p q. \<not> Return q < Call p) (map ((!) ops) xs)"
      unfolding sorted_wrt_map using xs entries_precede [OF assms] by (intro sorted_wrt_cong) auto
    ultimately show ?thesis by (simp only:)
  qed
  show ?thesis
  proof
    assume "linearizable_entries step init (length ops) ?E"
    then obtain xs where xs: "distinct xs" "set xs = {..<length ops}" "?P (map ((!) ops) xs)"
      using eq unfolding linearizable_entries_def by blast
    with mset_map_nth [OF xs(1,2)] show "linearizable_ops step init ops"
      unfolding linearizable_ops_def by (intro exI [of _ "map ((!) ops) xs"]) simp
  next
    assume "linearizable_ops step init ops"
    then obtain order where o: "mset order = mset ops" "?P order" unfolding linearizable_ops_def by blast
    obtain xs where "distinct xs" "set xs = {..<length ops}" "order = map ((!) ops) xs"
      using mset_eq_indices [OF o(1)] by blast
    with o(2) eq show "linearizable_entries step init (length ops) ?E"
      unfolding linearizable_entries_def by blast
  qed
qed

end

end
