(* ===== verification/Lin_Model.thy ===== *)
theory Lin_Model
  imports Lin_Ops
begin

text \<open>
  Models and the entry points of the linearizability checker (\<open>src/src/linearizability/model.go\<close>,
  \<open>models.go\<close> and the end of \<open>linearizability.go\<close>): the key/value model with its partition by key, and
  \<open>CheckOperations\<close> and \<open>CheckEvents\<close>, which search every partition in a goroutine of its own and
  collect the results.

  \<^item> A field of \<open>Model\<close> that may be \<open>nil\<close> is an option; \<open>fillDefault\<close> fills it in. \<open>Partition\<close> panics on
    values of a wrong dynamic type, so its result is an option.
  \<^item> The key/value values of a history are the datatype \<open>kv_value\<close>; a failed type assertion panics.
  \<^item> The range over a Go map has no fixed order: \<open>shuffle\<close> is the order in which this call visits the keys.
  \<^item> The results arrive in any order. An \<open>arrival\<close> is the result of one partition or the timeout; a
    result that is received was computed before the flag \<open>kill\<close> is set, since only the receiving
    loop sets it, as its last action. No arrival left means that the caller waits.
\<close>

section \<open>Models\<close>

record ('v, 's) Model =
  Partition :: "('v Operation list \<Rightarrow> 'v Operation list list option) option"
  PartitionEvent :: "('v Event list \<Rightarrow> 'v Event list list option) option"
  Init :: 's
  Step :: "('v, 's) model_step"
  Equal :: "('s \<Rightarrow> 's \<Rightarrow> bool) option"

definition NoPartition :: "'v Operation list \<Rightarrow> 'v Operation list list" where
  "NoPartition history = [history]"

definition NoPartitionEvent :: "'v Event list \<Rightarrow> 'v Event list list" where
  "NoPartitionEvent history = [history]"

definition ShallowEqual :: "'s \<Rightarrow> 's \<Rightarrow> bool" where
  "ShallowEqual state1 state2 = (state1 = state2)"

definition fillDefault :: "('v, 's) Model \<Rightarrow> ('v, 's) Model" where
  "fillDefault model =
     (let m1 = (if Partition model = None then model\<lparr>Partition := Some (\<lambda>h. Some (NoPartition h))\<rparr> else model);
          m2 = (if PartitionEvent m1 = None then m1\<lparr>PartitionEvent := Some (\<lambda>h. Some (NoPartitionEvent h))\<rparr> else m1)
      in if Equal m2 = None then m2\<lparr>Equal := Some ShallowEqual\<rparr> else m2)"

section \<open>The key/value model\<close>

record KvInput =
  KvOp :: nat
  KvKey :: string
  KvValue :: string

record KvOutput =
  KvOutValue :: string

datatype kv_value = KvIn KvInput | KvOut KvOutput

fun kv_key :: "kv_value \<Rightarrow> string option" where
  "kv_key (KvIn inp) = Some (KvKey inp)"
| "kv_key (KvOut out) = None"

text \<open>\<open>m[key] = append(m[key], v)\<close>, on the pairs of the map.\<close>

fun add_group :: "string \<Rightarrow> 'x \<Rightarrow> (string \<times> 'x list) list \<Rightarrow> (string \<times> 'x list) list" where
  "add_group k v [] = [(k, [v])]"
| "add_group k v ((k', vs) # gs) = (if k' = k then (k', vs @ [v]) # gs else (k', vs) # add_group k v gs)"

fun kv_groups ::
  "kv_value Operation list \<Rightarrow> (string \<times> kv_value Operation list) list
     \<Rightarrow> (string \<times> kv_value Operation list) list option" where
  "kv_groups [] m = Some m"
| "kv_groups (v # vs) m = do { key \<leftarrow> kv_key (Input v); kv_groups vs (add_group key v m) }"

definition KvPartition ::
  "(kv_value Operation list list \<Rightarrow> kv_value Operation list list) \<Rightarrow> kv_value Operation list
     \<Rightarrow> kv_value Operation list list option" where
  "KvPartition shuffle history = do { m \<leftarrow> kv_groups history []; Some (shuffle (map snd m)) }"

fun KvStep :: "(kv_value, string) model_step" where
  "KvStep st (KvIn inp) (KvOut out) =
     Some (if KvOp inp = 0 then (KvOutValue out = st, st)
           else if KvOp inp = 1 then (True, KvValue inp)
           else (True, st @ KvValue inp))"
| "KvStep st v w = None"

definition KvModel ::
  "(kv_value Operation list list \<Rightarrow> kv_value Operation list list) \<Rightarrow> (kv_value, string) Model" where
  "KvModel shuffle =
     \<lparr>Partition = Some (KvPartition shuffle), PartitionEvent = None, Init = [], Step = KvStep,
      Equal = Some ShallowEqual\<rparr>"

section \<open>Collecting the results\<close>

datatype arrival = Arrive nat | Timeout

fun collect :: "(nat \<Rightarrow> bool option option) \<Rightarrow> nat \<Rightarrow> bool \<Rightarrow> nat \<Rightarrow> arrival list \<Rightarrow> bool option option" where
  "collect result n ok cnt [] = None"
| "collect result n ok cnt (Timeout # as) = Some (Some ok)"
| "collect result n ok cnt (Arrive i # as) =
     (case result i of
        None \<Rightarrow> None
      | Some None \<Rightarrow> Some None
      | Some (Some r) \<Rightarrow>
          (let ok' = (ok \<and> r)
           in if \<not> ok' then Some (Some ok')
              else if cnt + 1 \<ge> n then Some (Some ok')
              else collect result n ok' (cnt + 1) as))"

definition check_partition ::
  "('v, 's) Model \<Rightarrow> nat \<Rightarrow> 'v entry list \<Rightarrow> bool option option" where
  "check_partition model fuel entries =
     (case makeLinkedEntries entries of
        None \<Rightarrow> Some None
      | Some l \<Rightarrow> checkSingle (Step model) (the (Equal model)) (Init model) (\<lambda>k. 0) fuel l)"

definition CheckOperationsTimeout ::
  "('v entry list \<Rightarrow> 'v entry list) \<Rightarrow> ('v, 's) Model \<Rightarrow> nat \<Rightarrow> 'v Operation list \<Rightarrow> arrival list
     \<Rightarrow> bool option option" where
  "CheckOperationsTimeout sorter model0 fuel history arrivals =
     (let model = fillDefault model0
      in case the (Partition model) history of
           None \<Rightarrow> Some None
         | Some partitions \<Rightarrow>
             collect (\<lambda>i. check_partition model fuel (makeEntries sorter (partitions ! i)))
               (length partitions) True 0 arrivals)"

definition CheckEventsTimeout ::
  "('v, 's) Model \<Rightarrow> nat \<Rightarrow> 'v Event list \<Rightarrow> arrival list \<Rightarrow> bool option option" where
  "CheckEventsTimeout model0 fuel history arrivals =
     (let model = fillDefault model0
      in case the (PartitionEvent model) history of
           None \<Rightarrow> Some None
         | Some partitions \<Rightarrow>
             collect (\<lambda>i. check_partition model fuel (convertEntries (renumber (partitions ! i))))
               (length partitions) True 0 arrivals)"

text \<open>Without a timeout the arrivals are the results only.\<close>

definition CheckOperations ::
  "('v entry list \<Rightarrow> 'v entry list) \<Rightarrow> ('v, 's) Model \<Rightarrow> nat \<Rightarrow> 'v Operation list \<Rightarrow> nat list
     \<Rightarrow> bool option option" where
  "CheckOperations sorter model fuel history is =
     CheckOperationsTimeout sorter model fuel history (map Arrive is)"

definition CheckEvents :: "('v, 's) Model \<Rightarrow> nat \<Rightarrow> 'v Event list \<Rightarrow> nat list \<Rightarrow> bool option option" where
  "CheckEvents model fuel history is = CheckEventsTimeout model fuel history (map Arrive is)"

section \<open>Collecting is conjunction\<close>

lemma collect_all:
  assumes "\<forall>i \<in> set is. result i = Some (Some (P i))" and "is \<noteq> []" and "n = cnt + length is" and ok: "ok"
  shows "collect result n ok cnt (map Arrive is) = Some (Some (\<forall>i \<in> set is. P i))"
  using assms
proof (induction "is" arbitrary: cnt ok)
  case (Cons i js)
  show ?case
  proof (cases "P i \<and> js \<noteq> []")
    case True
    then have "\<not> n \<le> Suc cnt" using Cons.prems(3) by (cases js) auto
    with True Cons show ?thesis by simp
  next
    case False
    with Cons.prems show ?thesis by (auto simp: Let_def)
  qed
qed simp

lemma fillDefault_simps:
  "Init (fillDefault model) = Init model" "Step (fillDefault model) = Step model"
  "Partition (fillDefault model) = (case Partition model of None \<Rightarrow> Some (\<lambda>h. Some (NoPartition h)) | Some p \<Rightarrow> Some p)"
  "Equal (fillDefault model) = (case Equal model of None \<Rightarrow> Some ShallowEqual | Some e \<Rightarrow> Some e)"
  by (simp_all add: fillDefault_def Let_def split: option.splits)

lemma ShallowEqual_eq [simp]: "ShallowEqual = (=)"
  by (simp add: fun_eq_iff ShallowEqual_def)

definition typed_ops :: "('v, 's) model_step \<Rightarrow> 'v Operation list \<Rightarrow> bool" where
  "typed_ops step ops \<longleftrightarrow> (\<forall>p \<in> set ops. \<forall>s. step s (Input p) (Output p) \<noteq> None)"

context sort_routine
begin

lemma entries_well_typed:
  assumes "timed ops" and "typed_ops step ops"
  shows "well_typed step (length ops) (makeEntries sorter ops)"
  using assms entries_at [OF assms(1)]
  by (simp add: well_typed_def entry_io_def call_entry_def ret_entry_def typed_ops_def)

lemma check_partition_decides:
  assumes "timed ops" and "typed_ops (Step model) ops" and "Equal model = Some (=)"
  shows "\<exists>F. \<forall>fuel \<ge> F. check_partition model fuel (makeEntries sorter ops)
    = Some (Some (linearizable_ops (Step model) (Init model) ops))"
proof -
  obtain h where "makeLinkedEntries (makeEntries sorter ops) = Some (h, top_ptr h)" using built by blast
  from checkSingle_result(1) [OF entries_complete [OF assms(1)] entries_well_typed [OF assms(1,2)] this, of "\<lambda>k. 0"]
  show ?thesis
    unfolding linearizable_makeEntries [OF assms(1)] check_partition_def using assms(3) \<open>makeLinkedEntries _ = _\<close> by simp
qed

lemma CheckOperations_partitions:
  assumes "Equal model = None \<or> Equal model = Some (=)"
    and "the (Partition (fillDefault model)) history = Some parts" and "parts \<noteq> []"
    and "\<forall>ops \<in> set parts. timed ops \<and> typed_ops (Step model) ops"
    and "mset is = mset [0..<length parts]"
  shows "\<exists>F. \<forall>fuel \<ge> F. CheckOperations sorter model fuel history is
    = Some (Some (\<forall>ops \<in> set parts. linearizable_ops (Step model) (Init model) ops))"
proof -
  let ?m = "fillDefault model"
  have eq: "Equal ?m = Some (=)" using assms(1) by (auto simp: fillDefault_simps)
  have "\<forall>i \<in> {..<length parts}. \<exists>F. \<forall>fuel \<ge> F. check_partition ?m fuel (makeEntries sorter (parts ! i))
      = Some (Some (linearizable_ops (Step model) (Init model) (parts ! i)))"
    using check_partition_decides [OF _ _ eq] assms(4) by (simp add: fillDefault_simps)
  then obtain G where G: "\<forall>i \<in> {..<length parts}. \<forall>fuel \<ge> G i. check_partition ?m fuel (makeEntries sorter (parts ! i))
      = Some (Some (linearizable_ops (Step model) (Init model) (parts ! i)))"
    using bchoice [of "{..<length parts}"] by metis
  have is_set: "set is = {..<length parts}"
    using mset_eq_setD [OF assms(5)] by (simp add: lessThan_atLeast0)
  have len: "length is = length parts" using mset_eq_length [OF assms(5)] by simp
  have "CheckOperations sorter model fuel history is
      = Some (Some (\<forall>ops \<in> set parts. linearizable_ops (Step model) (Init model) ops))"
    if "fuel \<ge> Max (G ` {..<length parts})" for fuel
  proof -
    have "G i \<le> fuel" if "i < length parts" for i
      using that \<open>fuel \<ge> _\<close> by (meson Max_ge finite_imageI finite_lessThan imageI lessThan_iff le_trans)
    moreover have "is \<noteq> []" using len assms(3) by auto
    ultimately have "\<forall>i \<in> set is. check_partition ?m fuel (makeEntries sorter (parts ! i))
        = Some (Some (linearizable_ops (Step model) (Init model) (parts ! i)))"
      using G by (simp add: is_set)
    from collect_all [OF this \<open>is \<noteq> []\<close>, of "length parts" 0 True] len have
      "collect (\<lambda>i. check_partition ?m fuel (makeEntries sorter (parts ! i))) (length parts) True 0 (map Arrive is)
        = Some (Some (\<forall>i \<in> set is. linearizable_ops (Step model) (Init model) (parts ! i)))" by auto
    moreover have "(\<forall>i \<in> set is. linearizable_ops (Step model) (Init model) (parts ! i))
        \<longleftrightarrow> (\<forall>ops \<in> set parts. linearizable_ops (Step model) (Init model) ops)"
      by (metis (no_types, lifting) in_set_conv_nth is_set lessThan_iff)
    ultimately show ?thesis
      using assms(2) by (simp add: CheckOperations_def CheckOperationsTimeout_def Let_def)
  qed
  then show ?thesis by blast
qed

end

section \<open>Locality of the key/value model\<close>

text \<open>
  The service as a whole: a store of all keys, with the operations of the model on one key each. A
  history of the whole service is linearizable exactly when the part of it on every key is.
\<close>

definition kv_typed :: "kv_value Operation \<Rightarrow> bool" where
  "kv_typed p \<longleftrightarrow> (\<exists>inp out. Input p = KvIn inp \<and> Output p = KvOut out)"

definition op_key :: "kv_value Operation \<Rightarrow> string" where
  "op_key p = the (kv_key (Input p))"

definition StoreStep :: "(kv_value, string \<Rightarrow> string) model_step" where
  "StoreStep \<sigma> v w =
     do { key \<leftarrow> kv_key v; (ok, st) \<leftarrow> KvStep (\<sigma> key) v w; Some (ok, \<sigma>(key := st)) }"

definition on_key :: "string \<Rightarrow> kv_value Operation list \<Rightarrow> kv_value Operation list" where
  "on_key k ops = filter (\<lambda>p. op_key p = k) ops"

lemma kv_typed_step: "kv_typed p \<Longrightarrow> KvStep s (Input p) (Output p) \<noteq> None"
  by (auto simp: kv_typed_def)

lemma store_accepts:
  assumes "\<forall>p \<in> set ops. kv_typed p"
  shows "accepts_run StoreStep \<sigma> (map op_io ops) \<longleftrightarrow> (\<forall>k. accepts_run KvStep (\<sigma> k) (map op_io (on_key k ops)))"
  using assms
proof (induction ops arbitrary: \<sigma>)
  case (Cons p ops)
  obtain inp out where p: "Input p = KvIn inp" "Output p = KvOut out" using Cons.prems by (auto simp: kv_typed_def)
  obtain ok st where step: "KvStep (\<sigma> (KvKey inp)) (KvIn inp) (KvOut out) = Some (ok, st)"
    by (cases "KvStep (\<sigma> (KvKey inp)) (KvIn inp) (KvOut out)") auto
  have key: "op_key p = KvKey inp" using p by (simp add: op_key_def)
  have "(\<forall>k. accepts_run KvStep (\<sigma> k) (map op_io (on_key k (p # ops))))
      \<longleftrightarrow> ok \<and> (\<forall>k. accepts_run KvStep ((\<sigma>(KvKey inp := st)) k) (map op_io (on_key k ops)))"
    using step p key by (auto simp: on_key_def op_io_def simp del: KvStep.simps)
  moreover have "accepts_run StoreStep \<sigma> (map op_io (p # ops))
      \<longleftrightarrow> ok \<and> accepts_run StoreStep (\<sigma>(KvKey inp := st)) (map op_io ops)"
    using step p by (simp add: op_io_def [of p] StoreStep_def del: KvStep.simps)
  ultimately show ?case using Cons.IH [of "\<sigma>(KvKey inp := st)"] Cons.prems by simp
qed (simp add: on_key_def)

text \<open>
  Linearization points: along an order that respects real time, the running maximum of the call
  times is between call and return of each operation.
\<close>

fun points :: "int \<Rightarrow> 'v Operation list \<Rightarrow> (int \<times> 'v Operation) list" where
  "points t [] = []"
| "points t (p # ps) = (max t (Call p), p) # points (max t (Call p)) ps"

lemma map_snd_points [simp]: "map snd (points t ps) = ps"
  by (induction ps arbitrary: t) auto

lemma points_sorted: "sorted (map fst (points t ps)) \<and> (\<forall>x \<in> set (points t ps). t \<le> fst x)"
  by (induction ps arbitrary: t) fastforce+

lemma points_within:
  assumes "sorted_wrt (\<lambda>p q. \<not> Return q < Call p) ps" and "\<forall>p \<in> set ps. Call p \<le> Return p \<and> t \<le> Return p"
  shows "\<forall>x \<in> set (points t ps). Call (snd x) \<le> fst x \<and> fst x \<le> Return (snd x)"
  using assms
proof (induction ps arbitrary: t)
  case (Cons p ps)
  then have "\<forall>q \<in> set ps. Call q \<le> Return q \<and> max t (Call p) \<le> Return q" by auto
  with Cons.IH [of "max t (Call p)"] Cons.prems show ?case by auto
qed simp

definition merge_points :: "(int \<times> 'v Operation) list \<Rightarrow> 'v Operation list" where
  "merge_points xs = map snd (sort_key fst xs)"

lemma merge_respects:
  assumes "\<forall>x \<in> set xs. Call (snd x) \<le> fst x \<and> fst x \<le> Return (snd x)"
  shows "sorted_wrt (\<lambda>p q. \<not> Return q < Call p) (merge_points xs)"
proof -
  have "sorted (map fst (sort_key fst xs))" by simp
  then have ord: "sorted_wrt (\<lambda>x y. fst x \<le> fst y) (sort_key fst xs)" unfolding sorted_map .
  have "\<not> Return (snd y) < Call (snd x)" if "x \<in> set xs" "y \<in> set xs" "fst x \<le> fst y" for x y
    using bspec [OF assms that(1)] bspec [OF assms that(2)] that(3) by linarith
  then show ?thesis
    unfolding merge_points_def sorted_wrt_map by (intro sorted_wrt_mono_rel [OF _ ord]) auto
qed

lemma merge_filter:
  assumes "sorted (map fst (filter (\<lambda>x. P (snd x)) xs))"
  shows "filter P (merge_points xs) = map snd (filter (\<lambda>x. P (snd x)) xs)"
proof -
  have "filter P (merge_points xs) = map snd (sort_key fst (filter (\<lambda>x. P (snd x)) xs))"
    by (simp add: merge_points_def filter_map comp_def filter_sort)
  also have "sort_key fst (filter (\<lambda>x. P (snd x)) xs) = filter (\<lambda>x. P (snd x)) xs"
    using assms by (rule sort_key_id_if_sorted)
  finally show ?thesis .
qed

lemma on_key_append [simp]: "on_key k (xs @ ys) = on_key k xs @ on_key k ys"
  by (simp add: on_key_def)

lemma on_key_concat:
  assumes "distinct ks" and "\<And>k' x. x \<in> set (f k') \<Longrightarrow> op_key (snd x) = k'"
  shows "filter (\<lambda>x. op_key (snd x) = k) (concat (map f ks)) = (if k \<in> set ks then f k else [])"
proof -
  have "filter (\<lambda>x. op_key (snd x) = k) (f k') = (if k' = k then f k' else [])" for k'
    using assms(2) [of _ k'] by (auto simp: filter_id_conv filter_empty_conv)
  with assms(1) show ?thesis by (induction ks) auto
qed

lemma mset_by_key:
  "distinct ks \<Longrightarrow> mset (concat (map (\<lambda>k. on_key k ops) ks)) = mset (filter (\<lambda>p. op_key p \<in> set ks) ops)"
proof (induction ks)
  case (Cons k ks)
  have "mset (filter (\<lambda>p. op_key p \<in> set (k # ks)) ops)
      = mset (on_key k ops) + mset (filter (\<lambda>p. op_key p \<in> set ks) ops)"
    using Cons.prems by (induction ops) (auto simp: on_key_def)
  with Cons show ?case by simp
qed simp

lemma mset_concat_cong: "(\<And>k. mset (f k) = mset (g k)) \<Longrightarrow> mset (concat (map f ks)) = mset (concat (map g ks))"
  by (induction ks) simp_all

lemma kv_locality:
  assumes typed: "\<forall>p \<in> set ops. kv_typed p" and times: "\<forall>p \<in> set ops. Call p \<le> Return p"
  shows "linearizable_ops StoreStep (\<lambda>k. []) ops \<longleftrightarrow> (\<forall>k. linearizable_ops KvStep [] (on_key k ops))"
proof
  assume "linearizable_ops StoreStep (\<lambda>k. []) ops"
  then obtain order where o: "mset order = mset ops" "accepts_run StoreStep (\<lambda>k. []) (map op_io order)"
    "sorted_wrt (\<lambda>p q. \<not> Return q < Call p) order"
    unfolding linearizable_ops_def by blast
  have "\<forall>p \<in> set order. kv_typed p" using typed mset_eq_setD [OF o(1)] by simp
  with o(2) have "accepts_run KvStep [] (map op_io (on_key k order))" for k by (simp add: store_accepts)
  moreover have "mset (on_key k order) = mset (on_key k ops)" for k using o(1) by (simp add: on_key_def)
  moreover have "sorted_wrt (\<lambda>p q. \<not> Return q < Call p) (on_key k order)" for k
    using o(3) by (simp add: on_key_def sorted_wrt_filter)
  ultimately show "\<forall>k. linearizable_ops KvStep [] (on_key k ops)" unfolding linearizable_ops_def by blast
next
  assume "\<forall>k. linearizable_ops KvStep [] (on_key k ops)"
  then obtain f where f: "mset (f k) = mset (on_key k ops)" "accepts_run KvStep [] (map op_io (f k))"
    "sorted_wrt (\<lambda>p q. \<not> Return q < Call p) (f k)" for k
    unfolding linearizable_ops_def by metis
  define t where "t = Min (insert 0 (Return ` set ops))"
  define ks where "ks = remdups (map op_key ops)"
  define xs where "xs = concat (map (\<lambda>k. points t (f k)) ks)"
  have set_f: "set (f k) = set (on_key k ops)" for k using mset_eq_setD [OF f(1)] .
  have t: "t \<le> Return p" if "p \<in> set ops" for p using that by (simp add: t_def)
  have snd_points: "snd x \<in> set (f k)" if "x \<in> set (points t (f k))" for x k
    using that by (metis image_eqI list.set_map map_snd_points)
  have "mset (merge_points xs) = mset (map snd xs)" by (simp add: merge_points_def)
  also have "map snd xs = concat (map f ks)" by (simp add: xs_def map_concat comp_def)
  also have "mset \<dots> = mset (concat (map (\<lambda>k. on_key k ops) ks))" using f(1) by (rule mset_concat_cong)
  also have "\<dots> = mset ops"
    using mset_by_key [of ks ops] by (simp add: ks_def filter_True)
  finally have perm: "mset (merge_points xs) = mset ops" .
  have "\<forall>x \<in> set (points t (f k)). Call (snd x) \<le> fst x \<and> fst x \<le> Return (snd x)" for k
    using times t set_f [of k] by (intro points_within f(3)) (auto simp: on_key_def)
  then have "sorted_wrt (\<lambda>p q. \<not> Return q < Call p) (merge_points xs)"
    by (intro merge_respects) (auto simp: xs_def)
  moreover have "on_key k (merge_points xs) = f k" for k
  proof -
    have "filter (\<lambda>x. op_key (snd x) = k) xs = (if k \<in> set ks then points t (f k) else [])"
      unfolding xs_def using snd_points set_f by (intro on_key_concat) (auto simp: ks_def on_key_def)
    moreover have "f k = []" if "k \<notin> set ks"
    proof -
      have "set (f k) = {}" using that set_f [of k] by (auto simp: ks_def on_key_def)
      then show ?thesis by simp
    qed
    ultimately show ?thesis
      using merge_filter [of "\<lambda>p. op_key p = k" xs] points_sorted [of t "f k"] by (auto simp: on_key_def)
  qed
  then have "accepts_run StoreStep (\<lambda>k. []) (map op_io (merge_points xs))"
    using f(2) typed mset_eq_setD [OF perm] by (simp add: store_accepts)
  ultimately show "linearizable_ops StoreStep (\<lambda>k. []) ops"
    using perm unfolding linearizable_ops_def by blast
qed

subsection \<open>The partition by key\<close>

definition groups_ok :: "(string \<times> kv_value Operation list) list \<Rightarrow> kv_value Operation list \<Rightarrow> bool" where
  "groups_ok m ps \<longleftrightarrow> distinct (map fst m)
     \<and> map_of m = (\<lambda>k. if k \<in> op_key ` set ps then Some (on_key k ps) else None)"

lemma map_of_add_group:
  "map_of (add_group k v m) = (map_of m)(k \<mapsto> (case map_of m k of Some vs \<Rightarrow> vs @ [v] | None \<Rightarrow> [v]))"
  by (induction m) (auto simp: fun_eq_iff)

lemma keys_add_group: "set (map fst (add_group k v m)) = insert k (set (map fst m))"
proof (induction m)
  case (Cons x m)
  then show ?case by (cases x) (simp, blast)
qed simp

lemma distinct_add_group: "distinct (map fst m) \<Longrightarrow> distinct (map fst (add_group k v m))"
proof (induction m)
  case (Cons x m)
  with keys_add_group [of k v m] show ?case by (cases x) auto
qed simp

lemma groups_ok_add:
  assumes "groups_ok m ps"
  shows "groups_ok (add_group (op_key p) p m) (ps @ [p])"
proof -
  have "on_key (op_key p) ps = []" if "op_key p \<notin> op_key ` set ps"
    unfolding on_key_def using that by (intro filter_False ballI notI) (metis imageI)
  with assms show ?thesis
    by (auto simp: groups_ok_def distinct_add_group map_of_add_group fun_eq_iff) (auto simp: on_key_def)
qed

lemma kv_groups_ok:
  "\<forall>p \<in> set ops. kv_typed p \<Longrightarrow> groups_ok m ps \<Longrightarrow> \<exists>m'. kv_groups ops m = Some m' \<and> groups_ok m' (ps @ ops)"
proof (induction ops arbitrary: m ps)
  case (Cons p ops)
  then have "kv_key (Input p) = Some (op_key p)" by (auto simp: kv_typed_def op_key_def)
  with Cons.IH [of "add_group (op_key p) p m" "ps @ [p]"] Cons.prems groups_ok_add show ?case by simp
qed simp

lemma KvPartition_groups:
  assumes "\<forall>p \<in> set ops. kv_typed p" and "\<forall>xs. mset (shuffle xs) = mset xs"
  shows "\<exists>parts. KvPartition shuffle ops = Some parts \<and> length parts = card (op_key ` set ops)
    \<and> set parts = (\<lambda>k. on_key k ops) ` op_key ` set ops"
proof -
  obtain m where m: "kv_groups ops [] = Some m" "groups_ok m ops"
    using kv_groups_ok [OF assms(1), of "[]" "[]"] by (auto simp: groups_ok_def)
  have mo: "map_of m k = (if k \<in> op_key ` set ops then Some (on_key k ops) else None)" and d: "distinct (map fst m)" for k
    using m(2) by (simp_all add: groups_ok_def)
  have pairs: "(k, vs) \<in> set m \<longleftrightarrow> k \<in> op_key ` set ops \<and> vs = on_key k ops" for k vs
    unfolding map_of_eq_Some_iff [OF d, symmetric] mo by auto
  then have "set m = (\<lambda>k. (k, on_key k ops)) ` op_key ` set ops" by (auto simp: image_iff)
  then have dom: "fst ` set m = op_key ` set ops" and "snd ` set m = (\<lambda>k. on_key k ops) ` op_key ` set ops"
    by (simp_all add: image_image)
  moreover have "length m = card (fst ` set m)"
    using distinct_card [OF d] by simp
  moreover have "set (shuffle (map snd m)) = snd ` set m" "length (shuffle (map snd m)) = length m"
    using assms(2) mset_eq_setD [of "shuffle (map snd m)" "map snd m"] mset_eq_length [of "shuffle (map snd m)" "map snd m"]
    by auto
  moreover have "KvPartition shuffle ops = Some (shuffle (map snd m))" using m(1) by (simp add: KvPartition_def)
  ultimately show ?thesis using dom by (metis (no_types, lifting))
qed

section \<open>Events\<close>

text \<open>A complete event history: every number that occurs has a call and, later, a return, and no other event.\<close>

definition complete_events :: "'v Event list \<Rightarrow> bool" where
  "complete_events evs \<longleftrightarrow>
     (\<forall>x \<in> EvId ` set evs. \<exists>c r. c < r \<and> r < length evs \<and> {i. i < length evs \<and> EvId (evs ! i) = x} = {c, r}
        \<and> Kind (evs ! c) = CallEvent \<and> Kind (evs ! r) = ReturnEvent)"

text \<open>The numbering that \<open>renumber\<close> builds: the known numbers are mapped one to one onto \<open>0, \<dots>, n - 1\<close>.\<close>

definition numbering :: "(nat \<rightharpoonup> nat) \<Rightarrow> nat \<Rightarrow> bool" where
  "numbering m n \<longleftrightarrow> (\<forall>a b r. m a = Some r \<and> m b = Some r \<longrightarrow> a = b) \<and> (\<forall>r. (\<exists>a. m a = Some r) \<longleftrightarrow> r < n)"

lemma numbering_add:
  assumes "numbering m n" and "m x = None"
  shows "numbering (m(x \<mapsto> n)) (Suc n)"
proof -
  have low: "m a = Some r \<Longrightarrow> r < n" for a r using assms(1) by (auto simp: numbering_def)
  have "(\<exists>a. (m(x \<mapsto> n)) a = Some r) \<longleftrightarrow> r < Suc n" for r
  proof (cases "r = n")
    case False
    have "(\<exists>a. (m(x \<mapsto> n)) a = Some r) \<longleftrightarrow> (\<exists>a. m a = Some r)" 
      using assms(2) False by (metis fun_upd_apply option.inject option.distinct(1))
    with assms(1) False show ?thesis by (auto simp: numbering_def)
  qed auto
  moreover have "a = b" if "(m(x \<mapsto> n)) a = Some r" "(m(x \<mapsto> n)) b = Some r" for a b r
    using that low [of a n] low [of b n] assms(1) by (auto simp: numbering_def split: if_splits)
  ultimately show ?thesis unfolding numbering_def by blast
qed

lemma renumber_loop_spec:
  assumes "numbering m n"
  shows "\<exists>m'. m \<subseteq>\<^sub>m m' \<and> dom m' = dom m \<union> EvId ` set evs \<and> (\<exists>n'. numbering m' n')
    \<and> renumber_loop m n evs = map (\<lambda>v. \<lparr>Kind = Kind v, EvValue = EvValue v, EvId = the (m' (EvId v))\<rparr>) evs"
  using assms
proof (induction evs arbitrary: m n)
  case Nil
  then show ?case by (intro exI [of _ m]) auto
next
  case (Cons v evs)
  show ?case
  proof (cases "m (EvId v)")
    case None
    have le: "m \<subseteq>\<^sub>m m(EvId v \<mapsto> n)" using None by (auto simp: map_le_def)
    from Cons.IH [OF numbering_add [OF Cons.prems None]] obtain m' where m': "m(EvId v \<mapsto> n) \<subseteq>\<^sub>m m'"
      "dom m' = dom (m(EvId v \<mapsto> n)) \<union> EvId ` set evs" "\<exists>n'. numbering m' n'"
      "renumber_loop (m(EvId v \<mapsto> n)) (Suc n) evs
        = map (\<lambda>v. \<lparr>Kind = Kind v, EvValue = EvValue v, EvId = the (m' (EvId v))\<rparr>) evs"
      by (auto simp del: fun_upd_apply dom_fun_upd)
    have "m' (EvId v) = Some n" using m'(1) by (auto simp: map_le_def)
    with m' None map_le_trans [OF le m'(1)] show ?thesis by (intro exI [of _ m']) auto
  next
    case (Some r)
    from Cons.IH [OF Cons.prems] obtain m' where m': "m \<subseteq>\<^sub>m m'" "dom m' = dom m \<union> EvId ` set evs"
      "\<exists>n'. numbering m' n'"
      "renumber_loop m n evs = map (\<lambda>v. \<lparr>Kind = Kind v, EvValue = EvValue v, EvId = the (m' (EvId v))\<rparr>) evs" by blast
    have "m' (EvId v) = Some r" using m'(1) Some by (metis domI map_le_def)
    with m' Some show ?thesis by (intro exI [of _ m']) auto
  qed
qed

lemma numbering_card:
  assumes "numbering m n" and "finite (dom m)"
  shows "card (dom m) = n"
proof -
  have "bij_betw (\<lambda>a. the (m a)) (dom m) {..<n}"
  proof (rule bij_betw_imageI)
    show "inj_on (\<lambda>a. the (m a)) (dom m)" using assms(1) by (auto simp: inj_on_def numbering_def)
    show "(\<lambda>a. the (m a)) ` dom m = {..<n}"
    proof (rule set_eqI)
      fix r
      have "r \<in> (\<lambda>a. the (m a)) ` dom m \<longleftrightarrow> (\<exists>a. m a = Some r)" by (force simp: image_iff dom_def)
      with assms(1) show "r \<in> (\<lambda>a. the (m a)) ` dom m \<longleftrightarrow> r \<in> {..<n}" by (simp add: numbering_def)
    qed
  qed
  then show ?thesis using bij_betw_same_card by fastforce
qed

lemma complete_events_length:
  assumes "complete_events evs"
  shows "length evs = 2 * card (EvId ` set evs)"
proof -
  let ?pos = "\<lambda>x. {i. i < length evs \<and> EvId (evs ! i) = x}"
  have "{..<length evs} = (\<Union>x \<in> EvId ` set evs. ?pos x)"
    using nth_mem by fastforce
  moreover have "card (\<Union>x \<in> EvId ` set evs. ?pos x) = (\<Sum>x \<in> EvId ` set evs. card (?pos x))"
    by (intro card_UN_disjoint) auto
  moreover have "card (?pos x) = 2" if x: "x \<in> EvId ` set evs" for x
  proof -
    obtain c r where "c < r" "?pos x = {c, r}" using bspec [OF assms [unfolded complete_events_def] x] by blast
    then show ?thesis by simp
  qed
  ultimately show ?thesis by (metis (no_types, lifting) card_lessThan mult.commute sum.cong sum_constant of_nat_id)
qed

lemma renumber_complete:
  assumes "complete_events evs"
  shows "complete_history (card (EvId ` set evs)) (convertEntries (renumber evs))"
proof -
  let ?E = "convertEntries (renumber evs)" and ?n = "card (EvId ` set evs)"
  have "numbering Map.empty 0" by (simp add: numbering_def)
  then obtain m n where m: "dom m = EvId ` set evs" "numbering m n"
    "renumber evs = map (\<lambda>v. \<lparr>Kind = Kind v, EvValue = EvValue v, EvId = the (m (EvId v))\<rparr>) evs"
    using renumber_loop_spec [of Map.empty 0 evs] by (auto simp: renumber_def)
  have n: "n = ?n" using numbering_card [OF m(2)] m(1) by simp
  have E: "length ?E = length evs" "eid (?E ! i) = the (m (EvId (evs ! i)))"
    "ekind (?E ! i) = (if Kind (evs ! i) = ReturnEvent then returnEntry else callEntry)" if "i < length evs" for i
    using that m(3) by (simp_all add: convertEntries_def)
  have dom: "\<exists>r. m (EvId (evs ! i)) = Some r" if "i < length evs" for i
    using that m(1) by (metis domD image_eqI nth_mem)
  have len: "length ?E = 2 * ?n"
    using complete_events_length [OF assms] m(3) by (simp add: convertEntries_def)
  have "eid (?E ! i) < ?n" if "i < length evs" for i
    using E(2) [OF that] dom [OF that] m(2) n by (auto simp: numbering_def)
  moreover have "\<exists>c r. c < r \<and> r < length evs \<and> {i. i < length evs \<and> eid (?E ! i) = y} = {c, r}
      \<and> ekind (?E ! c) = callEntry \<and> ekind (?E ! r) = returnEntry" if y: "y < ?n" for y
  proof -
    obtain x where x: "m x = Some y" using y m(2) n unfolding numbering_def by metis
    then have "x \<in> EvId ` set evs" using m(1) by blast
    from bspec [OF assms [unfolded complete_events_def] this] obtain c r where cr: "c < r" "r < length evs" "{i. i < length evs \<and> EvId (evs ! i) = x} = {c, r}"
      "Kind (evs ! c) = CallEvent" "Kind (evs ! r) = ReturnEvent"
      by blast
    have "eid (?E ! i) = y \<longleftrightarrow> EvId (evs ! i) = x" if "i < length evs" for i
      using E(2) [OF that] dom [OF that] x m(2) unfolding numbering_def by auto
    then have "{i. i < length evs \<and> eid (?E ! i) = y} = {i. i < length evs \<and> EvId (evs ! i) = x}"
      by blast
    moreover have "ekind (?E ! c) = callEntry" "ekind (?E ! r) = returnEntry"
      using cr E(3) [of c] E(3) [of r] by simp_all
    ultimately show ?thesis using cr(1-3) by (intro exI [of _ c] exI [of _ r]) simp
  qed
  moreover have "length ?E = length evs" using m(3) by (simp add: convertEntries_def)
  ultimately show ?thesis using len by (simp add: complete_history_def)
qed

section \<open>Properties\<close>

text \<open>
  C2. \<open>checkSingle\<close> decides linearizability: for every complete history whose values the model accepts
  without a panic, building the linked list does not panic, and with enough turns, and then with any
  larger number, the search on it returns true exactly when the history is linearizable.
\<close>

theorem checkSingle_decides_linearizability:
  assumes "complete_history n E" and "well_typed step n E"
  shows "\<exists>l. makeLinkedEntries E = Some l \<and> (\<exists>F. \<forall>fuel \<ge> F.
    checkSingle step ShallowEqual init (\<lambda>k. 0) fuel l = Some (Some (linearizable_entries step init n E)))"
proof -
  obtain h where h: "makeLinkedEntries E = Some (h, top_ptr h)" using built by blast
  from checkSingle_result(1) [OF assms h, of "\<lambda>k. 0" init] h show ?thesis by simp
qed

text \<open>A get that overlaps a put and returns its value, and a get of another key.\<close>

definition ex_put :: "kv_value Operation" where
  "ex_put = \<lparr>Input = KvIn \<lparr>KvOp = 1, KvKey = ''k'', KvValue = ''v''\<rparr>, Call = 0, Output = KvOut \<lparr>KvOutValue = []\<rparr>, Return = 3\<rparr>"

definition ex_get :: "kv_value Operation" where
  "ex_get = \<lparr>Input = KvIn \<lparr>KvOp = 0, KvKey = ''k'', KvValue = []\<rparr>, Call = 1, Output = KvOut \<lparr>KvOutValue = ''v''\<rparr>, Return = 2\<rparr>"

definition ex_other :: "kv_value Operation" where
  "ex_other = \<lparr>Input = KvIn \<lparr>KvOp = 0, KvKey = ''x'', KvValue = []\<rparr>, Call = 4, Output = KvOut \<lparr>KvOutValue = []\<rparr>, Return = 5\<rparr>"

lemmas ex_history_defs = ex_put_def ex_get_def ex_other_def

lemma ex_typed: "kv_typed ex_put" "kv_typed ex_get" "kv_typed ex_other"
  by (simp_all add: kv_typed_def ex_history_defs)

lemma ex_history:
  "timed [ex_put, ex_get]" "typed_ops KvStep [ex_put, ex_get]"
  "timed [ex_put, ex_other, ex_get]" "\<forall>p \<in> set [ex_put, ex_other, ex_get]. kv_typed p"
proof -
  show "timed [ex_put, ex_get]" "timed [ex_put, ex_other, ex_get]" by (simp_all add: timed_def ex_history_defs)
  show "typed_ops KvStep [ex_put, ex_get]" using ex_typed kv_typed_step by (auto simp: typed_ops_def)
  show "\<forall>p \<in> set [ex_put, ex_other, ex_get]. kv_typed p" using ex_typed by simp
qed

theorem checkSingle_decides_linearizability_witness:
  "\<exists>l. makeLinkedEntries (makeEntries (sort_key etime) [ex_put, ex_get]) = Some l \<and> (\<exists>F. \<forall>fuel \<ge> F.
    checkSingle KvStep ShallowEqual [] (\<lambda>k. 0) fuel l
      = Some (Some (linearizable_entries KvStep [] 2 (makeEntries (sort_key etime) [ex_put, ex_get]))))"
  using checkSingle_decides_linearizability [of 2 "makeEntries (sort_key etime) [ex_put, ex_get]" KvStep "[]"]
    key_sort.entries_complete [OF ex_history(1)] key_sort.entries_well_typed [OF ex_history(1,2)]
  by (simp add: numeral_2_eq_2)

text \<open>
  Whatever the goroutine loads from the flag that stops it, \<open>checkSingle\<close> never panics on a
  complete history, and it never returns true for a history that is not linearizable.
\<close>

theorem checkSingle_killed_is_sound:
  assumes "complete_history n E" and "well_typed step n E" and "makeLinkedEntries E = Some l"
    and "checkSingle step ShallowEqual init kill fuel l = Some res"
  shows "res \<noteq> None \<and> (res = Some True \<longrightarrow> linearizable_entries step init n E)"
  using checkSingle_result(2) [OF assms(1-3), of init kill fuel res] assms(4) by simp

theorem checkSingle_killed_is_sound_witness:
  "\<exists>l fuel res. makeLinkedEntries (makeEntries (sort_key etime) [ex_put, ex_get]) = Some l
    \<and> checkSingle KvStep ShallowEqual [] (\<lambda>k. 0) fuel l = Some res \<and> res \<noteq> None"
proof -
  let ?E = "makeEntries (sort_key etime) [ex_put, ex_get]"
  have E: "complete_history 2 ?E" "well_typed KvStep 2 ?E"
    using key_sort.entries_complete [OF ex_history(1)] key_sort.entries_well_typed [OF ex_history(1,2)]
    by (simp_all add: numeral_2_eq_2)
  obtain h where h: "makeLinkedEntries ?E = Some (h, top_ptr h)" using built by blast
  from checkSingle_result(1) [OF E h, of "\<lambda>k. 0" "[]"] obtain fuel res where
    r: "checkSingle KvStep ShallowEqual [] (\<lambda>k. 0) fuel (h, top_ptr h) = Some res" by auto
  from checkSingle_killed_is_sound [OF E h r] h r show ?thesis by blast
qed

text \<open>The partition by key, the searches and locality together.\<close>

lemma CheckOperations_kv_result:
  assumes "sort_routine sorter" and "\<forall>xs. mset (shuffle xs) = mset xs"
    and "history \<noteq> []" and "\<forall>p \<in> set history. kv_typed p" and "timed history"
    and "mset is = mset [0..<card (op_key ` set history)]"
  shows "\<exists>F. \<forall>fuel \<ge> F. CheckOperations sorter (KvModel shuffle) fuel history is
    = Some (Some (linearizable_ops StoreStep (\<lambda>k. []) history))"
proof -
  obtain parts where parts: "KvPartition shuffle history = Some parts" "length parts = card (op_key ` set history)"
    "set parts = (\<lambda>k. on_key k history) ` op_key ` set history"
    using KvPartition_groups [OF assms(4,2)] by blast
  have part_ok: "timed (on_key k history) \<and> typed_ops KvStep (on_key k history)" for k
    using assms(4,5) kv_typed_step by (auto simp: timed_def typed_ops_def on_key_def)
  have "\<exists>F. \<forall>fuel \<ge> F. CheckOperations sorter (KvModel shuffle) fuel history is
      = Some (Some (\<forall>ops \<in> set parts. linearizable_ops KvStep [] ops))"
    using sort_routine.CheckOperations_partitions [OF assms(1), of "KvModel shuffle" history parts "is"]
      parts part_ok assms(3,6) by (force simp: KvModel_def fillDefault_simps)
  moreover have "(\<forall>ops \<in> set parts. linearizable_ops KvStep [] ops)
      \<longleftrightarrow> (\<forall>k. linearizable_ops KvStep [] (on_key k history))"
  proof -
    have "linearizable_ops KvStep [] (on_key k history)" if "k \<notin> op_key ` set history" for k
    proof -
      have "on_key k history = []"
        unfolding on_key_def using that by (intro filter_False ballI notI) (metis imageI)
      then show ?thesis by (simp add: linearizable_ops_def)
    qed
    then show ?thesis unfolding parts(3) by blast
  qed
  moreover have "(\<forall>k. linearizable_ops KvStep [] (on_key k history)) \<longleftrightarrow> linearizable_ops StoreStep (\<lambda>k. []) history"
    using kv_locality [OF assms(4)] assms(5) by (force simp: timed_def)
  ultimately show ?thesis by simp
qed

text \<open>
  C3. \<open>CheckOperations\<close> with the key/value model decides linearizability of the whole service: for a
  non-empty history in which every operation is called before it returns and no call and return are
  simultaneous, whatever sorting routine, order of the keys and order of arrival of the results, with
  enough turns the answer is true exactly when the history of all keys together is linearizable as a
  history of one store.
\<close>

theorem CheckOperations_decides_kv_linearizability:
  assumes "sort_routine sorter" and "\<forall>xs. mset (shuffle xs) = mset xs"
    and "history \<noteq> []" and "\<forall>p \<in> set history. kv_typed p" and "timed history"
    and "mset is = mset [0..<card (op_key ` set history)]"
  shows "\<exists>F. \<forall>fuel \<ge> F. CheckOperations sorter (KvModel shuffle) fuel history is
    = Some (Some (linearizable_ops StoreStep (\<lambda>k. []) history))"
  using assms by (rule CheckOperations_kv_result)

theorem CheckOperations_decides_kv_linearizability_witness:
  "\<exists>F. \<forall>fuel \<ge> F. CheckOperations (sort_key etime) (KvModel rev) fuel [ex_put, ex_other, ex_get] [1, 0]
    = Some (Some (linearizable_ops StoreStep (\<lambda>k. []) [ex_put, ex_other, ex_get]))"
proof -
  have "op_key ` set [ex_put, ex_other, ex_get] = {''k'', ''x''}"
    by (auto simp: op_key_def ex_history_defs)
  then have "mset [1, 0] = mset [0..<card (op_key ` set [ex_put, ex_other, ex_get])]"
    by (simp add: numeral_2_eq_2)
  with CheckOperations_decides_kv_linearizability
    [OF key_sort.sort_routine_axioms _ _ ex_history(4,3), of rev "[1, 0]"] show ?thesis by simp
qed

text \<open>
  \<open>CheckEvents\<close> on a complete event history decides linearizability of the renumbered history:
  renumbering keeps the events complete, whatever numbers the client used.
\<close>

theorem CheckEvents_decides_linearizability:
  assumes "complete_events evs" and "Equal model = None" and "PartitionEvent model = None"
    and "well_typed (Step model) (card (EvId ` set evs)) (convertEntries (renumber evs))"
  shows "\<exists>F. \<forall>fuel \<ge> F. CheckEvents model fuel evs [0] = Some (Some
    (linearizable_entries (Step model) (Init model) (card (EvId ` set evs)) (convertEntries (renumber evs))))"
proof -
  let ?E = "convertEntries (renumber evs)"
  obtain h where h: "makeLinkedEntries ?E = Some (h, top_ptr h)" using built by blast
  from checkSingle_result(1) [OF renumber_complete [OF assms(1)] assms(4) h, of "\<lambda>k. 0" "Init model"]
  obtain F where "\<forall>fuel \<ge> F. checkSingle (Step model) (=) (Init model) (\<lambda>k. 0) fuel (h, top_ptr h)
      = Some (Some (linearizable_entries (Step model) (Init model) (card (EvId ` set evs)) ?E))" by auto
  with h assms(2,3) show ?thesis
    by (intro exI [of _ F]) (simp add: CheckEvents_def CheckEventsTimeout_def fillDefault_def Let_def
        NoPartitionEvent_def check_partition_def)
qed

text \<open>The same two operations as events, numbered 7 and 3 by the client.\<close>

definition ex_events :: "kv_value Event list" where
  "ex_events =
     [\<lparr>Kind = CallEvent, EvValue = Input ex_put, EvId = 7\<rparr>, \<lparr>Kind = CallEvent, EvValue = Input ex_get, EvId = 3\<rparr>,
      \<lparr>Kind = ReturnEvent, EvValue = Output ex_get, EvId = 3\<rparr>, \<lparr>Kind = ReturnEvent, EvValue = Output ex_put, EvId = 7\<rparr>]"

lemma ex_events_complete: "complete_events ex_events"
proof -
  let ?pair = "\<lambda>x. \<exists>c r. c < r \<and> r < length ex_events \<and> {i. i < length ex_events \<and> EvId (ex_events ! i) = x} = {c, r}
      \<and> Kind (ex_events ! c) = CallEvent \<and> Kind (ex_events ! r) = ReturnEvent"
  have seven: "{i. i < length ex_events \<and> EvId (ex_events ! i) = 7} = {0, 3}"
    and three: "{i. i < length ex_events \<and> EvId (ex_events ! i) = 3} = {1, 2}"
    by (auto simp: ex_events_def less_Suc_eq nth_Cons')
  have "?pair 7"
    by (intro exI [of _ "0 :: nat"] exI [of _ "3 :: nat"] conjI seven) (simp_all add: ex_events_def)
  moreover have "?pair 3"
    by (intro exI [of _ "1 :: nat"] exI [of _ "2 :: nat"] conjI three) (simp_all add: ex_events_def)
  ultimately have "?pair x" if "x \<in> {7, 3}" for x using that by (elim insertE emptyE) simp_all
  moreover have "EvId ` set ex_events = {7, 3}" by (auto simp: ex_events_def)
  ultimately show ?thesis unfolding complete_events_def by (intro ballI) (simp only:)
qed

lemma ex_events_typed: "well_typed KvStep 2 (convertEntries (renumber ex_events))"
  by (auto simp: well_typed_def less_2_cases_iff entry_io_def call_index_def ret_index_def ex_events_def
      renumber_def convertEntries_def ex_history_defs)

theorem CheckEvents_decides_linearizability_witness:
  "\<exists>F. \<forall>fuel \<ge> F. CheckEvents (KvModel rev\<lparr>Equal := None\<rparr>) fuel ex_events [0] = Some (Some
    (linearizable_entries KvStep [] 2 (convertEntries (renumber ex_events))))"
proof -
  have "card (EvId ` set ex_events) = 2" by (simp add: ex_events_def insert_commute)
  with CheckEvents_decides_linearizability [OF ex_events_complete, of "KvModel rev\<lparr>Equal := None\<rparr>"] ex_events_typed
  show ?thesis by (simp add: KvModel_def)
qed

end
