(* ===== verification/Kv_System.thy ===== *)
theory Kv_System
  imports Kv_Server Lin_Model
begin

text \<open>
  The key/value service above its parts: Raft delivers the committed log (\<open>src/src/raft/raft.go\<close>), the
  server executes it (\<open>src/src/kvraft/server.go\<close>), and the tests give what the clients saw to the
  linearizability checker (\<open>src/src/linearizability\<close>) in the form of \<open>src/src/kvraft/test_test.go\<close>.

  The lemmas connect the two pairs: logs that agree give messages that agree, and the replies of a
  server are accepted by the model of the checker, in the order of the log.
\<close>

section \<open>Logs that agree\<close>

text \<open>Two logs hold the same commands at the indices \<open>is\<close>, up to the channels of the server that took them.\<close>

definition logs_agree :: "int list \<Rightarrow> Op command list \<Rightarrow> Op command list \<Rightarrow> bool" where
  "logs_agree is l l' \<longleftrightarrow> (\<forall>i \<in> set is. map_option (wireCmd dropChan) (log_map l i) = map_option (wireCmd dropChan) (log_map l' i))"

definition new_msgs :: "('c, 'b) Raft \<Rightarrow> ('c, 'b) Raft \<Rightarrow> ('c, 'b) apply_msg list" where
  "new_msgs rf rf' = drop (length (ApplyCh rf)) (ApplyCh rf')"

lemma apply_of_wire: "dropChanMsg (apply_of c) = apply_of (wireCmd dropChan c)"
  by (simp add: dropChanMsg_def apply_of_def wireCmd_def)

lemma agreeing_messages:
  assumes "logs_agree is l l'" and "set is \<subseteq> dom (log_map l)" and "set is \<subseteq> dom (log_map l')"
  shows "map dropChanMsg (map (\<lambda>i. apply_of (the (log_map l i))) is) = map dropChanMsg (map (\<lambda>i. apply_of (the (log_map l' i))) is)"
proof -
  have "wireCmd dropChan (the (log_map l i)) = wireCmd dropChan (the (log_map l' i))" if i: "i \<in> set is" for i
  proof -
    obtain c c' where "log_map l i = Some c" "log_map l' i = Some c'" using assms(2,3) i by blast
    with assms(1) i show ?thesis by (auto simp: logs_agree_def)
  qed
  then show ?thesis by (simp add: apply_of_wire)
qed

section \<open>Histories of the service\<close>

definition kv_input :: "Op \<Rightarrow> kv_value" where
  "kv_input e = KvIn \<lparr>KvOp = (if Op e = GET then 0 else if Op e = PUT then 1 else 2), KvKey = Key e, KvValue = Value e\<rparr>"

definition kv_output :: "Op \<Rightarrow> recent \<Rightarrow> kv_value" where
  "kv_output e r = KvOut \<lparr>KvOutValue = (if Op e = GET then rResult r else [])\<rparr>"

text \<open>Applying a log, with the requests that are executed (not retried ones) and their replies.\<close>

fun serve :: "Op list \<Rightarrow> 'b KVServer \<Rightarrow> ((Op \<times> recent) list \<times> 'b KVServer) option" where
  "serve [] kv = Some ([], kv)"
| "serve (e # es) kv =
     do {
       kv1 \<leftarrow> apply_op e kv;
       (rs, kv2) \<leftarrow> serve es kv1;
       Some ((if isUpToDate (ClientId e) (ReqId e) kv then (e, history_at (ClientId e) kv1) # rs else rs), kv2)
     }"

lemma serve_run: "serve es kv = Some (rs, kv') \<Longrightarrow> run_all apply_op es kv = Some kv'"
  by (induction es arbitrary: kv rs) (auto simp: Option.bind_eq_Some_conv)

lemma serve_total: "chans_ready es kv \<Longrightarrow> \<exists>rs kv'. serve es kv = Some (rs, kv')"
proof (induction es arbitrary: kv)
  case (Cons e es)
  from chans_ready_Cons [OF Cons.prems] Cons.IH show ?case by fastforce
qed simp

lemma serve_ops: "serve es kv = Some (rs, kv') \<Longrightarrow> (e, r) \<in> set rs \<Longrightarrow> e \<in> set es"
  by (induction es arbitrary: kv rs) (fastforce simp: Option.bind_eq_Some_conv split: if_splits)+

abbreviation store_view :: "store \<Rightarrow> string \<Rightarrow> string" where
  "store_view s \<equiv> \<lambda>k. value_of k s"

abbreviation served_io :: "Op \<times> recent \<Rightarrow> kv_value \<times> kv_value" where
  "served_io \<equiv> \<lambda>(e, r). (kv_input e, kv_output e r)"

lemma served_step:
  assumes "known_op e"
  shows "StoreStep (store_view s) (kv_input e) (kv_output e (spec_reply e s)) = Some (True, store_view (spec_store e s))"
  using assms
  by (auto simp: StoreStep_def kv_input_def kv_output_def spec_reply_def spec_store_def known_op_def value_of_def kv_consts
      fun_eq_iff)

lemma apply_op_newer:
  assumes "apply_op e kv = Some kv1" and "newer e (kv_history kv)" and "known_op e"
  shows "history_at (ClientId e) kv1 = spec_reply e (kv_record kv)" and "kv_record kv1 = spec_store e (kv_record kv)"
proof -
  have "answer e (execute e kv) = Some kv1" using assms(1,2) by (simp add: apply_op_def isUpToDate_newer)
  then obtain c where "kv1 = (execute e kv)\<lparr>kv_chans := c\<rparr>" using answer_frame by blast
  then show "history_at (ClientId e) kv1 = spec_reply e (kv_record kv)"
    using execute_spec(2) [OF assms(2,3)] by (simp add: history_at_def)
  show "kv_record kv1 = spec_store e (kv_record kv)"
    using apply_op_abs [OF assms(1)] assms(2,3) by (simp add: kv_abs_def sess_step_pair)
qed

lemma serve_accepts:
  assumes "serve es kv = Some (rs, kv')" and "\<forall>e \<in> set es. known_op e"
  shows "accepts_run StoreStep (store_view (kv_record kv)) (map served_io rs)"
  using assms
proof (induction es arbitrary: kv rs)
  case (Cons e es)
  then obtain kv1 rs1 where kv1: "apply_op e kv = Some kv1" "serve es kv1 = Some (rs1, kv')"
    "rs = (if isUpToDate (ClientId e) (ReqId e) kv then (e, history_at (ClientId e) kv1) # rs1 else rs1)"
    by (auto simp: Option.bind_eq_Some_conv)
  have IH: "accepts_run StoreStep (store_view (kv_record kv1)) (map served_io rs1)" using Cons kv1(2) by simp
  show ?case
  proof (cases "newer e (kv_history kv)")
    case True
    with IH kv1 Cons.prems(2) apply_op_newer [OF kv1(1) True] show ?thesis
      by (simp add: isUpToDate_newer served_step)
  next
    case False
    then have "kv_record kv1 = kv_record kv" using apply_op_abs [OF kv1(1)] by (simp add: kv_abs_def sess_step_pair)
    with IH kv1(3) False show ?thesis by (simp add: isUpToDate_newer)
  qed
qed simp

end
