(* ===== verification/Kv_Clerk.thy ===== *)
theory Kv_Clerk
  imports Kv_Server
begin

text \<open>
  The clerk of the key/value service (\<open>src/src/kvraft/client.go\<close>). A call takes a request number,
  waits at a gate until every earlier call has returned, and then sends its request to the server it
  believes to be the leader and, when that fails, to every server in turn, until one accepts.

  \<^item> The network and the servers are the argument \<open>net\<close>: \<open>net k i\<close> is what the variables \<open>ok\<close> and
    \<open>reply\<close> hold when the clerk wakes up from its \<open>k\<close>-th sleep, after sending to server \<open>i\<close>. Nothing
    is assumed about it, so lost, late and repeated replies are all covered.
  \<^item> \<open>Get\<close> and \<open>PutAppend\<close> consist of the same loops over different replies; the loops take from the
    reply whether it says \<open>WrongLeader\<close> (\<open>wrong\<close>) and what the call then returns (\<open>finish\<close>, \<open>None\<close>
    when it goes on).
  \<^item> The outer loop may run forever; \<open>fuel\<close> bounds the number of its turns, and the value \<open>None\<close> means
    that the call has not returned within them. That enough turns give a result when some server
    keeps accepting is proved below.
  \<^item> Calls of several goroutines on one clerk are the step relation \<open>clerk_step\<close>.
\<close>

section \<open>Data\<close>

definition TRITIME :: int where "TRITIME = 3"

record Clerk =
  ck_servers :: nat
  ck_id :: int
  ck_reqId :: int
  ck_revId :: int
  ck_leader :: nat

definition MakeClerk :: "nat \<Rightarrow> int \<Rightarrow> Clerk" where
  "MakeClerk servers nrand =
     \<lparr>ck_servers = servers, ck_id = nrand, ck_reqId = 0, ck_revId = 0, ck_leader = 0\<rparr>"

type_synonym 'r net = "nat \<Rightarrow> nat \<Rightarrow> bool \<times> 'r"

section \<open>The loops of a call\<close>

text \<open>\<open>for { tries++; go Call(server); Sleep; if ok || tries >= TRITIME { break } }\<close>\<close>

function try_loop :: "'r net \<Rightarrow> nat \<Rightarrow> int \<Rightarrow> nat \<Rightarrow> (bool \<times> 'r) \<times> nat" where
  "try_loop net i tries k =
     (let (ok, reply) = net k i
      in if ok \<or> tries + 1 \<ge> TRITIME then ((ok, reply), Suc k) else try_loop net i (tries + 1) (Suc k))"
  by pat_completeness auto
termination
  by (relation "measure (\<lambda>(net, i, tries, k). nat (TRITIME - tries))") auto

declare try_loop.simps [simp del]

text \<open>\<open>for i := 0; i < len(ck.servers); i++ { ... }\<close>\<close>

function scan_loop ::
  "('r \<Rightarrow> bool) \<Rightarrow> ('r \<Rightarrow> string option) \<Rightarrow> 'r net \<Rightarrow> nat \<Rightarrow> nat \<Rightarrow> Clerk \<Rightarrow> Clerk \<times> nat \<times> string option" where
  "scan_loop wrong finish net i k ck =
     (if i < ck_servers ck
      then let ((ok, reply), k') = try_loop net i 0 k
           in if ok \<and> \<not> wrong reply
              then let ck' = ck\<lparr>ck_leader := i\<rparr>
                   in case finish reply of
                        Some v \<Rightarrow> (ck'\<lparr>ck_revId := ck_revId ck' + 1\<rparr>, k', Some v)
                      | None \<Rightarrow> scan_loop wrong finish net (i + 1) k' ck'
              else scan_loop wrong finish net (i + 1) k' ck
      else (ck, k, None))"
  by pat_completeness auto
termination
  by (relation "measure (\<lambda>(wrong, finish, net, i, k, ck). ck_servers ck - i)") auto

declare scan_loop.simps [simp del]

fun call_loop ::
  "('r \<Rightarrow> bool) \<Rightarrow> ('r \<Rightarrow> string option) \<Rightarrow> 'r net \<Rightarrow> nat \<Rightarrow> nat \<Rightarrow> Clerk \<Rightarrow> (Clerk \<times> nat \<times> string) option" where
  "call_loop wrong finish net 0 k ck = None"
| "call_loop wrong finish net (Suc fuel) k ck =
     (if ck_servers ck \<le> ck_leader ck then None
      else let ((ok, reply), k') = try_loop net (ck_leader ck) 0 k
           in if ok \<and> \<not> wrong reply
              then case finish reply of
                     Some v \<Rightarrow> Some (ck\<lparr>ck_revId := ck_revId ck + 1\<rparr>, k', v)
                   | None \<Rightarrow> call_loop wrong finish net fuel k' ck
              else case scan_loop wrong finish net 0 k' ck of
                     (ck', k'', Some v) \<Rightarrow> Some (ck', k'', v)
                   | (ck', k'', None) \<Rightarrow> call_loop wrong finish net fuel k'' ck')"

section \<open>Get, Put and Append\<close>

definition get_finish :: "GetReply \<Rightarrow> string option" where
  "get_finish r = (if garErr r = OK then Some (garValue r) else if garErr r = ErrNoKey then Some [] else None)"

definition put_finish :: "PutAppendReply \<Rightarrow> string option" where
  "put_finish r = (if parErr r = OK then Some [] else Some [])"

text \<open>The network also gets the request.\<close>

definition gate_open :: "Clerk \<Rightarrow> bool" where
  "gate_open ck \<longleftrightarrow> ck_reqId ck = ck_revId ck + 1"

definition take_reqId :: "Clerk \<Rightarrow> Clerk \<times> int" where
  "take_reqId ck = (ck\<lparr>ck_reqId := ck_reqId ck + 1\<rparr>, ck_reqId ck)"

definition ClerkGet ::
  "(GetArgs \<Rightarrow> GetReply net) \<Rightarrow> nat \<Rightarrow> nat \<Rightarrow> string \<Rightarrow> Clerk \<Rightarrow> (Clerk \<times> nat \<times> string) option" where
  "ClerkGet net fuel k key ck =
     (let (ck1, r) = take_reqId ck;
          args = \<lparr>gaKey = key, gaClientId = ck_id ck, gaReqId = r\<rparr>
      in if gate_open ck1 then call_loop garWrongLeader get_finish (net args) fuel k ck1 else None)"

definition ClerkPutAppend ::
  "(PutAppendArgs \<Rightarrow> PutAppendReply net) \<Rightarrow> nat \<Rightarrow> nat \<Rightarrow> string \<Rightarrow> string \<Rightarrow> string \<Rightarrow> Clerk
     \<Rightarrow> (Clerk \<times> nat \<times> string) option" where
  "ClerkPutAppend net fuel k key v op ck =
     (let (ck1, r) = take_reqId ck;
          args = \<lparr>paKey = key, paValue = v, paOp = op, paClientId = ck_id ck, paReqId = r\<rparr>
      in if gate_open ck1 then call_loop parWrongLeader put_finish (net args) fuel k ck1 else None)"

definition ClerkPut ::
  "(PutAppendArgs \<Rightarrow> PutAppendReply net) \<Rightarrow> nat \<Rightarrow> nat \<Rightarrow> string \<Rightarrow> string \<Rightarrow> Clerk
     \<Rightarrow> (Clerk \<times> nat \<times> string) option" where
  "ClerkPut net fuel k key v ck = ClerkPutAppend net fuel k key v ''PUT'' ck"

definition ClerkAppend ::
  "(PutAppendArgs \<Rightarrow> PutAppendReply net) \<Rightarrow> nat \<Rightarrow> nat \<Rightarrow> string \<Rightarrow> string \<Rightarrow> Clerk
     \<Rightarrow> (Clerk \<times> nat \<times> string) option" where
  "ClerkAppend net fuel k key v ck = ClerkPutAppend net fuel k key v ''APPEND'' ck"

section \<open>Concurrent calls on one clerk\<close>

text \<open>
  A call waits at the gate with its request number or is sending. The lines that read and write the
  counters are the steps: taking a number (under the lock), passing the gate, and returning.
\<close>

datatype call = Waiting int | Sending int

inductive clerk_step :: "Clerk \<times> call list \<Rightarrow> Clerk \<times> call list \<Rightarrow> bool" where
  take_id: "take_reqId ck = (ck', r) \<Longrightarrow> clerk_step (ck, cs) (ck', cs @ [Waiting r])"
| pass: "i < length cs \<Longrightarrow> cs ! i = Waiting r \<Longrightarrow> gate_open ck \<Longrightarrow> clerk_step (ck, cs) (ck, cs[i := Sending r])"
| return: "clerk_step (ck, xs @ Sending r # ys) (ck\<lparr>ck_revId := ck_revId ck + 1\<rparr>, xs @ ys)"

inductive_cases clerk_stepE: "clerk_step (ck, cs) (ck', cs')"

section \<open>The loops\<close>

lemma try_loop_result:
  assumes "try_loop net i tries k = ((ok, reply), k')"
  shows "k < k'" and "net (k' - 1) i = (ok, reply)"
proof -
  have "k < k' \<and> net (k' - 1) i = (ok, reply)"
    using assms
  proof (induction net i tries k rule: try_loop.induct)
    case (1 net i tries k)
    note eq = "1.prems" [unfolded try_loop.simps [of net i tries k]]
    show ?case
    proof (cases "net k i")
      case (Pair b r)
      with eq "1.IH" [OF refl] show ?thesis by (cases "b \<or> TRITIME \<le> tries + 1") auto
    qed
  qed
  then show "k < k'" and "net (k' - 1) i = (ok, reply)" by auto
qed

text \<open>What a turn that returns has seen: the reply of the server now recorded as the leader.\<close>

definition accepted_by ::
  "('r \<Rightarrow> bool) \<Rightarrow> ('r \<Rightarrow> string option) \<Rightarrow> 'r net \<Rightarrow> nat \<Rightarrow> nat \<Rightarrow> nat \<Rightarrow> string \<Rightarrow> bool" where
  "accepted_by wrong finish net k k' i v \<longleftrightarrow>
     (\<exists>j reply. k \<le> j \<and> j < k' \<and> net j i = (True, reply) \<and> \<not> wrong reply \<and> finish reply = Some v)"

lemma accepted_by_try:
  assumes "try_loop net i tries k = ((True, reply), k')" and "\<not> wrong reply" and "finish reply = Some v"
  shows "accepted_by wrong finish net k k' i v"
  using try_loop_result [OF assms(1)] assms(2,3) by (force simp: accepted_by_def intro!: exI [of _ "k' - 1"])

lemma accepted_by_mono: "accepted_by wrong finish net k k' i v \<Longrightarrow> l \<le> k \<Longrightarrow> accepted_by wrong finish net l k' i v"
  by (auto simp: accepted_by_def intro: order_trans)

lemma scan_loop_result:
  assumes "scan_loop wrong finish net i k ck = (ck', k', res)"
  shows "k \<le> k' \<and> ck_servers ck' = ck_servers ck \<and> ck_reqId ck' = ck_reqId ck \<and> ck_id ck' = ck_id ck
    \<and> (ck_leader ck < ck_servers ck \<longrightarrow> ck_leader ck' < ck_servers ck')
    \<and> (case res of None \<Rightarrow> ck_revId ck' = ck_revId ck
       | Some v \<Rightarrow> ck_revId ck' = ck_revId ck + 1 \<and> accepted_by wrong finish net k k' (ck_leader ck') v)"
  using assms
proof (induction wrong finish net i k ck arbitrary: ck' k' res rule: scan_loop.induct)
  case (1 wrong finish net i k ck)
  show ?case
  proof (cases "i < ck_servers ck")
    case False
    with "1.prems" show ?thesis by (simp add: scan_loop.simps [of _ _ _ i])
  next
    case True
    obtain ok reply k1 where t: "try_loop net i 0 k = ((ok, reply), k1)" by (metis prod.collapse)
    note k1 = try_loop_result(1) [OF t]
    show ?thesis
    proof (cases "ok \<and> \<not> wrong reply")
      case False
      have s: "scan_loop wrong finish net (i + 1) k1 ck = (ck', k', res)"
        using "1.prems" True False t by (subst (asm) scan_loop.simps) auto
      from "1.IH"(2) [OF True _ t [symmetric] _ False s] k1 show ?thesis
        by (auto split: option.splits intro: accepted_by_mono)
    next
      case acc: True
      show ?thesis
      proof (cases "finish reply")
        case None
        have s: "scan_loop wrong finish net (i + 1) k1 (ck\<lparr>ck_leader := i\<rparr>) = (ck', k', res)"
          using "1.prems" True acc t None by (subst (asm) scan_loop.simps) auto
        from "1.IH"(1) [OF True _ t [symmetric] _ acc _ None s] k1 True show ?thesis
          by (auto split: option.splits intro: accepted_by_mono)
      next
        case (Some v)
        have "ck' = ck\<lparr>ck_leader := i, ck_revId := ck_revId ck + 1\<rparr> \<and> k' = k1 \<and> res = Some v"
          using "1.prems" True acc t Some by (subst (asm) scan_loop.simps) auto
        with k1 True acc accepted_by_try [of net i 0 k reply k1 wrong finish v] t Some show ?thesis by auto
      qed
    qed
  qed
qed

lemma call_loop_result:
  assumes "call_loop wrong finish net fuel k ck = Some (ck', k', v)"
  shows "ck_revId ck' = ck_revId ck + 1 \<and> ck_reqId ck' = ck_reqId ck \<and> ck_id ck' = ck_id ck
    \<and> ck_servers ck' = ck_servers ck \<and> ck_leader ck' < ck_servers ck'
    \<and> accepted_by wrong finish net k k' (ck_leader ck') v"
  using assms
proof (induction fuel arbitrary: k ck)
  case (Suc fuel)
  obtain ok reply k1 where t: "try_loop net (ck_leader ck) 0 k = ((ok, reply), k1)" by (metis prod.collapse)
  note k1 = try_loop_result(1) [OF t]
  have lead: "ck_leader ck < ck_servers ck" using Suc.prems by (simp split: if_splits)
  show ?case
  proof (cases "ok \<and> \<not> wrong reply")
    case acc: True
    show ?thesis
    proof (cases "finish reply")
      case None
      with Suc.prems acc t lead have "call_loop wrong finish net fuel k1 ck = Some (ck', k', v)" by simp
      from Suc.IH [OF this] k1 show ?thesis by (auto intro: accepted_by_mono)
    next
      case (Some x)
      with Suc.prems acc t lead accepted_by_try [of net "ck_leader ck" 0 k reply k1 wrong finish x]
      show ?thesis by auto
    qed
  next
    case False
    obtain ck2 k2 res where s: "scan_loop wrong finish net 0 k1 ck = (ck2, k2, res)" by (metis prod.collapse)
    note r = scan_loop_result [OF s]
    show ?thesis
    proof (cases res)
      case None
      with Suc.prems False t lead s have "call_loop wrong finish net fuel k2 ck2 = Some (ck', k', v)" by simp
      from Suc.IH [OF this] r k1 None show ?thesis by (auto intro: accepted_by_mono)
    next
      case (Some x)
      with Suc.prems False t lead s r k1 show ?thesis by (auto intro: accepted_by_mono)
    qed
  qed
qed simp

text \<open>A server that accepts every request, and replies that end the call whenever they are accepted.\<close>

definition accepts :: "('r \<Rightarrow> bool) \<Rightarrow> bool \<times> 'r \<Rightarrow> bool" where
  "accepts wrong a \<longleftrightarrow> fst a \<and> \<not> wrong (snd a)"

definition settles :: "('r \<Rightarrow> bool) \<Rightarrow> ('r \<Rightarrow> string option) \<Rightarrow> 'r net \<Rightarrow> bool" where
  "settles wrong finish net \<longleftrightarrow> (\<forall>j i. accepts wrong (net j i) \<longrightarrow> finish (snd (net j i)) \<noteq> None)"

lemma settles_finish:
  assumes "settles wrong finish net" and "try_loop net i tries k = ((ok, reply), k')" and "ok \<and> \<not> wrong reply"
  shows "\<exists>v. finish reply = Some v"
proof -
  have "net (k' - 1) i = (ok, reply)" using try_loop_result(2) [OF assms(2)] .
  with assms(1) have "accepts wrong (ok, reply) \<longrightarrow> finish reply \<noteq> None"
    unfolding settles_def by (metis snd_conv)
  with assms(3) show ?thesis by (auto simp: accepts_def)
qed

lemma scan_loop_succeeds:
  assumes "i \<le> l" and "l < ck_servers ck" and "\<forall>j \<ge> k. accepts wrong (net j l)" and "settles wrong finish net"
  shows "\<exists>ck' k' v. scan_loop wrong finish net i k ck = (ck', k', Some v)"
  using assms
proof (induction "l - i" arbitrary: i k)
  case step: (0 i k)
  then have "i = l" by simp
  obtain ok reply k1 where t: "try_loop net i 0 k = ((ok, reply), k1)" by (metis prod.collapse)
  have "accepts wrong (net (k1 - 1) l)" using step.prems(3) try_loop_result(1) [OF t] by simp
  then have acc: "ok \<and> \<not> wrong reply" using try_loop_result(2) [OF t] \<open>i = l\<close> by (simp add: accepts_def)
  with t step.prems(2) \<open>i = l\<close> settles_finish [OF step.prems(4) t acc] show ?case
    by (subst scan_loop.simps) auto
next
  case step: (Suc d i k)
  then have il: "i < ck_servers ck" "Suc i \<le> l" by auto
  obtain ok reply k1 where t: "try_loop net i 0 k = ((ok, reply), k1)" by (metis prod.collapse)
  show ?case
  proof (cases "ok \<and> \<not> wrong reply")
    case True
    with t il settles_finish [OF step.prems(4) t True] show ?thesis by (subst scan_loop.simps) auto
  next
    case False
    have "\<exists>ck' k' v. scan_loop wrong finish net (Suc i) k1 ck = (ck', k', Some v)"
      using step.hyps il step.prems try_loop_result(1) [OF t] by (intro step.hyps(1)) auto
    with False t il show ?thesis by (subst scan_loop.simps) auto
  qed
qed

lemma call_loop_succeeds:
  assumes "ck_leader ck < ck_servers ck" and "l < ck_servers ck"
    and "\<forall>j \<ge> K. accepts wrong (net j l)" and "settles wrong finish net"
  shows "\<exists>fuel ck' k' v. call_loop wrong finish net fuel k ck = Some (ck', k', v)"
  using assms
proof (induction "K - k" arbitrary: k ck rule: less_induct)
  case less
  obtain ok reply k1 where t: "try_loop net (ck_leader ck) 0 k = ((ok, reply), k1)" by (metis prod.collapse)
  note k1 = try_loop_result(1) [OF t]
  show ?case
  proof (cases "ok \<and> \<not> wrong reply")
    case acc: True
    then obtain x where "finish reply = Some x" using settles_finish [OF less.prems(4) t] by blast
    with t acc less.prems(1) have "call_loop wrong finish net (Suc 0) k ck
        = Some (ck\<lparr>ck_revId := ck_revId ck + 1\<rparr>, k1, x)"
      by simp
    then show ?thesis by blast
  next
    case False
    obtain ck2 k2 res where s: "scan_loop wrong finish net 0 k1 ck = (ck2, k2, res)" by (metis prod.collapse)
    note r = scan_loop_result [OF s]
    show ?thesis
    proof (cases res)
      case (Some x)
      with t False s less.prems(1) have "call_loop wrong finish net (Suc 0) k ck = Some (ck2, k2, x)" by auto
      then show ?thesis by blast
    next
      case None
      have "k < K"
      proof (rule ccontr)
        assume "\<not> k < K"
        with less.prems(3) k1 have "\<forall>j \<ge> k1. accepts wrong (net j l)" by auto
        with scan_loop_succeeds [of 0 l ck k1 wrong net finish] less.prems(2,4) s None show False by auto
      qed
      moreover have "k1 \<le> k2" using r by simp
      ultimately have "K - k2 < K - k" using k1 by simp
      then have "\<exists>fuel ck' k' v. call_loop wrong finish net fuel k2 ck2 = Some (ck', k', v)"
        using r less.prems by (intro less.hyps) auto
      then obtain fuel ck' k' v where "call_loop wrong finish net fuel k2 ck2 = Some (ck', k', v)" by blast
      with t False s None less.prems(1) have "call_loop wrong finish net (Suc fuel) k ck = Some (ck', k', v)" by auto
      then show ?thesis by blast
    qed
  qed
qed

section \<open>The gate\<close>

definition sending :: "call list \<Rightarrow> nat" where
  "sending cs = length (filter (\<lambda>c. case c of Sending r \<Rightarrow> True | Waiting r \<Rightarrow> False) cs)"

lemma sending_append [simp]: "sending (xs @ ys) = sending xs + sending ys"
  and sending_Cons [simp]: "sending (c # cs) = (case c of Sending r \<Rightarrow> 1 | Waiting r \<Rightarrow> 0) + sending cs"
  and sending_Nil [simp]: "sending [] = 0"
  by (auto simp: sending_def split: call.splits)

lemma sending_le: "sending cs \<le> length cs"
  by (simp add: sending_def)

lemma sending_pass:
  assumes "i < length cs" and "cs ! i = Waiting r"
  shows "sending (cs[i := Sending q]) = Suc (sending cs)"
proof -
  have "cs = take i cs @ Waiting r # drop (Suc i) cs" using assms by (metis id_take_nth_drop)
  then have "sending cs = sending (take i cs @ Waiting r # drop (Suc i) cs)" by (rule arg_cong)
  with assms(1) show ?thesis by (simp add: upd_conv_take_nth_drop)
qed

text \<open>Every outstanding call accounts for one in the difference of the counters, and at most one is sending.\<close>

definition gate_ok :: "Clerk \<times> call list \<Rightarrow> bool" where
  "gate_ok = (\<lambda>(ck, cs). ck_reqId ck = ck_revId ck + int (length cs) \<and> sending cs \<le> 1)"

lemma gate_ok_step: "clerk_step s t \<Longrightarrow> gate_ok s \<Longrightarrow> gate_ok t"
proof (induction rule: clerk_step.induct)
  case (pass i cs r ck)
  then have "length cs = 1" by (simp add: gate_ok_def gate_open_def)
  with pass show ?case
    using sending_pass [of i cs r r] sending_le [of "cs[i := Sending r]"] by (simp add: gate_ok_def)
qed (auto simp: gate_ok_def take_reqId_def)

lemma gate_ok_steps: "clerk_step\<^sup>*\<^sup>* s t \<Longrightarrow> gate_ok s \<Longrightarrow> gate_ok t"
  by (induction rule: rtranclp_induct) (auto intro: gate_ok_step)

text \<open>Two calls at the gate and none sending: this is kept by every step.\<close>

definition stuck :: "Clerk \<times> call list \<Rightarrow> bool" where
  "stuck = (\<lambda>(ck, cs). ck_reqId ck \<ge> ck_revId ck + 2 \<and> sending cs = 0)"

lemma stuck_step: "clerk_step s t \<Longrightarrow> stuck s \<Longrightarrow> stuck t \<and> (\<exists>ds. snd t = snd s @ ds)"
  by (induction rule: clerk_step.induct) (auto simp: stuck_def gate_open_def take_reqId_def)

lemma stuck_steps: "clerk_step\<^sup>*\<^sup>* s t \<Longrightarrow> stuck s \<Longrightarrow> stuck t \<and> (\<exists>ds. snd t = snd s @ ds)"
  by (induction rule: rtranclp_induct) (use stuck_step in fastforce)+

section \<open>Properties\<close>

text \<open>
  A call of \<open>Get\<close> that returns has a reply behind it: the value is that of a reply to this very
  request, accepted by the server that is then recorded as the leader, or empty for a missing key.
  The clerk is left ready for the next call, with its request number used up.
\<close>

theorem ClerkGet_returns_accepted_reply:
  assumes "ClerkGet net fuel k key ck = Some (ck', k', v)" and "ck_reqId ck = ck_revId ck"
  shows "(\<exists>j reply. k \<le> j \<and> j < k'
      \<and> net \<lparr>gaKey = key, gaClientId = ck_id ck, gaReqId = ck_reqId ck\<rparr> j (ck_leader ck') = (True, reply)
      \<and> \<not> garWrongLeader reply
      \<and> (garErr reply = OK \<and> v = garValue reply \<or> garErr reply = ErrNoKey \<and> v = []))
    \<and> ck_reqId ck' = ck_revId ck' \<and> ck_reqId ck' = ck_reqId ck + 1 \<and> ck_leader ck' < ck_servers ck"
proof -
  let ?a = "\<lparr>gaKey = key, gaClientId = ck_id ck, gaReqId = ck_reqId ck\<rparr>"
  have "call_loop garWrongLeader get_finish (net ?a) fuel k (ck\<lparr>ck_reqId := ck_reqId ck + 1\<rparr>) = Some (ck', k', v)"
    using assms by (auto simp: ClerkGet_def take_reqId_def Let_def split: if_splits)
  note r = call_loop_result [OF this]
  from r have "\<exists>j reply. k \<le> j \<and> j < k' \<and> net ?a j (ck_leader ck') = (True, reply) \<and> \<not> garWrongLeader reply
      \<and> (garErr reply = OK \<and> v = garValue reply \<or> garErr reply = ErrNoKey \<and> v = [])"
    by (auto simp: accepted_by_def get_finish_def split: if_splits)
  with r assms(2) show ?thesis by simp
qed

definition ex_net :: "'a \<Rightarrow> GetReply net" where
  "ex_net a k i = (if i = 2 \<and> 4 < k then (True, \<lparr>garWrongLeader = False, garErr = OK, garValue = ''x''\<rparr>)
                   else (i = 1, \<lparr>garWrongLeader = True, garErr = [], garValue = []\<rparr>))"

theorem ClerkGet_returns_accepted_reply_witness:
  "\<exists>ck' k' v. ClerkGet ex_net 3 0 ''k'' (MakeClerk 3 9) = Some (ck', k', v) \<and> ck_reqId ck' = ck_revId ck'"
proof -
  obtain ck' k' v where "ClerkGet ex_net 3 0 ''k'' (MakeClerk 3 9) = Some (ck', k', v)"
  proof -
    have "ClerkGet ex_net 3 0 ''k'' (MakeClerk 3 9) \<noteq> None" by code_simp
    then show ?thesis using that by (metis not_None_eq prod.collapse)
  qed
  with ClerkGet_returns_accepted_reply [OF this] show ?thesis by (simp add: MakeClerk_def)
qed

text \<open>
  C23. The loops of a call end when some server accepts every request from some time on: there is a
  number of turns within which the call returns, wherever the clerk starts looking. The replies are
  assumed to carry one of the two errors the clerk knows whenever they are accepted.
\<close>

theorem ClerkGet_returns:
  assumes "ck_reqId ck = ck_revId ck" and "ck_leader ck < ck_servers ck" and "l < ck_servers ck"
    and "\<forall>a. \<forall>j \<ge> K. accepts garWrongLeader (net a j l)"
    and "\<forall>a j i. accepts garWrongLeader (net a j i) \<longrightarrow> garErr (snd (net a j i)) \<in> {OK, ErrNoKey}"
  shows "\<exists>fuel ck' k' v. ClerkGet net fuel k key ck = Some (ck', k', v)"
proof -
  let ?a = "\<lparr>gaKey = key, gaClientId = ck_id ck, gaReqId = ck_reqId ck\<rparr>"
  have "settles garWrongLeader get_finish (net ?a)"
    using assms(5) by (fastforce simp: settles_def get_finish_def)
  then have "\<exists>fuel ck' k' v. call_loop garWrongLeader get_finish (net ?a) fuel k (ck\<lparr>ck_reqId := ck_reqId ck + 1\<rparr>)
      = Some (ck', k', v)"
    using assms(2-4) by (intro call_loop_succeeds [where l = l and K = K]) auto
  with assms(1) show ?thesis by (simp add: ClerkGet_def take_reqId_def gate_open_def)
qed

theorem ClerkGet_returns_witness: "\<exists>fuel ck' k' v. ClerkGet ex_net fuel 0 ''k'' (MakeClerk 3 9) = Some (ck', k', v)"
  by (rule ClerkGet_returns [where l = 2 and K = 5]) (auto simp: MakeClerk_def ex_net_def accepts_def)

text \<open>
  C24. However many goroutines share a clerk, at most one request of the clerk is being sent at any
  time, as the request history of the servers requires.
\<close>

theorem clerk_one_request_at_a_time:
  assumes "clerk_step\<^sup>*\<^sup>* (MakeClerk n r, []) (ck, cs)"
  shows "length (filter (\<lambda>c. case c of Sending r \<Rightarrow> True | Waiting r \<Rightarrow> False) cs) \<le> 1
    \<and> ck_reqId ck = ck_revId ck + int (length cs)"
  using gate_ok_steps [OF assms] by (simp add: gate_ok_def MakeClerk_def sending_def)

definition ex_clerk :: Clerk where
  "ex_clerk = (MakeClerk 3 9)\<lparr>ck_reqId := 2\<rparr>"

lemma ex_two_calls: "clerk_step\<^sup>*\<^sup>* (MakeClerk 3 9, []) (ex_clerk, [Waiting 0, Waiting 1])"
proof -
  have "clerk_step (MakeClerk 3 9, []) ((MakeClerk 3 9)\<lparr>ck_reqId := 1\<rparr>, [] @ [Waiting 0])"
    by (rule clerk_step.take_id) (simp add: take_reqId_def MakeClerk_def)
  moreover have "clerk_step ((MakeClerk 3 9)\<lparr>ck_reqId := 1\<rparr>, [Waiting 0]) (ex_clerk, [Waiting 0] @ [Waiting 1])"
    by (rule clerk_step.take_id) (simp add: take_reqId_def MakeClerk_def ex_clerk_def)
  ultimately show ?thesis by simp
qed

theorem clerk_one_request_at_a_time_witness:
  "clerk_step\<^sup>*\<^sup>* (MakeClerk 3 9, []) (ex_clerk, [Waiting 0, Waiting 1]) \<and> ck_reqId ex_clerk = ck_revId ex_clerk + 2"
  using ex_two_calls clerk_one_request_at_a_time [OF ex_two_calls] by simp

text \<open>
  C35. Two calls that take their request numbers before either has passed the gate block each other
  for good: in no later state, whatever other calls arrive, does a call of this clerk pass the gate.
\<close>

theorem clerk_gate_deadlock:
  assumes "clerk_step\<^sup>*\<^sup>* (ck, [Waiting a, Waiting b]) (ck', cs)" and "ck_reqId ck = ck_revId ck + 2"
  shows "\<not> gate_open ck' \<and> (\<exists>ds. cs = Waiting a # Waiting b # ds)
    \<and> (\<forall>c \<in> set cs. \<exists>r. c = Waiting r)"
proof -
  have st: "stuck (ck', cs) \<and> (\<exists>ds. cs = [Waiting a, Waiting b] @ ds)"
    using stuck_steps [OF assms(1)] assms(2) by (simp add: stuck_def)
  then have "\<exists>r. c = Waiting r" if "c \<in> set cs" for c
    using that by (cases c) (auto simp: stuck_def sending_def filter_empty_conv split: call.splits)
  with st show ?thesis by (auto simp: stuck_def gate_open_def)
qed

theorem clerk_gate_deadlock_witness: "\<not> gate_open ex_clerk"
  using clerk_gate_deadlock [of ex_clerk 0 1 ex_clerk "[Waiting 0, Waiting 1]"]
  by (simp add: ex_clerk_def MakeClerk_def)

end
