(* ===== verification/Kv_Service.thy ===== *)
theory Kv_Service
  imports Kv_System Kv_Clerk
begin

text \<open>
  The whole key/value service: clerks that call, several servers that run the handlers and the apply loop of
  \<open>src/src/kvraft/server.go\<close> on their own copies of the state, and the log between them. Raft appears as
  what it promises to the servers: there is one log of committed entries that only grows, an
  entry gets into it after it was handed to \<open>Start\<close>, and each server receives the log in order.

  \<^item> The state of the Raft peer of a server is free to change at any time (\<open>RaftMoves\<close>), so who is a
    leader and who is not is arbitrary.
  \<^item> An entry is tagged with the server and the start of the server (\<open>sv_epoch\<close>) it was submitted to.
    Only there it still has its reply channel; everywhere else, and after a restart, the channel has been
    lost in the encoding.
  \<^item> A request may be delivered any number of times, at any time and to any server, and an entry
    that was submitted may be committed any number of times or never. A reply may be lost or arrive late.
  \<^item> A server may restart with an empty state. After applying an entry it may want a snapshot, which the code
    encodes and hands to \<open>StartSnapshot\<close> in a goroutine (\<open>RunSnapshot\<close>); Raft may give any snapshot it was handed to any
    server, as a message that the apply loop decodes (\<open>ReceiveSnapshot\<close>).
  \<^item> \<open>sv_applied\<close> is the index up to which Raft counts a server as served, by entries and by snapshots. Raft's promise
    is that a snapshot comes before the entries after it; \<open>ordered_step\<close> are the steps that keep it. \<open>svc_step\<close> alone
    lets a snapshot arrive late, which does not move the index back, as in the code: the state goes back, the index does not.
  \<^item> A clerk has one call at a time, with request numbers that increase; a call returns with the first reply
    that its loop accepts.
\<close>

section \<open>The service\<close>

record clerk_call =
  cc_client :: int
  cc_id :: int
  cc_op :: string
  cc_key :: string
  cc_value :: string
  cc_call :: nat
  cc_ret :: "(nat \<times> string) option"

type_synonym log_entry = "Op \<times> nat \<times> nat"

record 'b service_state =
  sv_servers :: "'b KVServer list"
  sv_epoch :: "nat list"
  sv_applied :: "nat list"
  sv_log :: "(log_entry \<times> nat) list"
  sv_submitted :: "log_entry list"
  sv_calls :: "clerk_call list"
  sv_replies :: "((int \<times> int) \<times> string) list"
  sv_snaps :: "('b list \<times> nat) list"
  sv_time :: nat

text \<open>What a handler replies, and what the clerk makes of it.\<close>

datatype kv_reply = GetR GetReply | PutR PutAppendReply

fun reply_value :: "kv_reply \<Rightarrow> string option" where
  "reply_value (GetR r) = (if garWrongLeader r then None else get_finish r)"
| "reply_value (PutR r) = (if parWrongLeader r then None else put_finish r)"

definition handle_request ::
  "(Op, 'b) encoder \<Rightarrow> clerk_call \<Rightarrow> 'b KVServer \<Rightarrow> ('b KVServer \<times> (kv_reply + nat)) option" where
  "handle_request enc x kv =
     (if cc_op x = GET
      then do { (kv', res) \<leftarrow> Get_begin enc \<lparr>gaKey = cc_key x, gaClientId = cc_client x, gaReqId = cc_id x\<rparr> kv;
                Some (kv', map_sum GetR id res) }
      else do { (kv', res) \<leftarrow> PutAppend_begin enc \<lparr>paKey = cc_key x, paValue = cc_value x, paOp = cc_op x,
                   paClientId = cc_client x, paReqId = cc_id x\<rparr> kv;
                Some (kv', map_sum PutR id res) })"

definition finish_request :: "Op \<Rightarrow> 'b KVServer \<Rightarrow> ('b KVServer \<times> kv_reply) option" where
  "finish_request e kv =
     do {
       ch \<leftarrow> ApplyChan e;
       if Op e = GET then do { (kv', r) \<leftarrow> Get_end ch kv; Some (kv', GetR r) }
       else do { (kv', r) \<leftarrow> PutAppend_end ch kv; Some (kv', PutR r) }
     }"

definition entry_for :: "clerk_call \<Rightarrow> nat \<Rightarrow> Op" where
  "entry_for x ch = \<lparr>Op = cc_op x, Key = cc_key x, Value = cc_value x, ClientId = cc_client x, ReqId = cc_id x,
     ApplyChan = Some ch\<rparr>"

definition put_reply :: "int \<Rightarrow> int \<Rightarrow> kv_reply \<Rightarrow> 'b service_state \<Rightarrow> 'b service_state" where
  "put_reply c r rep s =
     (case reply_value rep of None \<Rightarrow> s | Some v \<Rightarrow> s\<lparr>sv_replies := sv_replies s @ [((c, r), v)]\<rparr>)"

definition sv_ops :: "'b service_state \<Rightarrow> Op list" where
  "sv_ops s = map (fst \<circ> fst) (sv_log s)"

definition state_at :: "Op list \<Rightarrow> nat \<Rightarrow> store \<times> sessions" where
  "state_at es p = fold sess_step (take p es) (Map.empty, Map.empty)"

definition entry_msg :: "'b service_state \<Rightarrow> nat \<Rightarrow> nat \<Rightarrow> (Op, 'b) apply_msg" where
  "entry_msg s j p =
     (let (e, i, ep) = fst (sv_log s ! p)
      in \<lparr>CommandValid = True, MsgCommand = Some (if i = j \<and> ep = sv_epoch s ! j then e else dropChan e),
          MsgCommandIndex = int p + 1, UseSnapshot = False, Snapshot = []\<rparr>)"

datatype 'b svc_event =
    ClerkCall int int string string string
  | Deliver nat nat
  | CommitEntry nat
  | ApplyEntry nat
  | FinishCall nat
  | ReturnCall nat nat
  | RestartServer nat "'b Persister"
  | RunSnapshot nat nat
  | ReceiveSnapshot nat nat
  | RaftMoves nat "(Op, 'b) Raft"

definition valid_call :: "string \<Rightarrow> string \<Rightarrow> bool" where
  "valid_call op v \<longleftrightarrow> op = GET \<and> v = [] \<or> op = PUT \<or> op = APPEND"

fun svc_do ::
  "(Op, 'b) encoder \<Rightarrow> (Op, 'b) decoder \<Rightarrow> 'b kv_encoder \<Rightarrow> 'b kv_decoder \<Rightarrow> 'b svc_event
     \<Rightarrow> 'b service_state \<Rightarrow> 'b service_state option" where
  "svc_do enc dec kenc kdec (ClerkCall c r op key v) s =
     (if valid_call op v \<and> (\<forall>x \<in> set (sv_calls s). cc_client x = c \<longrightarrow> cc_id x < r \<and> cc_ret x \<noteq> None)
      then Some (s\<lparr>sv_calls := sv_calls s @ [\<lparr>cc_client = c, cc_id = r, cc_op = op, cc_key = key, cc_value = v,
                     cc_call = sv_time s, cc_ret = None\<rparr>]\<rparr>)
      else None)"
| "svc_do enc dec kenc kdec (Deliver k j) s =
     (if k < length (sv_calls s) \<and> j < length (sv_servers s)
      then do {
        let x = sv_calls s ! k;
        (kv, res) \<leftarrow> handle_request enc x (sv_servers s ! j);
        let s1 = s\<lparr>sv_servers := (sv_servers s)[j := kv]\<rparr>;
        Some (case res of
                Inl rep \<Rightarrow> put_reply (cc_client x) (cc_id x) rep s1
              | Inr ch \<Rightarrow> s1\<lparr>sv_submitted := sv_submitted s @ [(entry_for x ch, j, sv_epoch s ! j)]\<rparr>)
      } else None)"
| "svc_do enc dec kenc kdec (CommitEntry i) s =
     (if i < length (sv_submitted s)
      then Some (s\<lparr>sv_log := sv_log s @ [(sv_submitted s ! i, sv_time s)]\<rparr>) else None)"
| "svc_do enc dec kenc kdec (ApplyEntry j) s =
     (if j < length (sv_servers s) \<and> sv_applied s ! j < length (sv_log s)
      then do {
        kv \<leftarrow> handle_msg kenc kdec (entry_msg s j (sv_applied s ! j)) (sv_servers s ! j);
        Some (s\<lparr>sv_servers := (sv_servers s)[j := kv], sv_applied := (sv_applied s)[j := sv_applied s ! j + 1]\<rparr>)
      } else None)"
| "svc_do enc dec kenc kdec (FinishCall i) s =
     (if i < length (sv_submitted s)
      then let (e, j, ep) = sv_submitted s ! i
           in if ep = sv_epoch s ! j
              then do { (kv, rep) \<leftarrow> finish_request e (sv_servers s ! j);
                        Some (put_reply (ClientId e) (ReqId e) rep (s\<lparr>sv_servers := (sv_servers s)[j := kv]\<rparr>)) }
              else None
      else None)"
| "svc_do enc dec kenc kdec (ReturnCall k i) s =
     (if k < length (sv_calls s) \<and> i < length (sv_replies s)
      then let x = sv_calls s ! k; ((c, r), v) = sv_replies s ! i
           in if cc_client x = c \<and> cc_id x = r \<and> cc_ret x = None
              then Some (s\<lparr>sv_calls := (sv_calls s)[k := x\<lparr>cc_ret := Some (sv_time s, v)\<rparr>]\<rparr>) else None
      else None)"
| "svc_do enc dec kenc kdec (RestartServer j ps) s =
     (if j < length (sv_servers s)
      then do {
        kv \<leftarrow> StartKVServer dec (length (sv_servers s)) j ps (kv_maxraftstate (sv_servers s ! j));
        Some (s\<lparr>sv_servers := (sv_servers s)[j := kv], sv_epoch := (sv_epoch s)[j := sv_epoch s ! j + 1],
                sv_applied := (sv_applied s)[j := 0]\<rparr>)
      } else None)"
| "svc_do enc dec kenc kdec (RunSnapshot j k) s =
     (if j < length (sv_servers s)
      then do {
        (data, tmp) \<leftarrow> idx (kv_snaps (sv_servers s ! j)) (int k);
        kv \<leftarrow> run_snapshot enc k (sv_servers s ! j);
        Some (s\<lparr>sv_servers := (sv_servers s)[j := kv], sv_snaps := sv_snaps s @ [(data, nat (MsgCommandIndex tmp))]\<rparr>)
      } else None)"
| "svc_do enc dec kenc kdec (ReceiveSnapshot j i) s =
     (if j < length (sv_servers s) \<and> i < length (sv_snaps s)
      then let (data, m) = sv_snaps s ! i
           in do {
             kv \<leftarrow> handle_msg kenc kdec (snapshot_msg data) (sv_servers s ! j);
             Some (s\<lparr>sv_servers := (sv_servers s)[j := kv], sv_applied := (sv_applied s)[j := max (sv_applied s ! j) m]\<rparr>)
           }
      else None)"
| "svc_do enc dec kenc kdec (RaftMoves j rf) s =
     (if j < length (sv_servers s)
      then Some (s\<lparr>sv_servers := (sv_servers s)[j := (sv_servers s ! j)\<lparr>kv_rf := rf\<rparr>]\<rparr>) else None)"

text \<open>Every step has its own time.\<close>

definition svc_step ::
  "(Op, 'b) encoder \<Rightarrow> (Op, 'b) decoder \<Rightarrow> 'b kv_encoder \<Rightarrow> 'b kv_decoder \<Rightarrow> 'b svc_event
     \<Rightarrow> 'b service_state \<Rightarrow> 'b service_state option" where
  "svc_step enc dec kenc kdec ev s = map_option (\<lambda>t. t\<lparr>sv_time := sv_time s + 1\<rparr>) (svc_do enc dec kenc kdec ev s)"

text \<open>The steps in which Raft keeps its promise: a snapshot does not come after entries that it already covers.\<close>

fun in_order :: "'b svc_event \<Rightarrow> 'b service_state \<Rightarrow> bool" where
  "in_order (ReceiveSnapshot j i) s \<longleftrightarrow> i < length (sv_snaps s) \<and> sv_applied s ! j \<le> snd (sv_snaps s ! i)"
| "in_order ev s \<longleftrightarrow> True"

definition ordered_step ::
  "(Op, 'b) encoder \<Rightarrow> (Op, 'b) decoder \<Rightarrow> 'b kv_encoder \<Rightarrow> 'b kv_decoder \<Rightarrow> 'b svc_event
     \<Rightarrow> 'b service_state \<Rightarrow> 'b service_state option" where
  "ordered_step enc dec kenc kdec ev s = (if in_order ev s then svc_step enc dec kenc kdec ev s else None)"

definition fresh_service :: "'b service_state \<Rightarrow> bool" where
  "fresh_service s \<longleftrightarrow> sv_log s = [] \<and> sv_submitted s = [] \<and> sv_calls s = [] \<and> sv_replies s = [] \<and> sv_snaps s = []
     \<and> length (sv_epoch s) = length (sv_servers s) \<and> length (sv_applied s) = length (sv_servers s)
     \<and> (\<forall>j < length (sv_servers s). sv_applied s ! j = 0 \<and> kv_record (sv_servers s ! j) = Map.empty
          \<and> kv_history (sv_servers s ! j) = Map.empty \<and> kv_snaps (sv_servers s ! j) = [])"

text \<open>What the tests record of a call.\<close>

definition call_operation :: "clerk_call \<Rightarrow> kv_value Operation" where
  "call_operation x =
     \<lparr>Input = KvIn \<lparr>KvOp = (if cc_op x = GET then 0 else if cc_op x = PUT then 1 else 2), KvKey = cc_key x, KvValue = cc_value x\<rparr>,
      Call = int (cc_call x), Output = KvOut \<lparr>KvOutValue = (case cc_ret x of Some (t, v) \<Rightarrow> v | None \<Rightarrow> [])\<rparr>,
      Return = (case cc_ret x of Some (t, v) \<Rightarrow> int t | None \<Rightarrow> - 1)\<rparr>"

section \<open>States along a log\<close>

lemma state_at_0 [simp]: "state_at es 0 = (Map.empty, Map.empty)"
  by (simp add: state_at_def)

lemma state_at_Suc: "p < length es \<Longrightarrow> state_at es (Suc p) = sess_step (es ! p) (state_at es p)"
  by (simp add: state_at_def take_Suc_conv_app_nth)

lemma state_at_append: "p \<le> length es \<Longrightarrow> state_at (es @ fs) p = state_at es p"
  by (simp add: state_at_def)

lemma state_at_finite: "finite_maps (state_at es p)"
proof -
  have "finite_maps \<sigma> \<Longrightarrow> finite_maps (fold sess_step fs \<sigma>)" for fs \<sigma>
    by (induction fs arbitrary: \<sigma>) (simp_all add: sess_step_finite)
  then show ?thesis by (simp add: state_at_def finite_maps_pair)
qed

text \<open>The entry at position \<open>p\<close> is the one that executes a request of client \<open>c\<close> with number \<open>r\<close>, with reply \<open>y\<close>.\<close>

definition executes :: "Op list \<Rightarrow> nat \<Rightarrow> int \<Rightarrow> int \<Rightarrow> recent \<Rightarrow> bool" where
  "executes es p c r y \<longleftrightarrow> p < length es \<and> ClientId (es ! p) = c \<and> ReqId (es ! p) = r
     \<and> newer (es ! p) (snd (state_at es p)) \<and> y = spec_reply (es ! p) (fst (state_at es p))"

lemma executes_append: "executes es p c r y \<Longrightarrow> executes (es @ fs) p c r y"
  by (auto simp: executes_def nth_append state_at_append)

lemma sessions_executed:
  assumes "\<forall>e \<in> set es. known_op e" and "q \<le> length es" and "snd (state_at es q) c = Some y"
  shows "\<exists>p < q. executes es p c (rReqId y) y"
  using assms(2,3)
proof (induction q)
  case (Suc q)
  let ?e = "es ! q"
  have k: "known_op ?e" using assms(1) Suc.prems(1) by simp
  obtain st h where sh: "state_at es q = (st, h)" by fastforce
  have new: "snd (state_at es (Suc q)) = (if newer ?e h then h(ClientId ?e \<mapsto> spec_reply ?e st) else h)"
    using Suc.prems(1) k by (simp add: state_at_Suc sh sess_step_pair)
  show ?case
  proof (cases "newer ?e h \<and> ClientId ?e = c")
    case True
    then have "executes es q c (rReqId y) y"
      using Suc.prems new sh by (auto simp: executes_def spec_reply_def)
    then show ?thesis by blast
  next
    case False
    then have "snd (state_at es q) c = Some y" using Suc.prems(2) new sh by (auto split: if_splits)
    with Suc show ?thesis by (auto intro: less_SucI)
  qed
qed simp

lemma sessions_cover:
  assumes "\<forall>e \<in> set es. known_op e" and "q \<le> length es" and "p < q"
  shows "\<exists>y. snd (state_at es q) (ClientId (es ! p)) = Some y \<and> ReqId (es ! p) \<le> rReqId y"
  using assms(2,3)
proof (induction q)
  case (Suc q)
  let ?e = "es ! q" and ?c = "ClientId (es ! p)"
  have k: "known_op ?e" using assms(1) Suc.prems(1) by simp
  obtain st h where sh: "state_at es q = (st, h)" by fastforce
  have new: "snd (state_at es (Suc q)) = (if newer ?e h then h(ClientId ?e \<mapsto> spec_reply ?e st) else h)"
    using Suc.prems(1) k by (simp add: state_at_Suc sh sess_step_pair)
  show ?case
  proof (cases "p = q")
    case True
    then show ?thesis using new by (auto simp: newer_def spec_reply_def split: option.splits if_splits)
  next
    case False
    then obtain y where y: "h ?c = Some y" "ReqId (es ! p) \<le> rReqId y" using Suc sh by auto
    then show ?thesis using new by (auto simp: newer_def spec_reply_def split: option.splits if_splits)
  qed
qed simp

lemma executes_once:
  assumes "\<forall>e \<in> set es. known_op e" and "executes es p c r y" and "executes es q c r z"
  shows "p = q \<and> y = z"
proof -
  have "\<not> p < q" if "executes es p c r y" "executes es q c r z" for p q y z
  proof
    assume "p < q"
    with that sessions_cover [OF assms(1), of q p] obtain x where "snd (state_at es q) c = Some x" "r \<le> rReqId x"
      by (auto simp: executes_def)
    with that(2) show False by (auto simp: executes_def newer_def)
  qed
  then have "p = q" using assms(2,3) by (meson nat_neq_iff)
  then show ?thesis using assms(2,3) by (simp add: executes_def)
qed

text \<open>
  A session entry whose number is not below that of the client's last request is the reply to that request.
\<close>

lemma session_reply:
  assumes "\<forall>e \<in> set es. known_op e" and "q \<le> length es" and "snd (state_at es q) c = Some y" and "r \<le> rReqId y"
    and "\<forall>e \<in> set es. ClientId e = c \<longrightarrow> ReqId e \<le> r"
  shows "\<exists>p < q. executes es p c r y"
proof -
  obtain p where p: "p < q" "executes es p c (rReqId y) y" using sessions_executed [OF assms(1-3)] by blast
  then have "es ! p \<in> set es" "ClientId (es ! p) = c" "ReqId (es ! p) = rReqId y" by (auto simp: executes_def)
  with assms(4,5) have "rReqId y = r" by fastforce
  with p show ?thesis by auto
qed

section \<open>Accepted by the model of the checker\<close>

text \<open>The positions of a log that execute a request, and what they show the clients.\<close>

definition exec_positions :: "Op list \<Rightarrow> nat list" where
  "exec_positions es = filter (\<lambda>p. newer (es ! p) (snd (state_at es p))) [0..<length es]"

definition shown_io :: "Op list \<Rightarrow> nat \<Rightarrow> kv_value \<times> kv_value" where
  "shown_io es p = (kv_input (es ! p), kv_output (es ! p) (spec_reply (es ! p) (fst (state_at es p))))"

lemma accepts_from:
  assumes "\<forall>e \<in> set es. known_op e" and "q \<le> length es"
  shows "accepts_run StoreStep (store_view (fst (state_at es q)))
    (map (shown_io es) (filter (\<lambda>p. newer (es ! p) (snd (state_at es p))) [q..<length es]))"
  using assms(2)
proof (induction "length es - q" arbitrary: q)
  case (Suc n)
  let ?e = "es ! q"
  have q: "q < length es" using Suc.hyps(2) by simp
  have k: "known_op ?e" using assms(1) q by simp
  obtain st h where sh: "state_at es q = (st, h)" by fastforce
  have IH: "accepts_run StoreStep (store_view (fst (state_at es (Suc q))))
    (map (shown_io es) (filter (\<lambda>p. newer (es ! p) (snd (state_at es p))) [Suc q..<length es]))"
    using Suc.hyps(2) q by (intro Suc.hyps(1)) auto
  show ?case
  proof (cases "newer ?e h")
    case True
    with IH q k sh served_step [OF k, of st] show ?thesis
      by (simp add: upt_conv_Cons state_at_Suc sess_step_pair shown_io_def)
  next
    case False
    with IH q k sh show ?thesis by (simp add: upt_conv_Cons state_at_Suc sess_step_pair)
  qed
qed simp

lemma accepts_log:
  "\<forall>e \<in> set es. known_op e \<Longrightarrow> accepts_run StoreStep (\<lambda>k. []) (map (shown_io es) (exec_positions es))"
  using accepts_from [of es 0] by (simp add: exec_positions_def value_of_def)

section \<open>What the handlers do\<close>

text \<open>A value that a reply made from \<open>y\<close> can give a call of \<open>op\<close>.\<close>

definition shows_value :: "string \<Rightarrow> recent \<Rightarrow> string \<Rightarrow> bool" where
  "shows_value op y v \<longleftrightarrow>
     (if op = GET then rErr y = OK \<and> v = rResult y \<or> rErr y = ErrNoKey \<and> v = [] else v = [])"

lemma shows_spec_reply: "shows_value (Op e) (spec_reply e st) v \<Longrightarrow> v = rResult (spec_reply e st)"
  by (auto simp: shows_value_def spec_reply_def value_of_def kv_consts split: if_splits)

text \<open>The channels of \<open>kv'\<close> are those of \<open>kv\<close>, perhaps more, and hold nothing new.\<close>

definition chans_le :: "'b KVServer \<Rightarrow> 'b KVServer \<Rightarrow> bool" where
  "chans_le kv kv' \<longleftrightarrow> length (kv_chans kv) \<le> length (kv_chans kv')
     \<and> (\<forall>ch < length (kv_chans kv). \<forall>y. kv_chans kv' ! ch = Some y \<longrightarrow> kv_chans kv ! ch = Some y)"

lemma chans_le_refl: "chans_le kv kv"
  by (simp add: chans_le_def)

lemma chans_le_new: "kv_chans kv' = kv_chans kv @ [None] \<Longrightarrow> chans_le kv kv'"
  by (simp add: chans_le_def nth_append)

lemma map_sum_Inl: "map_sum f g x = Inl y \<longleftrightarrow> (\<exists>z. x = Inl z \<and> f z = y)"
  by (cases x) auto

lemma AppendEntryToLog_frame:
  "AppendEntryToLog enc e kv = Some (kv', b) \<Longrightarrow> kv_abs kv' = kv_abs kv \<and> kv_chans kv' = kv_chans kv"
  by (auto simp: AppendEntryToLog_def Option.bind_eq_Some_conv kv_abs_def)

lemma handle_request_snaps:
  "handle_request enc x kv = Some (kv', res) \<Longrightarrow> kv_snaps kv' = kv_snaps kv"
  by (auto simp: handle_request_def Get_begin_def PutAppend_begin_def make_chan_def AppendEntryToLog_def Let_def
      Option.bind_eq_Some_conv split: if_splits)

lemma finish_request_snaps: "finish_request e kv = Some (kv', rep) \<Longrightarrow> kv_snaps kv' = kv_snaps kv"
  by (auto simp: finish_request_def Get_end_def PutAppend_end_def chan_recv_def Option.bind_eq_Some_conv split: if_splits)

lemma run_snapshot_frame:
  assumes "run_snapshot enc k kv = Some kv'"
  shows "kv_abs kv' = kv_abs kv" and "kv_chans kv' = kv_chans kv" and "set (kv_snaps kv') \<subseteq> set (kv_snaps kv)"
  using assms by (auto simp: run_snapshot_def Option.bind_eq_Some_conv dest: in_set_takeD in_set_dropD)

lemma receive_snapshot:
  assumes "handle_msg kenc kdec (snapshot_msg data) kv = Some kv'"
  shows "kv_abs kv' = kdec data" and "kv_chans kv' = kv_chans kv" and "kv_snaps kv' = kv_snaps kv"
  using assms by (auto simp: handle_msg_def snapshot_msg_def kv_abs_def)

lemma handle_request_submits:
  assumes "handle_request enc x kv = Some (kv', Inr ch)"
  shows "kv_abs kv' = kv_abs kv" and "ch = length (kv_chans kv)" and "kv_chans kv' = kv_chans kv @ [None]"
proof -
  have "kv_abs kv' = kv_abs kv \<and> ch = length (kv_chans kv) \<and> kv_chans kv' = kv_chans kv @ [None]"
    using assms
    by (auto simp: handle_request_def Get_begin_def PutAppend_begin_def make_chan_def Let_def Option.bind_eq_Some_conv kv_abs_def
        dest!: AppendEntryToLog_frame split: if_splits sum.splits)
  then show "kv_abs kv' = kv_abs kv" and "ch = length (kv_chans kv)" and "kv_chans kv' = kv_chans kv @ [None]" by simp_all
qed

lemma Get_begin_replies:
  assumes "Get_begin enc args kv = Some (kv', Inl rep)"
  shows "kv_abs kv' = kv_abs kv" and "chans_le kv kv'"
    and "reply_value (GetR rep) = Some v \<Longrightarrow>
      \<exists>y. kv_history kv (gaClientId args) = Some y \<and> gaReqId args \<le> rReqId y \<and> shows_value GET y v"
proof -
  let ?old = "\<not> isUpToDate (gaClientId args) (gaReqId args) kv \<and> gaReqId args = rReqId (history_at (gaClientId args) kv)"
  have a: "kv_abs kv' = kv_abs kv \<and> chans_le kv kv'
    \<and> (\<forall>v. reply_value (GetR rep) = Some v \<longrightarrow> (\<exists>y. kv_history kv (gaClientId args) = Some y \<and> gaReqId args \<le> rReqId y \<and> shows_value GET y v))"
  proof (cases ?old)
    case True
    have "Get_begin enc args kv = Some (kv, Inl \<lparr>garWrongLeader = False, garErr = rErr (history_at (gaClientId args) kv),
        garValue = rResult (history_at (gaClientId args) kv)\<rparr>)"
      unfolding Get_begin_def Let_def by (rule if_P [OF True])
    then have "kv' = kv" "rep = \<lparr>garWrongLeader = False, garErr = rErr (history_at (gaClientId args) kv),
        garValue = rResult (history_at (gaClientId args) kv)\<rparr>"
      using assms by simp_all
    with True show ?thesis
      by (auto simp: isUpToDate_def history_at_def get_finish_def shows_value_def chans_le_refl split: option.splits if_splits)
  next
    case False
    then show ?thesis
      using assms
      by (auto simp: Get_begin_def make_chan_def Let_def Option.bind_eq_Some_conv kv_abs_def chans_le_new
          dest!: AppendEntryToLog_frame split: if_splits)
  qed
  then show "kv_abs kv' = kv_abs kv" and "chans_le kv kv'" by simp_all
  show "\<exists>y. kv_history kv (gaClientId args) = Some y \<and> gaReqId args \<le> rReqId y \<and> shows_value GET y v"
    if "reply_value (GetR rep) = Some v" using a that by blast
qed

lemma PutAppend_begin_replies:
  assumes "PutAppend_begin enc args kv = Some (kv', Inl rep)"
  shows "kv_abs kv' = kv_abs kv" and "chans_le kv kv'"
    and "reply_value (PutR rep) = Some v \<Longrightarrow>
      \<exists>y. kv_history kv (paClientId args) = Some y \<and> paReqId args \<le> rReqId y \<and> v = []"
proof -
  have a: "kv_abs kv' = kv_abs kv \<and> chans_le kv kv'
    \<and> (\<forall>v. reply_value (PutR rep) = Some v \<longrightarrow> (\<exists>y. kv_history kv (paClientId args) = Some y \<and> paReqId args \<le> rReqId y \<and> v = []))"
  proof (cases "isUpToDate (paClientId args) (paReqId args) kv")
    case True
    then show ?thesis
      using assms
      by (auto simp: PutAppend_begin_def make_chan_def Let_def Option.bind_eq_Some_conv kv_abs_def chans_le_new
          dest!: AppendEntryToLog_frame split: if_splits)
  next
    case False
    then show ?thesis
      using assms by (auto simp: PutAppend_begin_def put_finish_def isUpToDate_def chans_le_refl split: option.splits if_splits)
  qed
  then show "kv_abs kv' = kv_abs kv" and "chans_le kv kv'" by simp_all
  show "\<exists>y. kv_history kv (paClientId args) = Some y \<and> paReqId args \<le> rReqId y \<and> v = []"
    if "reply_value (PutR rep) = Some v" using a that by blast
qed

lemma handle_request_replies:
  assumes "handle_request enc x kv = Some (kv', Inl rep)"
  shows "kv_abs kv' = kv_abs kv \<and> chans_le kv kv'
    \<and> (\<forall>v. reply_value rep = Some v \<longrightarrow>
        (\<exists>y. kv_history kv (cc_client x) = Some y \<and> cc_id x \<le> rReqId y \<and> shows_value (cc_op x) y v))"
proof (cases "cc_op x = GET")
  case True
  then obtain r where r: "rep = GetR r"
    "Get_begin enc \<lparr>gaKey = cc_key x, gaClientId = cc_client x, gaReqId = cc_id x\<rparr> kv = Some (kv', Inl r)"
    using assms by (auto simp: handle_request_def Option.bind_eq_Some_conv map_sum_Inl)
  with Get_begin_replies [OF r(2)] True show ?thesis by simp
next
  case False
  then obtain r where r: "rep = PutR r"
    "PutAppend_begin enc \<lparr>paKey = cc_key x, paValue = cc_value x, paOp = cc_op x, paClientId = cc_client x, paReqId = cc_id x\<rparr> kv
      = Some (kv', Inl r)"
    using assms by (auto simp: handle_request_def Option.bind_eq_Some_conv map_sum_Inl)
  with PutAppend_begin_replies [OF r(2)] False show ?thesis by (simp add: shows_value_def)
qed

lemma finish_request_replies:
  assumes "finish_request e kv = Some (kv', rep)"
  shows "\<exists>ch y. ApplyChan e = Some ch \<and> ch < length (kv_chans kv) \<and> kv_chans kv ! ch = Some y
    \<and> kv' = kv\<lparr>kv_chans := (kv_chans kv)[ch := None]\<rparr> \<and> (\<forall>v. reply_value rep = Some v \<longrightarrow> shows_value (Op e) y v)"
  using assms
  by (auto simp: finish_request_def Get_end_def PutAppend_end_def chan_recv_def Option.bind_eq_Some_conv idx_eq_Some
      get_finish_def put_finish_def shows_value_def kv_consts split: if_splits)

lemma chans_le_recv: "chans_le kv (kv\<lparr>kv_chans := (kv_chans kv)[ch := None]\<rparr>)"
  by (auto simp: chans_le_def) (metis nth_list_update_eq nth_list_update_neq option.distinct(1))

lemma answer_chans:
  assumes "answer e kv = Some kv'"
  shows "kv_chans kv' = kv_chans kv
    \<or> (\<exists>ch. ApplyChan e = Some ch \<and> kv_chans kv' = (kv_chans kv)[ch := Some (history_at (ClientId e) kv')])"
  using assms by (auto simp: answer_def chan_send_def history_at_def split: option.splits if_splits)

lemma handle_msg_chans:
  assumes "handle_msg kenc kdec m kv = Some kv'" and "MsgCommand m = Some e" and "\<not> UseSnapshot m"
  shows "kv_chans kv' = kv_chans kv
    \<or> (\<exists>ch. ApplyChan e = Some ch \<and> kv_chans kv' = (kv_chans kv)[ch := Some (history_at (ClientId e) kv')])"
proof -
  obtain kv1 where kv1: "apply_op e kv = Some kv1" "kv_chans kv' = kv_chans kv1" "kv_history kv' = kv_history kv1"
    using assms by (auto simp: handle_msg_def Option.bind_eq_Some_conv split: if_splits)
  have "kv_chans kv1 = kv_chans kv
    \<or> (\<exists>ch. ApplyChan e = Some ch \<and> kv_chans kv1 = (kv_chans kv)[ch := Some (history_at (ClientId e) kv1)])"
    using kv1(1) answer_chans [of e kv kv1] answer_chans [of e "execute e kv" kv1] by (auto simp: apply_op_def split: if_splits)
  with kv1 show ?thesis by (simp add: history_at_def)
qed

text \<open>What a handler that waits has handed to Raft is the entry that the service counts as submitted.\<close>

lemma handle_request_starts:
  assumes "handle_request enc x kv = Some (kv', Inr ch)" and "valid_call (cc_op x) (cc_value x)"
  shows "\<exists>i t. Start enc (entry_for x ch) (kv_rf kv) = Some (kv_rf kv', i, t, True)"
  using assms
  by (auto simp: handle_request_def Get_begin_def PutAppend_begin_def make_chan_def AppendEntryToLog_def entry_for_def valid_call_def
      Let_def Option.bind_eq_Some_conv kv_consts split: if_splits sum.splits)

end
