(* ===== verification/Kv_Linearizable.thy ===== *)
theory Kv_Linearizable
  imports Kv_Service
begin

text \<open>
  The service of \<open>Kv_Service\<close> is linearizable. The invariant of its runs: the state of each server is that after the
  prefix of the log it has applied, a snapshot is the encoded state after the prefix it stands for, a client's requests enter the log one after the other, a value
  that waits in a channel or in a reply belongs to a call that has returned already or is the result of
  executing its request, and a call returns after its request was committed. So the log, restricted
  to the entries that execute a request, is a linearization of the calls, and the linearizability checker
  of the tests accepts their history.
\<close>

section \<open>The invariant\<close>

definition fits :: "clerk_call \<Rightarrow> Op \<Rightarrow> bool" where
  "fits x e \<longleftrightarrow> ClientId e = cc_client x \<and> ReqId e = cc_id x \<and> Op e = cc_op x \<and> Key e = cc_key x \<and> Value e = cc_value x"

definition earlier_call :: "clerk_call \<Rightarrow> clerk_call \<Rightarrow> bool" where
  "earlier_call x y \<longleftrightarrow> (cc_client x = cc_client y \<longrightarrow> cc_id x < cc_id y \<and> cc_ret x \<noteq> None)"

definition calls_ok :: "'b service_state \<Rightarrow> bool" where
  "calls_ok s \<longleftrightarrow> sorted_wrt earlier_call (sv_calls s)
     \<and> (\<forall>x \<in> set (sv_calls s). valid_call (cc_op x) (cc_value x) \<and> cc_call x < sv_time s)"

definition entries_ok :: "'b service_state \<Rightarrow> bool" where
  "entries_ok s \<longleftrightarrow> (\<forall>(e, j, ep) \<in> set (sv_submitted s). j < length (sv_servers s) \<and> ep \<le> sv_epoch s ! j
        \<and> (\<exists>x \<in> set (sv_calls s). fits x e))
     \<and> (\<forall>(en, t) \<in> set (sv_log s). en \<in> set (sv_submitted s) \<and> t < sv_time s
        \<and> (\<exists>x \<in> set (sv_calls s). fits x (fst en) \<and> cc_call x < t))
     \<and> sorted_wrt (<) (map snd (sv_log s))"

definition servers_ok :: "'b service_state \<Rightarrow> bool" where
  "servers_ok s \<longleftrightarrow> length (sv_epoch s) = length (sv_servers s) \<and> length (sv_applied s) = length (sv_servers s)
     \<and> (\<forall>j < length (sv_servers s). sv_applied s ! j \<le> length (sv_log s)
          \<and> kv_abs (sv_servers s ! j) = state_at (sv_ops s) (sv_applied s ! j))"

text \<open>The request has returned, or \<open>y\<close> is the reply of its execution.\<close>

definition returned :: "'b service_state \<Rightarrow> int \<Rightarrow> int \<Rightarrow> bool" where
  "returned s c r \<longleftrightarrow> (\<exists>x \<in> set (sv_calls s). cc_client x = c \<and> cc_id x = r \<and> cc_ret x \<noteq> None)"

definition resolved :: "'b service_state \<Rightarrow> int \<Rightarrow> int \<Rightarrow> recent \<Rightarrow> bool" where
  "resolved s c r y \<longleftrightarrow> returned s c r \<or> (\<exists>p. executes (sv_ops s) p c r y)"

definition chan_ok :: "'b service_state \<Rightarrow> log_entry \<Rightarrow> bool" where
  "chan_ok s = (\<lambda>(e, j, ep). ep = sv_epoch s ! j \<longrightarrow>
     (\<exists>ch. ApplyChan e = Some ch \<and> ch < length (kv_chans (sv_servers s ! j))
        \<and> (\<forall>y. kv_chans (sv_servers s ! j) ! ch = Some y \<longrightarrow> resolved s (ClientId e) (ReqId e) y)))"

definition chans_ok :: "'b service_state \<Rightarrow> bool" where
  "chans_ok s \<longleftrightarrow> (\<forall>en \<in> set (sv_submitted s). chan_ok s en)
     \<and> (\<forall>(e, o1) \<in> set (sv_submitted s). \<forall>(e', o2) \<in> set (sv_submitted s).
          o1 = o2 \<and> snd o1 = sv_epoch s ! fst o1 \<and> ApplyChan e = ApplyChan e' \<longrightarrow> e = e')"

definition replies_ok :: "'b service_state \<Rightarrow> bool" where
  "replies_ok s \<longleftrightarrow> (\<forall>((c, r), v) \<in> set (sv_replies s). \<exists>y. resolved s c r y \<and> v = rResult y)"

definition return_ok :: "'b service_state \<Rightarrow> clerk_call \<Rightarrow> bool" where
  "return_ok s x \<longleftrightarrow> (\<forall>t v. cc_ret x = Some (t, v) \<longrightarrow> t < sv_time s \<and> t \<notin> cc_call ` set (sv_calls s)
     \<and> (\<exists>p y. executes (sv_ops s) p (cc_client x) (cc_id x) y \<and> v = rResult y \<and> snd (sv_log s ! p) < t))"

definition returns_ok :: "'b service_state \<Rightarrow> bool" where
  "returns_ok s \<longleftrightarrow> (\<forall>x \<in> set (sv_calls s). return_ok s x)"

definition svc_ok :: "'b service_state \<Rightarrow> bool" where
  "svc_ok s \<longleftrightarrow> calls_ok s \<and> entries_ok s \<and> servers_ok s \<and> chans_ok s \<and> replies_ok s \<and> returns_ok s"

text \<open>The snapshots that servers want to save, and those that Raft was handed, are states after a prefix of the log.\<close>

definition snap_ok :: "'b kv_encoder \<Rightarrow> 'b service_state \<Rightarrow> 'b list \<Rightarrow> nat \<Rightarrow> bool" where
  "snap_ok kenc s d m \<longleftrightarrow> m \<le> length (sv_log s) \<and> d = kenc (state_at (sv_ops s) m)"

definition snaps_ok :: "'b kv_encoder \<Rightarrow> 'b service_state \<Rightarrow> bool" where
  "snaps_ok kenc s \<longleftrightarrow> (\<forall>(d, m) \<in> set (sv_snaps s). snap_ok kenc s d m)
     \<and> (\<forall>kv \<in> set (sv_servers s). \<forall>(d, t) \<in> set (kv_snaps kv). snap_ok kenc s d (nat (MsgCommandIndex t)))"

lemma svc_okI [intro]:
  "calls_ok s \<Longrightarrow> entries_ok s \<Longrightarrow> servers_ok s \<Longrightarrow> chans_ok s \<Longrightarrow> replies_ok s \<Longrightarrow> returns_ok s \<Longrightarrow> svc_ok s"
  by (simp add: svc_ok_def)

lemma svc_okD:
  assumes "svc_ok s"
  shows "calls_ok s" and "entries_ok s" and "servers_ok s" and "chans_ok s" and "replies_ok s" and "returns_ok s"
  using assms by (simp_all add: svc_ok_def)

subsection \<open>Consequences\<close>

lemma sorted_wrt_pair:
  "sorted_wrt P xs \<Longrightarrow> x \<in> set xs \<Longrightarrow> y \<in> set xs \<Longrightarrow> x = y \<or> P x y \<or> P y x"
  by (induction xs) auto

lemma same_call:
  assumes "calls_ok s" and "x \<in> set (sv_calls s)" and "y \<in> set (sv_calls s)" and "cc_client x = cc_client y" and "cc_id x = cc_id y"
  shows "x = y"
  using sorted_wrt_pair [of earlier_call "sv_calls s" x y] assms by (auto simp: calls_ok_def earlier_call_def)

lemma pending_last:
  assumes "calls_ok s" and "x \<in> set (sv_calls s)" and "y \<in> set (sv_calls s)" and "cc_client y = cc_client x" and "cc_ret x = None"
  shows "cc_id y \<le> cc_id x"
  using sorted_wrt_pair [of earlier_call "sv_calls s" x y] assms by (auto simp: calls_ok_def earlier_call_def)

lemma op_call:
  assumes "entries_ok s" and "e \<in> set (sv_ops s)"
  shows "\<exists>x \<in> set (sv_calls s). fits x e"
  using assms by (fastforce simp: entries_ok_def sv_ops_def)

lemma ops_known:
  assumes "calls_ok s" and "entries_ok s"
  shows "\<forall>e \<in> set (sv_ops s). known_op e"
proof
  fix e
  assume "e \<in> set (sv_ops s)"
  then obtain x where "x \<in> set (sv_calls s)" "fits x e" using op_call [OF assms(2)] by blast
  then show "known_op e" using assms(1) by (auto simp: calls_ok_def valid_call_def fits_def known_op_def)
qed

lemma executes_fits:
  assumes "calls_ok s" and "entries_ok s" and "executes (sv_ops s) p (cc_client x) (cc_id x) y" and "x \<in> set (sv_calls s)"
  shows "fits x (sv_ops s ! p)"
proof -
  have "sv_ops s ! p \<in> set (sv_ops s)" using assms(3) by (auto simp: executes_def)
  then obtain x' where x': "x' \<in> set (sv_calls s)" "fits x' (sv_ops s ! p)" using op_call [OF assms(2)] by blast
  then have "x' = x" using same_call [OF assms(1) x'(1) assms(4)] assms(3) by (simp add: executes_def fits_def)
  with x' show ?thesis by simp
qed

text \<open>A session entry for the client, not older than the request, resolves the request.\<close>

lemma session_resolves:
  assumes "calls_ok s" and "entries_ok s" and "x \<in> set (sv_calls s)" and "q \<le> length (sv_ops s)"
    and "snd (state_at (sv_ops s) q) (cc_client x) = Some y" and "cc_id x \<le> rReqId y"
  shows "resolved s (cc_client x) (cc_id x) y"
proof (cases "cc_ret x")
  case None
  have "\<forall>e \<in> set (sv_ops s). ClientId e = cc_client x \<longrightarrow> ReqId e \<le> cc_id x"
  proof (intro ballI impI)
    fix e
    assume e: "e \<in> set (sv_ops s)" "ClientId e = cc_client x"
    then obtain x' where "x' \<in> set (sv_calls s)" "fits x' e" using op_call [OF assms(2)] by blast
    with pending_last [OF assms(1,3) _ _ None] e show "ReqId e \<le> cc_id x" by (simp add: fits_def)
  qed
  from session_reply [OF ops_known [OF assms(1,2)] assms(4-6) this] show ?thesis by (auto simp: resolved_def)
qed (use assms(3) in \<open>auto simp: resolved_def returned_def\<close>)

text \<open>A value made from a reply that resolves a request is the value of a reply that does.\<close>

lemma shown_resolves:
  assumes "calls_ok s" and "entries_ok s" and "x \<in> set (sv_calls s)" and "resolved s (cc_client x) (cc_id x) y"
    and "shows_value (cc_op x) y v"
  shows "\<exists>z. resolved s (cc_client x) (cc_id x) z \<and> v = rResult z"
proof (cases "returned s (cc_client x) (cc_id x)")
  case True
  then show ?thesis by (intro exI [of _ "zero_recent\<lparr>rResult := v\<rparr>"]) (simp add: resolved_def)
next
  case False
  then obtain p where p: "executes (sv_ops s) p (cc_client x) (cc_id x) y" using assms(4) by (auto simp: resolved_def)
  from executes_fits [OF assms(1,2) p assms(3)] have "cc_op x = Op (sv_ops s ! p)" by (simp add: fits_def)
  with p assms(5) have "v = rResult y" using shows_spec_reply [of "sv_ops s ! p"] by (simp add: executes_def)
  with assms(4) show ?thesis by blast
qed

subsection \<open>Growth\<close>

text \<open>What a step may do to the log and to the calls: calls may be added and may return.\<close>

definition same_request :: "clerk_call \<Rightarrow> clerk_call \<Rightarrow> bool" where
  "same_request x y \<longleftrightarrow> cc_client y = cc_client x \<and> cc_id y = cc_id x \<and> cc_op y = cc_op x \<and> cc_key y = cc_key x
     \<and> cc_value y = cc_value x \<and> cc_call y = cc_call x"

lemma same_request_refl [simp]: "same_request x x"
  by (simp add: same_request_def)

definition grows :: "'b service_state \<Rightarrow> 'b service_state \<Rightarrow> bool" where
  "grows s t \<longleftrightarrow> (\<exists>ls. sv_log t = sv_log s @ ls)
     \<and> (\<forall>x \<in> set (sv_calls s). \<exists>y \<in> set (sv_calls t). same_request x y \<and> (cc_ret x \<noteq> None \<longrightarrow> y = x))
     \<and> (\<forall>y \<in> set (sv_calls t). cc_call y \<in> cc_call ` set (sv_calls s) \<or> sv_time s \<le> cc_call y)
     \<and> sv_time s \<le> sv_time t"

lemma grows_same: "sv_log t = sv_log s \<Longrightarrow> sv_calls t = sv_calls s \<Longrightarrow> sv_time s \<le> sv_time t \<Longrightarrow> grows s t"
  unfolding grows_def by (metis append_Nil2 image_eqI same_request_refl)

lemma grows_ops: "grows s t \<Longrightarrow> \<exists>fs. sv_ops t = sv_ops s @ fs"
  by (auto simp: grows_def sv_ops_def)

lemma grows_resolved: "grows s t \<Longrightarrow> resolved s c r y \<Longrightarrow> resolved t c r y"
proof -
  assume g: "grows s t" and "resolved s c r y"
  then consider "returned s c r" | p where "executes (sv_ops s) p c r y" by (auto simp: resolved_def)
  then show "resolved t c r y"
  proof cases
    case 1
    then obtain x where x: "x \<in> set (sv_calls s)" "cc_client x = c" "cc_id x = r" "cc_ret x \<noteq> None" by (auto simp: returned_def)
    with g have "x \<in> set (sv_calls t)" by (auto simp: grows_def)
    with x show ?thesis by (auto simp: resolved_def returned_def)
  next
    case 2
    with grows_ops [OF g] show ?thesis by (metis executes_append resolved_def)
  qed
qed

lemma grows_fits:
  "grows s t \<Longrightarrow> x \<in> set (sv_calls s) \<Longrightarrow> \<exists>y \<in> set (sv_calls t). (\<forall>e. fits y e = fits x e) \<and> cc_call y = cc_call x"
  unfolding grows_def same_request_def fits_def by fastforce

lemma grows_replies: "grows s t \<Longrightarrow> replies_ok s \<Longrightarrow> sv_replies t = sv_replies s \<Longrightarrow> replies_ok t"
  unfolding replies_ok_def using grows_resolved by fastforce

lemma grows_submitted:
  assumes "grows s t" and "entries_ok s" and "sv_submitted t = sv_submitted s" and "sv_log t = sv_log s"
    and "length (sv_servers t) = length (sv_servers s)" and "\<forall>j < length (sv_servers s). sv_epoch s ! j \<le> sv_epoch t ! j"
  shows "entries_ok t"
proof -
  have "sv_time s \<le> sv_time t" using assms(1) by (simp add: grows_def)
  moreover have "j < length (sv_servers t) \<and> ep \<le> sv_epoch t ! j \<and> (\<exists>x \<in> set (sv_calls t). fits x e)"
    if "(e, j, ep) \<in> set (sv_submitted t)" for e j ep
    using assms that grows_fits [OF assms(1)] unfolding entries_ok_def by (fastforce intro: order_trans)
  moreover have "\<exists>x \<in> set (sv_calls t). fits x (fst en) \<and> cc_call x < c" if "(en, c) \<in> set (sv_log t)" for en c
    using assms that grows_fits [OF assms(1)] unfolding entries_ok_def by fastforce
  ultimately show ?thesis using assms unfolding entries_ok_def by fastforce
qed

text \<open>Steps that put nothing new into a channel keep what holds of the channels.\<close>

lemma grows_chans:
  assumes "grows s t" and "chans_ok s" and "entries_ok s" and "sv_submitted t = sv_submitted s" and "sv_epoch t = sv_epoch s"
    and "\<forall>j < length (sv_servers s). chans_le (sv_servers s ! j) (sv_servers t ! j)"
  shows "chans_ok t"
proof -
  have "chan_ok t en" if en: "en \<in> set (sv_submitted t)" for en
  proof -
    obtain e j ep where [simp]: "en = (e, j, ep)" by (cases en)
    have j: "j < length (sv_servers s)" using assms(3,4) en by (auto simp: entries_ok_def)
    have "chan_ok s en" using assms(2,4) en by (simp add: chans_ok_def)
    with assms(5,6) j grows_resolved [OF assms(1)] show ?thesis
      unfolding chan_ok_def by (fastforce simp: chans_le_def)
  qed
  with assms(2,4,5) show ?thesis by (simp add: chans_ok_def)
qed

lemma grows_return:
  assumes "grows s t" and "return_ok s x"
  shows "return_ok t x"
  unfolding return_ok_def
proof (intro allI impI)
  fix u v
  assume "cc_ret x = Some (u, v)"
  then obtain p y where u: "u < sv_time s" "u \<notin> cc_call ` set (sv_calls s)"
    and p: "executes (sv_ops s) p (cc_client x) (cc_id x) y" "v = rResult y" "snd (sv_log s ! p) < u"
    using assms(2) by (auto simp: return_ok_def)
  obtain ls where ls: "sv_log t = sv_log s @ ls" "sv_time s \<le> sv_time t" using assms(1) by (auto simp: grows_def)
  have "p < length (sv_log s)" using p(1) by (simp add: executes_def sv_ops_def)
  then have "snd (sv_log t ! p) = snd (sv_log s ! p)" using ls by (simp add: nth_append)
  moreover have "executes (sv_ops t) p (cc_client x) (cc_id x) y" using grows_ops [OF assms(1)] executes_append [OF p(1)] by auto
  moreover have "u \<notin> cc_call ` set (sv_calls t)" using assms(1) u by (fastforce simp: grows_def)
  ultimately show "u < sv_time t \<and> u \<notin> cc_call ` set (sv_calls t) \<and> (\<exists>p y. executes (sv_ops t) p (cc_client x) (cc_id x) y \<and> v = rResult y \<and> snd (sv_log t ! p) < u)"
    using u(1) p ls(2) by (auto intro!: exI [of _ p])
qed

lemma grows_returns: "grows s t \<Longrightarrow> returns_ok s \<Longrightarrow> sv_calls t = sv_calls s \<Longrightarrow> returns_ok t"
  using grows_return by (auto simp: returns_ok_def)

subsection \<open>Steps\<close>

lemma sv_ops_cong: "sv_log t = sv_log s \<Longrightarrow> sv_ops t = sv_ops s"
  by (simp add: sv_ops_def)

text \<open>A server changes, and puts nothing new into its channels.\<close>

lemma server_step:
  assumes "svc_ok s" and "j < length (sv_servers s)" and "q \<le> length (sv_log s)" and "kv_abs kv = state_at (sv_ops s) q"
    and "chans_le (sv_servers s ! j) kv"
  shows "svc_ok (s\<lparr>sv_servers := (sv_servers s)[j := kv], sv_applied := (sv_applied s)[j := q], sv_time := sv_time s + 1\<rparr>)"
    (is "svc_ok ?t")
proof
  note ok = svc_okD [OF assms(1)]
  have g: "grows s ?t" by (rule grows_same) simp_all
  have ops: "sv_ops ?t = sv_ops s" by (rule sv_ops_cong) simp
  show "calls_ok ?t" using ok(1) by (auto simp: calls_ok_def less_Suc_eq)
  show "entries_ok ?t" by (rule grows_submitted [OF g ok(2)]) simp_all
  show "servers_ok ?t" using ok(3) assms(2,3,4) unfolding servers_ok_def ops by (auto simp: nth_list_update)
  have "\<forall>i < length (sv_servers s). chans_le (sv_servers s ! i) (sv_servers ?t ! i)"
    using assms(2,5) by (auto simp: nth_list_update chans_le_refl)
  then show "chans_ok ?t" by (intro grows_chans [OF g ok(4,2)]) simp_all
  show "replies_ok ?t" by (rule grows_replies [OF g ok(5)]) simp
  show "returns_ok ?t" by (rule grows_returns [OF g ok(6)]) simp
qed

lemma svc_ok_snaps: "svc_ok s \<Longrightarrow> svc_ok (s\<lparr>sv_snaps := ss\<rparr>)"
  by (simp add: svc_ok_def calls_ok_def entries_ok_def servers_ok_def chans_ok_def chan_ok_def replies_ok_def returns_ok_def
      return_ok_def resolved_def returned_def sv_ops_def)

text \<open>A reply that resolves its request is kept.\<close>

lemma reply_step:
  assumes "svc_ok s" and "\<forall>v. reply_value rep = Some v \<longrightarrow> (\<exists>y. resolved s c r y \<and> v = rResult y)"
  shows "svc_ok (put_reply c r rep s)"
proof (cases "reply_value rep")
  case (Some v)
  let ?t = "s\<lparr>sv_replies := sv_replies s @ [((c, r), v)]\<rparr>"
  note ok = svc_okD [OF assms(1)]
  have g: "grows s ?t" by (rule grows_same) simp_all
  have ops: "sv_ops ?t = sv_ops s" by (rule sv_ops_cong) simp
  have res: "resolved ?t = resolved s" by (simp add: resolved_def returned_def ops fun_eq_iff)
  have "svc_ok ?t"
  proof
    show "calls_ok ?t" using ok(1) by (simp add: calls_ok_def)
    show "entries_ok ?t" by (rule grows_submitted [OF g ok(2)]) simp_all
    show "servers_ok ?t" using ok(3) unfolding servers_ok_def ops by simp
    show "chans_ok ?t" by (rule grows_chans [OF g ok(4,2)]) (simp_all add: chans_le_refl)
    show "replies_ok ?t" using ok(5) assms(2) Some unfolding replies_ok_def res by auto
    show "returns_ok ?t" by (rule grows_returns [OF g ok(6)]) simp
  qed
  then show ?thesis by (simp add: put_reply_def Some)
qed (use assms(1) in \<open>simp add: put_reply_def\<close>)

lemma submit_step:
  assumes "svc_ok s" and "j < length (sv_servers s)" and "x \<in> set (sv_calls s)"
    and "ch < length (kv_chans (sv_servers s ! j))" and "kv_chans (sv_servers s ! j) ! ch = None"
    and "\<forall>(e, i, ep) \<in> set (sv_submitted s). i = j \<and> ep = sv_epoch s ! j \<longrightarrow> ApplyChan e \<noteq> Some ch"
  shows "svc_ok (s\<lparr>sv_submitted := sv_submitted s @ [(entry_for x ch, j, sv_epoch s ! j)]\<rparr>)" (is "svc_ok ?t")
proof
  note ok = svc_okD [OF assms(1)]
  have g: "grows s ?t" by (rule grows_same) simp_all
  have ops: "sv_ops ?t = sv_ops s" by (rule sv_ops_cong) simp
  have res: "resolved ?t = resolved s" by (simp add: resolved_def returned_def ops fun_eq_iff)
  have chan: "chan_ok ?t en \<longleftrightarrow> chan_ok s en" for en by (simp add: chan_ok_def res split: prod.split)
  show "calls_ok ?t" using ok(1) by (simp add: calls_ok_def)
  have "fits x (entry_for x ch)" by (simp add: fits_def entry_for_def)
  then show "entries_ok ?t" using ok(2) assms(2,3) by (fastforce simp: entries_ok_def)
  show "servers_ok ?t" using ok(3) unfolding servers_ok_def ops by simp
  have "chan_ok s (entry_for x ch, j, sv_epoch s ! j)" using assms(4,5) by (simp add: chan_ok_def entry_for_def)
  then have "\<forall>en \<in> set (sv_submitted ?t). chan_ok ?t en" using ok(4) unfolding chan by (auto simp: chans_ok_def)
  moreover have "\<forall>(e, o1) \<in> set (sv_submitted ?t). \<forall>(e', o2) \<in> set (sv_submitted ?t).
      o1 = o2 \<and> snd o1 = sv_epoch ?t ! fst o1 \<and> ApplyChan e = ApplyChan e' \<longrightarrow> e = e'"
    using ok(4) assms(6) by (fastforce simp: chans_ok_def entry_for_def)
  ultimately show "chans_ok ?t" by (simp add: chans_ok_def)
  show "replies_ok ?t" by (rule grows_replies [OF g ok(5)]) simp
  show "returns_ok ?t" by (rule grows_returns [OF g ok(6)]) simp
qed

lemma commit_step:
  assumes "svc_ok s" and "en \<in> set (sv_submitted s)"
  shows "svc_ok (s\<lparr>sv_log := sv_log s @ [(en, sv_time s)], sv_time := sv_time s + 1\<rparr>)" (is "svc_ok ?t")
proof
  note ok = svc_okD [OF assms(1)]
  have g: "grows s ?t" unfolding grows_def using same_request_refl by fastforce
  show "calls_ok ?t" using ok(1) by (auto simp: calls_ok_def less_Suc_eq)
  obtain x where "x \<in> set (sv_calls s)" "fits x (fst en)" using ok(2) assms(2) by (cases en) (fastforce simp: entries_ok_def)
  then have "\<exists>x \<in> set (sv_calls s). fits x (fst en) \<and> cc_call x < sv_time s" using ok(1) by (auto simp: calls_ok_def)
  then show "entries_ok ?t" using ok(2) assms(2) by (fastforce simp: entries_ok_def sorted_wrt_append less_Suc_eq)
  show "servers_ok ?t" using ok(3) by (auto simp: servers_ok_def sv_ops_def state_at_append)
  show "chans_ok ?t" by (rule grows_chans [OF g ok(4,2)]) (simp_all add: chans_le_refl)
  show "replies_ok ?t" by (rule grows_replies [OF g ok(5)]) simp
  show "returns_ok ?t" by (rule grows_returns [OF g ok(6)]) simp
qed

lemma call_step:
  assumes "svc_ok s" and "valid_call op v" and "\<forall>x \<in> set (sv_calls s). cc_client x = c \<longrightarrow> cc_id x < r \<and> cc_ret x \<noteq> None"
  shows "svc_ok (s\<lparr>sv_calls := sv_calls s @ [\<lparr>cc_client = c, cc_id = r, cc_op = op, cc_key = key, cc_value = v,
                     cc_call = sv_time s, cc_ret = None\<rparr>], sv_time := sv_time s + 1\<rparr>)" (is "svc_ok ?t")
proof
  note ok = svc_okD [OF assms(1)]
  have g: "grows s ?t" unfolding grows_def using same_request_refl by fastforce
  have ops: "sv_ops ?t = sv_ops s" by (rule sv_ops_cong) simp
  show "calls_ok ?t" using ok(1) assms(2,3) by (auto simp: calls_ok_def sorted_wrt_append earlier_call_def less_Suc_eq)
  show "entries_ok ?t" by (rule grows_submitted [OF g ok(2)]) simp_all
  show "servers_ok ?t" using ok(3) unfolding servers_ok_def ops by simp
  show "chans_ok ?t" by (rule grows_chans [OF g ok(4,2)]) (simp_all add: chans_le_refl)
  show "replies_ok ?t" by (rule grows_replies [OF g ok(5)]) simp
  have "return_ok ?t x" if "cc_ret x = None" for x using that by (simp add: return_ok_def)
  then show "returns_ok ?t" using ok(6) grows_return [OF g] by (auto simp: returns_ok_def)
qed

text \<open>A call that returns.\<close>

lemma update_mem: "z \<in> set (xs[k := y]) \<Longrightarrow> z \<in> set xs \<or> z = y"
  using set_update_subset_insert by fastforce

lemma grows_returned:
  assumes "k < length (sv_calls s)" and "cc_ret (sv_calls s ! k) = None"
  shows "grows s (s\<lparr>sv_calls := (sv_calls s)[k := (sv_calls s ! k)\<lparr>cc_ret := Some r\<rparr>], sv_time := sv_time s + 1\<rparr>)"
proof -
  let ?x = "sv_calls s ! k" and ?y = "(sv_calls s ! k)\<lparr>cc_ret := Some r\<rparr>"
  have same: "same_request ?x ?y" by (simp add: same_request_def)
  have "\<exists>y \<in> set ((sv_calls s)[k := ?y]). same_request z y \<and> (cc_ret z \<noteq> None \<longrightarrow> y = z)" if z: "z \<in> set (sv_calls s)" for z
  proof -
    obtain i where i: "i < length (sv_calls s)" "z = sv_calls s ! i" using z by (metis in_set_conv_nth)
    then have "(sv_calls s)[k := ?y] ! i \<in> set ((sv_calls s)[k := ?y])" by simp
    with i same assms show ?thesis by (cases "i = k") (auto intro!: bexI [of _ "(sv_calls s)[k := ?y] ! i"])
  qed
  moreover have "cc_call z \<in> cc_call ` set (sv_calls s)" if "z \<in> set ((sv_calls s)[k := ?y])" for z
    using update_mem [OF that] assms(1) by (metis image_eqI nth_mem same same_request_def)
  ultimately show ?thesis by (simp add: grows_def)
qed

text \<open>A reply to a call that has not returned is the result of its execution.\<close>

lemma pending_reply:
  assumes "svc_ok s" and "x \<in> set (sv_calls s)" and "cc_ret x = None" and "((cc_client x, cc_id x), v) \<in> set (sv_replies s)"
  shows "\<exists>p y. executes (sv_ops s) p (cc_client x) (cc_id x) y \<and> v = rResult y \<and> snd (sv_log s ! p) < sv_time s"
proof -
  note ok = svc_okD [OF assms(1)]
  have "\<not> returned s (cc_client x) (cc_id x)"
    using same_call [OF ok(1) _ assms(2)] assms(3) by (fastforce simp: returned_def)
  then obtain p y where p: "executes (sv_ops s) p (cc_client x) (cc_id x) y" "v = rResult y"
    using ok(5) assms(4) unfolding replies_ok_def resolved_def by fastforce
  then have "sv_log s ! p \<in> set (sv_log s)" by (simp add: executes_def sv_ops_def)
  then have "snd (sv_log s ! p) < sv_time s" using ok(2) unfolding entries_ok_def by (metis (mono_tags, lifting) case_prodD prod.collapse)
  with p show ?thesis by blast
qed

lemma return_step:
  assumes "svc_ok s" and "k < length (sv_calls s)" and "((cc_client (sv_calls s ! k), cc_id (sv_calls s ! k)), v) \<in> set (sv_replies s)"
    and "cc_ret (sv_calls s ! k) = None"
  shows "svc_ok (s\<lparr>sv_calls := (sv_calls s)[k := (sv_calls s ! k)\<lparr>cc_ret := Some (sv_time s, v)\<rparr>], sv_time := sv_time s + 1\<rparr>)"
    (is "svc_ok ?t")
proof
  let ?x = "sv_calls s ! k" and ?y = "(sv_calls s ! k)\<lparr>cc_ret := Some (sv_time s, v)\<rparr>"
  note ok = svc_okD [OF assms(1)]
  have x: "?x \<in> set (sv_calls s)" using assms(2) by simp
  have g: "grows s ?t" by (rule grows_returned [OF assms(2,4)])
  have ops: "sv_ops ?t = sv_ops s" by (rule sv_ops_cong) simp
  have "sorted_wrt earlier_call ((sv_calls s)[k := ?y])"
    using ok(1) assms(2) by (auto simp: calls_ok_def sorted_wrt_iff_nth_less earlier_call_def nth_list_update)
  moreover have calls: "valid_call (cc_op z) (cc_value z) \<and> cc_call z < sv_time s" if "z \<in> set ((sv_calls s)[k := ?y])" for z
    using update_mem [OF that] ok(1) x by (auto simp: calls_ok_def)
  ultimately show "calls_ok ?t" by (simp add: calls_ok_def less_SucI)
  show "entries_ok ?t" by (rule grows_submitted [OF g ok(2)]) simp_all
  show "servers_ok ?t" using ok(3) unfolding servers_ok_def ops by simp
  show "chans_ok ?t" by (rule grows_chans [OF g ok(4,2)]) (simp_all add: chans_le_refl)
  show "replies_ok ?t" by (rule grows_replies [OF g ok(5)]) simp
  have "sv_time s \<notin> cc_call ` set (sv_calls ?t)" using calls by fastforce
  then have "return_ok ?t ?y" using pending_reply [OF assms(1) x assms(4,3)] unfolding return_ok_def ops by auto
  then show "returns_ok ?t" using ok(6) grows_return [OF g] by (auto simp: returns_ok_def dest!: update_mem)
qed

lemma restart_step:
  assumes "svc_ok s" and "j < length (sv_servers s)" and "kv_abs kv = (Map.empty, Map.empty)"
  shows "svc_ok (s\<lparr>sv_servers := (sv_servers s)[j := kv], sv_epoch := (sv_epoch s)[j := sv_epoch s ! j + 1],
           sv_applied := (sv_applied s)[j := 0], sv_time := sv_time s + 1\<rparr>)" (is "svc_ok ?t")
proof
  note ok = svc_okD [OF assms(1)]
  have g: "grows s ?t" by (rule grows_same) simp_all
  have ops: "sv_ops ?t = sv_ops s" by (rule sv_ops_cong) simp
  have len: "length (sv_epoch s) = length (sv_servers s)" using ok(3) by (simp add: servers_ok_def)
  show "calls_ok ?t" using ok(1) by (auto simp: calls_ok_def less_Suc_eq)
  show "entries_ok ?t" by (rule grows_submitted [OF g ok(2)]) (auto simp: nth_list_update len assms(2))
  show "servers_ok ?t" using ok(3) assms(2,3) unfolding servers_ok_def ops by (auto simp: nth_list_update)
  have other: "i \<noteq> j" if "(e, i, ep) \<in> set (sv_submitted s)" "ep = sv_epoch ?t ! i" for e i ep
    using that ok(2) assms(2) len by (fastforce simp: entries_ok_def)
  have "chan_ok ?t en" if en: "en \<in> set (sv_submitted s)" for en
  proof -
    obtain e i ep where [simp]: "en = (e, i, ep)" by (cases en)
    have "chan_ok s en" using ok(4) en by (simp add: chans_ok_def)
    then show ?thesis using other [of e i ep] en grows_resolved [OF g] by (fastforce simp: chan_ok_def)
  qed
  moreover have "e = e'" if "(e, o1) \<in> set (sv_submitted s)" "(e', o1) \<in> set (sv_submitted s)" "snd o1 = sv_epoch ?t ! fst o1"
    "ApplyChan e = ApplyChan e'" for e e' o1
  proof -
    obtain i ep where [simp]: "o1 = (i, ep)" by (cases o1)
    have "i \<noteq> j" using other that(1,3) by simp
    then show ?thesis using ok(4) that unfolding chans_ok_def by fastforce
  qed
  ultimately show "chans_ok ?t" by (fastforce simp: chans_ok_def)
  show "replies_ok ?t" by (rule grows_replies [OF g ok(5)]) simp
  show "returns_ok ?t" by (rule grows_returns [OF g ok(6)]) simp
qed

lemma fill_step:
  assumes "svc_ok s" and "(e, j, sv_epoch s ! j) \<in> set (sv_submitted s)" and "ApplyChan e = Some ch"
    and "resolved s (ClientId e) (ReqId e) y"
  shows "svc_ok (s\<lparr>sv_servers := (sv_servers s)[j := (sv_servers s ! j)\<lparr>kv_chans := (kv_chans (sv_servers s ! j))[ch := Some y]\<rparr>]\<rparr>)"
    (is "svc_ok ?t")
proof
  note ok = svc_okD [OF assms(1)]
  have g: "grows s ?t" by (rule grows_same) simp_all
  have ops: "sv_ops ?t = sv_ops s" by (rule sv_ops_cong) simp
  have res: "resolved ?t = resolved s" by (simp add: resolved_def returned_def ops fun_eq_iff)
  have j: "j < length (sv_servers s)" using ok(2) assms(2) by (auto simp: entries_ok_def)
  show "calls_ok ?t" using ok(1) by (simp add: calls_ok_def)
  show "entries_ok ?t" by (rule grows_submitted [OF g ok(2)]) simp_all
  show "servers_ok ?t" using ok(3) j unfolding servers_ok_def ops by (auto simp: nth_list_update)
  have "chan_ok ?t en" if en: "en \<in> set (sv_submitted s)" for en
  proof -
    obtain e' i ep where [simp]: "en = (e', i, ep)" by (cases en)
    have en_ok: "chan_ok s en" using ok(4) en by (simp add: chans_ok_def)
    show ?thesis
    proof (cases "i = j \<and> ep = sv_epoch s ! j \<and> ApplyChan e' = Some ch")
      case True
      then have "e' = e" using ok(4) en assms(2,3) unfolding chans_ok_def by fastforce
      with True en_ok assms(4) j show ?thesis by (auto simp: chan_ok_def res)
    next
      case False
      then show ?thesis using en_ok j by (cases "i = j") (auto simp: chan_ok_def res)
    qed
  qed
  then show "chans_ok ?t" using ok(4) by (simp add: chans_ok_def)
  show "replies_ok ?t" by (rule grows_replies [OF g ok(5)]) simp
  show "returns_ok ?t" by (rule grows_returns [OF g ok(6)]) simp
qed

lemma applied_abs:
  assumes "svc_ok s" and "j < length (sv_servers s)" and "q = sv_applied s ! j" and "q < length (sv_log s)"
    and "handle_msg kenc kdec (entry_msg s j q) (sv_servers s ! j) = Some kv"
  shows "kv_abs kv = state_at (sv_ops s) (Suc q)"
proof -
  obtain e i ep where en: "fst (sv_log s ! q) = (e, i, ep)" by (metis prod.collapse)
  have e: "sv_ops s ! q = e" and q: "q < length (sv_ops s)" using assms(4) en by (simp_all add: sv_ops_def)
  have "kv_abs (sv_servers s ! j) = state_at (sv_ops s) q" using svc_okD(3) [OF assms(1)] assms(2,3) by (simp add: servers_ok_def)
  then show ?thesis
    using handle_msg_abs [OF assms(5)] by (simp add: entry_msg_def en msg_step_def sess_step_dropChan state_at_Suc [OF q] e)
qed

text \<open>What the server has in its session of the client, once the entry is applied, resolves the request.\<close>

lemma applied_resolves:
  assumes "svc_ok s" and "q < length (sv_log s)" and "kv_abs kv = state_at (sv_ops s) (Suc q)" and "sv_ops s ! q = e"
  shows "resolved s (ClientId e) (ReqId e) (history_at (ClientId e) kv)"
proof -
  note ok = svc_okD [OF assms(1)]
  have q: "q < length (sv_ops s)" using assms(2) by (simp add: sv_ops_def)
  then have "e \<in> set (sv_ops s)" using assms(4) by auto
  then obtain x where x: "x \<in> set (sv_calls s)" "fits x e" using op_call [OF ok(2)] by blast
  obtain y where y: "snd (state_at (sv_ops s) (Suc q)) (ClientId e) = Some y" "ReqId e \<le> rReqId y"
    using sessions_cover [OF ops_known [OF ok(1,2)], of "Suc q" q] q assms(4) by auto
  have "kv_history kv = snd (state_at (sv_ops s) (Suc q))" using assms(3) by (metis kv_abs_def snd_conv)
  with y have "history_at (ClientId e) kv = y" by (simp add: history_at_def)
  then show ?thesis using session_resolves [OF ok(1,2) x(1), of "Suc q" y] y q x(2) by (simp add: fits_def)
qed

lemma apply_step:
  assumes "svc_ok s" and "j < length (sv_servers s)" and "sv_applied s ! j < length (sv_log s)"
    and "handle_msg kenc kdec (entry_msg s j (sv_applied s ! j)) (sv_servers s ! j) = Some kv"
  shows "svc_ok (s\<lparr>sv_servers := (sv_servers s)[j := kv], sv_applied := (sv_applied s)[j := sv_applied s ! j + 1],
           sv_time := sv_time s + 1\<rparr>)"
proof -
  let ?q = "sv_applied s ! j" and ?old = "sv_servers s ! j"
  obtain e i ep where en: "fst (sv_log s ! ?q) = (e, i, ep)" by (metis prod.collapse)
  let ?e = "if i = j \<and> ep = sv_epoch s ! j then e else dropChan e" and ?kv0 = "kv\<lparr>kv_chans := kv_chans ?old\<rparr>"
  have e: "sv_ops s ! ?q = e" using assms(3) en by (simp add: sv_ops_def)
  have m: "MsgCommand (entry_msg s j ?q) = Some ?e" "\<not> UseSnapshot (entry_msg s j ?q)" by (simp_all add: entry_msg_def en)
  note abs = applied_abs [OF assms(1,2) refl assms(3,4)]
  let ?t0 = "s\<lparr>sv_servers := (sv_servers s)[j := ?kv0], sv_applied := (sv_applied s)[j := Suc ?q], sv_time := sv_time s + 1\<rparr>"
  have t0: "svc_ok ?t0" using server_step [OF assms(1,2), of "Suc ?q" ?kv0] assms(3) abs by (simp add: chans_le_def)
  from handle_msg_chans [OF assms(4) m] show ?thesis
  proof
    assume "kv_chans kv = kv_chans ?old"
    then have "?kv0 = kv" by simp
    with t0 show ?thesis by simp
  next
    assume "\<exists>ch. ApplyChan ?e = Some ch \<and> kv_chans kv = (kv_chans ?old)[ch := Some (history_at (ClientId ?e) kv)]"
    then obtain ch where ch: "ApplyChan ?e = Some ch" "kv_chans kv = (kv_chans ?old)[ch := Some (history_at (ClientId e) kv)]" by auto
    then have here: "i = j" "ep = sv_epoch s ! j" and chan: "ApplyChan e = Some ch" by (auto split: if_splits)
    have sub: "(e, i, ep) \<in> set (sv_submitted s)"
      using svc_okD(2) [OF assms(1)] assms(3) en unfolding entries_ok_def by (metis (mono_tags, lifting) case_prodD nth_mem prod.collapse)
    have "grows s ?t0" by (rule grows_same) simp_all
    from fill_step [OF t0 _ chan grows_resolved [OF this applied_resolves [OF assms(1,3) abs e]], of j] sub here assms(2)
    have "svc_ok (?t0\<lparr>sv_servers := (sv_servers s)[j := kv\<lparr>kv_chans := kv_chans kv\<rparr>]\<rparr>)" unfolding ch(2) by simp
    moreover have "?t0\<lparr>sv_servers := (sv_servers s)[j := kv\<lparr>kv_chans := kv_chans kv\<rparr>]\<rparr>
      = s\<lparr>sv_servers := (sv_servers s)[j := kv], sv_applied := (sv_applied s)[j := ?q + 1], sv_time := sv_time s + 1\<rparr>" by simp
    ultimately show ?thesis by (rule back_subst [of svc_ok])
  qed
qed

text \<open>A server that answers a request, at once or from its channel.\<close>

lemma answered_step:
  assumes "svc_ok s" and "j < length (sv_servers s)" and "kv_abs kv = kv_abs (sv_servers s ! j)" and "chans_le (sv_servers s ! j) kv"
    and "x \<in> set (sv_calls s)" and "\<forall>v. reply_value rep = Some v \<longrightarrow>
      (\<exists>y. resolved s (cc_client x) (cc_id x) y \<and> shows_value (cc_op x) y v)"
  shows "svc_ok ((put_reply (cc_client x) (cc_id x) rep (s\<lparr>sv_servers := (sv_servers s)[j := kv]\<rparr>))\<lparr>sv_time := sv_time s + 1\<rparr>)"
proof -
  note ok = svc_okD [OF assms(1)]
  let ?t = "s\<lparr>sv_servers := (sv_servers s)[j := kv], sv_time := sv_time s + 1\<rparr>"
  have "kv_abs kv = state_at (sv_ops s) (sv_applied s ! j)" "sv_applied s ! j \<le> length (sv_log s)"
    using ok(3) assms(2,3) by (simp_all add: servers_ok_def)
  from server_step [OF assms(1,2) this(2,1) assms(4)] have t: "svc_ok ?t" by simp
  have "grows s ?t" by (rule grows_same) simp_all
  have "\<exists>z. resolved ?t (cc_client x) (cc_id x) z \<and> v = rResult z" if v: "reply_value rep = Some v" for v
  proof -
    obtain y where y: "resolved s (cc_client x) (cc_id x) y" "shows_value (cc_op x) y v" using assms(6) v by blast
    show ?thesis
      using shown_resolves [OF svc_okD(1,2) [OF t] _ grows_resolved [OF \<open>grows s ?t\<close> y(1)] y(2)] assms(5) by simp
  qed
  then have "svc_ok (put_reply (cc_client x) (cc_id x) rep ?t)" by (intro reply_step [OF t]) blast
  moreover have "put_reply (cc_client x) (cc_id x) rep ?t
      = (put_reply (cc_client x) (cc_id x) rep (s\<lparr>sv_servers := (sv_servers s)[j := kv]\<rparr>))\<lparr>sv_time := sv_time s + 1\<rparr>"
    by (simp add: put_reply_def split: option.split)
  ultimately show ?thesis by simp
qed

lemma deliver_step:
  assumes "svc_ok s" and "svc_do enc dec kenc kdec (Deliver k j) s = Some t"
  shows "svc_ok (t\<lparr>sv_time := sv_time s + 1\<rparr>)"
proof -
  note ok = svc_okD [OF assms(1)]
  let ?x = "sv_calls s ! k" and ?old = "sv_servers s ! j"
  obtain kv res where kv: "handle_request enc ?x ?old = Some (kv, res)" and bounds: "k < length (sv_calls s)" "j < length (sv_servers s)"
    and t: "t = (case res of Inl rep \<Rightarrow> put_reply (cc_client ?x) (cc_id ?x) rep (s\<lparr>sv_servers := (sv_servers s)[j := kv]\<rparr>)
      | Inr ch \<Rightarrow> s\<lparr>sv_servers := (sv_servers s)[j := kv], sv_submitted := sv_submitted s @ [(entry_for ?x ch, j, sv_epoch s ! j)]\<rparr>)"
    using assms(2) by (auto simp: Let_def Option.bind_eq_Some_conv split: if_splits)
  have x: "?x \<in> set (sv_calls s)" using bounds(1) by simp
  have old: "kv_abs ?old = state_at (sv_ops s) (sv_applied s ! j)" and q: "sv_applied s ! j \<le> length (sv_log s)"
    using ok(3) bounds(2) by (simp_all add: servers_ok_def)
  show ?thesis
  proof (cases res)
    case (Inl rep)
    note h = handle_request_replies [OF kv [unfolded Inl]]
    have hist: "kv_history ?old = snd (state_at (sv_ops s) (sv_applied s ! j))" using old by (metis kv_abs_def snd_conv)
    have "\<exists>y. resolved s (cc_client ?x) (cc_id ?x) y \<and> shows_value (cc_op ?x) y v" if "reply_value rep = Some v" for v
      using h that session_resolves [OF ok(1,2) x, of "sv_applied s ! j"] q unfolding hist by (auto simp: sv_ops_def)
    with answered_step [OF assms(1) bounds(2) _ _ x, of kv rep] h t Inl show ?thesis by simp
  next
    case (Inr ch)
    note h = handle_request_submits [OF kv [unfolded Inr]]
    let ?t1 = "s\<lparr>sv_servers := (sv_servers s)[j := kv], sv_time := sv_time s + 1\<rparr>"
    have t1: "svc_ok ?t1"
      using server_step [OF assms(1) bounds(2) q _ chans_le_new [OF h(3)]] h(1) old by simp
    have "\<forall>(e, i, ep) \<in> set (sv_submitted s). i = j \<and> ep = sv_epoch s ! j \<longrightarrow> ApplyChan e \<noteq> Some ch"
      using ok(4) h(2) by (fastforce simp: chans_ok_def chan_ok_def)
    then have "svc_ok (?t1\<lparr>sv_submitted := sv_submitted ?t1 @ [(entry_for ?x ch, j, sv_epoch ?t1 ! j)]\<rparr>)"
      using bounds h by (intro submit_step [OF t1]) simp_all
    moreover have "?t1\<lparr>sv_submitted := sv_submitted ?t1 @ [(entry_for ?x ch, j, sv_epoch ?t1 ! j)]\<rparr> = t\<lparr>sv_time := sv_time s + 1\<rparr>"
      using t Inr by simp
    ultimately show ?thesis by (rule back_subst [of svc_ok])
  qed
qed

lemma finish_step:
  assumes "svc_ok s" and "svc_do enc dec kenc kdec (FinishCall i) s = Some t"
  shows "svc_ok (t\<lparr>sv_time := sv_time s + 1\<rparr>)"
proof -
  note ok = svc_okD [OF assms(1)]
  obtain e j ep where en: "sv_submitted s ! i = (e, j, ep)" by (cases "sv_submitted s ! i")
  obtain kv rep where i: "i < length (sv_submitted s)" "ep = sv_epoch s ! j" and kv: "finish_request e (sv_servers s ! j) = Some (kv, rep)"
    and t: "t = put_reply (ClientId e) (ReqId e) rep (s\<lparr>sv_servers := (sv_servers s)[j := kv]\<rparr>)"
    using assms(2) en by (auto simp: Option.bind_eq_Some_conv split: if_splits)
  have sub: "(e, j, ep) \<in> set (sv_submitted s)" using i en by (metis nth_mem)
  then obtain x where x: "x \<in> set (sv_calls s)" "fits x e" and j: "j < length (sv_servers s)" using ok(2) by (fastforce simp: entries_ok_def)
  obtain ch y where ch: "ApplyChan e = Some ch" "kv_chans (sv_servers s ! j) ! ch = Some y"
    and k: "kv = (sv_servers s ! j)\<lparr>kv_chans := (kv_chans (sv_servers s ! j))[ch := None]\<rparr>"
    and v: "\<forall>v. reply_value rep = Some v \<longrightarrow> shows_value (Op e) y v"
    using finish_request_replies [OF kv] by blast
  have "chan_ok s (e, j, ep)" using ok(4) sub by (simp add: chans_ok_def)
  then have y: "resolved s (ClientId e) (ReqId e) y" using ch i(2) by (simp add: chan_ok_def)
  have "chans_le (sv_servers s ! j) kv" unfolding k by (rule chans_le_recv)
  moreover have "kv_abs kv = kv_abs (sv_servers s ! j)" by (simp add: k)
  ultimately show ?thesis using answered_step [OF assms(1) j _ _ x(1), of kv rep] x(2) y v t by (auto simp: fits_def)
qed

text \<open>Handing a snapshot to Raft changes neither the store nor the channels.\<close>

lemma run_snapshot_step:
  assumes "svc_ok s" and "svc_do enc dec kenc kdec (RunSnapshot j k) s = Some t"
  shows "svc_ok (t\<lparr>sv_time := sv_time s + 1\<rparr>)"
proof -
  note ok = svc_okD [OF assms(1)]
  obtain d m kv where kv: "run_snapshot enc k (sv_servers s ! j) = Some kv" "j < length (sv_servers s)"
    and "idx (kv_snaps (sv_servers s ! j)) (int k) = Some (d, m)"
    and t: "t = s\<lparr>sv_servers := (sv_servers s)[j := kv], sv_snaps := sv_snaps s @ [(d, nat (MsgCommandIndex m))]\<rparr>"
    using assms(2) by (auto simp: Option.bind_eq_Some_conv split: if_splits)
  note f = run_snapshot_frame [OF kv(1)]
  have "svc_ok (s\<lparr>sv_servers := (sv_servers s)[j := kv], sv_applied := (sv_applied s)[j := sv_applied s ! j], sv_time := sv_time s + 1\<rparr>)"
    using ok(3) kv(2) f(1,2) by (intro server_step [OF assms(1)]) (auto simp: servers_ok_def chans_le_def)
  then have "svc_ok (s\<lparr>sv_servers := (sv_servers s)[j := kv], sv_time := sv_time s + 1,
      sv_snaps := sv_snaps s @ [(d, nat (MsgCommandIndex m))]\<rparr>)"
    using svc_ok_snaps [of "s\<lparr>sv_servers := (sv_servers s)[j := kv], sv_time := sv_time s + 1\<rparr>"] by simp
  moreover have "s\<lparr>sv_servers := (sv_servers s)[j := kv], sv_time := sv_time s + 1, sv_snaps := sv_snaps s @ [(d, nat (MsgCommandIndex m))]\<rparr>
    = t\<lparr>sv_time := sv_time s + 1\<rparr>" using t by simp
  ultimately show ?thesis by (rule back_subst [of svc_ok])
qed

text \<open>The state that a server gets from a snapshot is the one after the prefix of the log that the snapshot stands for.\<close>

lemma receive_snapshot_step:
  assumes "svc_ok s" and "snaps_ok kenc s" and "svc_do enc dec kenc kdec (ReceiveSnapshot j i) s = Some t"
    and "reads_back kenc kdec" and "in_order (ReceiveSnapshot j i) s"
  shows "svc_ok (t\<lparr>sv_time := sv_time s + 1\<rparr>)"
proof -
  obtain d m where dm: "sv_snaps s ! i = (d, m)" by fastforce
  obtain kv where kv: "handle_msg kenc kdec (snapshot_msg d) (sv_servers s ! j) = Some kv"
    and j: "j < length (sv_servers s)" "i < length (sv_snaps s)"
    and t: "t = s\<lparr>sv_servers := (sv_servers s)[j := kv], sv_applied := (sv_applied s)[j := max (sv_applied s ! j) m]\<rparr>"
    using assms(3) dm by (auto simp: Option.bind_eq_Some_conv split: if_splits)
  have m: "max (sv_applied s ! j) m = m" using assms(5) dm by simp
  have "(d, m) \<in> set (sv_snaps s)" using dm j(2) by (metis nth_mem)
  then have snap: "m \<le> length (sv_log s)" "d = kenc (state_at (sv_ops s) m)" using assms(2) by (auto simp: snaps_ok_def snap_ok_def)
  have "kdec d = state_at (sv_ops s) m" unfolding snap(2) by (rule reads_backD [OF assms(4) state_at_finite])
  with server_step [OF assms(1) j(1) snap(1), of kv] receive_snapshot [OF kv] show ?thesis
    unfolding t m by (simp add: chans_le_def)
qed

lemma svc_ok_step:
  assumes "svc_step enc dec kenc kdec ev s = Some u" and "svc_ok s" and "snaps_ok kenc s" and "reads_back kenc kdec" and "in_order ev s"
  shows "svc_ok u"
proof -
  obtain t where t: "svc_do enc dec kenc kdec ev s = Some t" "u = t\<lparr>sv_time := sv_time s + 1\<rparr>"
    using assms(1) by (auto simp: svc_step_def)
  note ok = svc_okD [OF assms(2)]
  show ?thesis
  proof (cases ev)
    case (ClerkCall c r op key v)
    then show ?thesis using t call_step [OF assms(2), of op v c r key] by (auto split: if_splits)
  next
    case (CommitEntry i)
    then show ?thesis using t commit_step [OF assms(2), of "sv_submitted s ! i"] by (auto split: if_splits)
  next
    case (ApplyEntry j)
    then show ?thesis using t apply_step [OF assms(2), of j kenc kdec] by (auto simp: Option.bind_eq_Some_conv split: if_splits)
  next
    case (ReturnCall k i)
    then show ?thesis
      using t return_step [OF assms(2), of k] by (auto simp: Let_def split: if_splits prod.splits) (metis nth_mem)
  next
    case (RestartServer j ps)
    then show ?thesis using t restart_step [OF assms(2), of j] by (auto simp: Option.bind_eq_Some_conv StartKVServer_def kv_abs_def split: if_splits)
  next
    case (RunSnapshot j k)
    then show ?thesis using t run_snapshot_step [OF assms(2)] by blast
  next
    case (ReceiveSnapshot j i)
    then show ?thesis using t receive_snapshot_step [OF assms(2,3) _ assms(4)] assms(5) by blast
  next
    case (RaftMoves j rf)
    then show ?thesis
      using t server_step [OF assms(2), of j "sv_applied s ! j"] ok(3) by (auto simp: servers_ok_def chans_le_def split: if_splits)
  next
    case (Deliver k j)
    then show ?thesis using t deliver_step [OF assms(2)] by blast
  next
    case (FinishCall i)
    then show ?thesis using t finish_step [OF assms(2)] by blast
  qed
qed

lemma svc_ok_fresh: "fresh_service s \<Longrightarrow> svc_ok s"
  by (auto simp: fresh_service_def svc_ok_def calls_ok_def entries_ok_def servers_ok_def chans_ok_def replies_ok_def returns_ok_def
      kv_abs_def)

subsection \<open>Snapshots\<close>

text \<open>Steps that want and hand over no new snapshot.\<close>

lemma snap_ok_grows: "snap_ok kenc s d m \<Longrightarrow> sv_log t = sv_log s @ ls \<Longrightarrow> snap_ok kenc t d m"
  by (simp add: snap_ok_def sv_ops_def state_at_append)

lemma snaps_ok_update:
  assumes "snaps_ok kenc s" and "sv_log t = sv_log s @ ls" and "sv_snaps t = sv_snaps s" and "sv_servers t = (sv_servers s)[j := kv]"
    and "\<And>d m. (d, m) \<in> set (kv_snaps kv) \<Longrightarrow> snap_ok kenc t d (nat (MsgCommandIndex m))"
  shows "snaps_ok kenc t"
  unfolding snaps_ok_def
proof (intro conjI ballI)
  show "case z of (d, m) \<Rightarrow> snap_ok kenc t d m" if "z \<in> set (sv_snaps t)" for z
    using that assms(1,3) snap_ok_grows [OF _ assms(2)] by (fastforce simp: snaps_ok_def)
  show "case z of (d, m) \<Rightarrow> snap_ok kenc t d (nat (MsgCommandIndex m))" if "kw \<in> set (sv_servers t)" "z \<in> set (kv_snaps kw)" for kw z
    using that assms(1,4,5) snap_ok_grows [OF _ assms(2)] by (fastforce simp: snaps_ok_def dest!: update_mem)
qed

lemma snaps_ok_same:
  assumes "snaps_ok kenc s" and "sv_log t = sv_log s @ ls" and "sv_snaps t = sv_snaps s" and "sv_servers t = sv_servers s"
  shows "snaps_ok kenc t"
  using assms snap_ok_grows [OF _ assms(2)] by (fastforce simp: snaps_ok_def)

lemma snaps_ok_server:
  assumes "snaps_ok kenc s" and "sv_log t = sv_log s" and "sv_snaps t = sv_snaps s" and "sv_servers t = (sv_servers s)[j := kv]"
    and "j < length (sv_servers s)" and "set (kv_snaps kv) \<subseteq> set (kv_snaps (sv_servers s ! j))"
  shows "snaps_ok kenc t"
proof -
  have log: "sv_log t = sv_log s @ []" using assms(2) by simp
  show ?thesis
    using assms(1,5,6) snap_ok_grows [OF _ log] nth_mem [OF assms(5)]
    by (intro snaps_ok_update [OF assms(1) log assms(3,4)]) (fastforce simp: snaps_ok_def)
qed

lemma put_reply_frame [simp]:
  "sv_log (put_reply c r rep s) = sv_log s" "sv_snaps (put_reply c r rep s) = sv_snaps s"
  "sv_servers (put_reply c r rep s) = sv_servers s"
  by (simp_all add: put_reply_def split: option.split)

text \<open>A snapshot that a server wants after an entry is the state after the log up to this entry.\<close>

lemma snaps_ok_apply:
  assumes "snaps_ok kenc s" and "svc_ok s" and "svc_do enc dec kenc kdec (ApplyEntry j) s = Some t"
  shows "snaps_ok kenc t"
proof -
  let ?q = "sv_applied s ! j"
  obtain kv where j: "j < length (sv_servers s)" "?q < length (sv_log s)"
    and kv: "handle_msg kenc kdec (entry_msg s j ?q) (sv_servers s ! j) = Some kv"
    and t: "t = s\<lparr>sv_servers := (sv_servers s)[j := kv], sv_applied := (sv_applied s)[j := ?q + 1]\<rparr>"
    using assms(3) by (auto simp: Option.bind_eq_Some_conv split: if_splits)
  have ops: "sv_ops t = sv_ops s" by (rule sv_ops_cong) (simp add: t)
  have "snap_ok kenc t d (nat (MsgCommandIndex m))" if dm: "(d, m) \<in> set (kv_snaps kv)" for d m
    using handle_msg_snaps [OF kv dm]
  proof
    assume "(d, m) \<in> set (kv_snaps (sv_servers s ! j))"
    then have "snap_ok kenc s d (nat (MsgCommandIndex m))" using assms(1) j(1) by (fastforce simp: snaps_ok_def)
    then show ?thesis unfolding snap_ok_def ops by (simp add: t)
  next
    assume m: "m = entry_msg s j ?q \<and> d = kenc (kv_abs kv)"
    have "nat (MsgCommandIndex (entry_msg s j ?q)) = Suc ?q" by (simp add: entry_msg_def nat_add_distrib split: prod.split)
    with m applied_abs [OF assms(2) j(1) refl j(2) kv] j(2) show ?thesis unfolding snap_ok_def ops by (simp add: t)
  qed
  then show ?thesis by (intro snaps_ok_update [OF assms(1), of t "[]" j kv]) (simp_all add: t)
qed

lemma snaps_ok_do:
  assumes "svc_do enc dec kenc kdec ev s = Some t" and "snaps_ok kenc s" and "svc_ok s"
  shows "snaps_ok kenc t"
proof (cases ev)
  case (ClerkCall c r op key v)
  with assms(1) have "sv_log t = sv_log s @ []" "sv_snaps t = sv_snaps s" "sv_servers t = sv_servers s" by (auto split: if_splits)
  then show ?thesis by (rule snaps_ok_same [OF assms(2)])
next
  case (CommitEntry i)
  with assms(1) have "sv_log t = sv_log s @ [(sv_submitted s ! i, sv_time s)]" "sv_snaps t = sv_snaps s" "sv_servers t = sv_servers s"
    by (auto split: if_splits)
  then show ?thesis by (rule snaps_ok_same [OF assms(2)])
next
  case (ReturnCall k i)
  with assms(1) have "sv_log t = sv_log s @ []" "sv_snaps t = sv_snaps s" "sv_servers t = sv_servers s"
    by (auto simp: Let_def split: if_splits prod.splits)
  then show ?thesis by (rule snaps_ok_same [OF assms(2)])
next
  case (ApplyEntry j)
  with assms show ?thesis using snaps_ok_apply by blast
next
  case (Deliver k j)
  let ?x = "sv_calls s ! k"
  obtain kv res where kv: "handle_request enc ?x (sv_servers s ! j) = Some (kv, res)" "j < length (sv_servers s)"
    and t: "t = (case res of Inl rep \<Rightarrow> put_reply (cc_client ?x) (cc_id ?x) rep (s\<lparr>sv_servers := (sv_servers s)[j := kv]\<rparr>)
      | Inr ch \<Rightarrow> s\<lparr>sv_servers := (sv_servers s)[j := kv], sv_submitted := sv_submitted s @ [(entry_for ?x ch, j, sv_epoch s ! j)]\<rparr>)"
    using assms(1) Deliver by (auto simp: Let_def Option.bind_eq_Some_conv split: if_splits)
  have "sv_servers t = (sv_servers s)[j := kv]" "sv_log t = sv_log s" "sv_snaps t = sv_snaps s"
    unfolding t by (simp_all split: sum.split)
  then show ?thesis using kv handle_request_snaps [OF kv(1)] by (intro snaps_ok_server [OF assms(2)]) auto
next
  case (FinishCall i)
  obtain e j ep where en: "sv_submitted s ! i = (e, j, ep)" by (cases "sv_submitted s ! i")
  then obtain kv rep where kv: "i < length (sv_submitted s)" "finish_request e (sv_servers s ! j) = Some (kv, rep)"
    "sv_servers t = (sv_servers s)[j := kv]" "sv_log t = sv_log s" "sv_snaps t = sv_snaps s"
    using FinishCall assms(1) by (auto simp: Option.bind_eq_Some_conv split: if_splits)
  moreover have "j < length (sv_servers s)"
    using svc_okD(2) [OF assms(3)] nth_mem [OF kv(1)] en by (auto simp: entries_ok_def)
  ultimately show ?thesis using finish_request_snaps [OF kv(2)] by (intro snaps_ok_server [OF assms(2)]) auto
next
  case (RestartServer j ps)
  with assms(1) obtain kv where "sv_servers t = (sv_servers s)[j := kv]" "kv_snaps kv = []" "j < length (sv_servers s)"
    "sv_log t = sv_log s" "sv_snaps t = sv_snaps s"
    by (auto simp: Option.bind_eq_Some_conv StartKVServer_def split: if_splits)
  then show ?thesis by (intro snaps_ok_server [OF assms(2)]) auto
next
  case (RaftMoves j rf)
  with assms(1) show ?thesis by (intro snaps_ok_server [OF assms(2)]) (auto split: if_splits)
next
  case (ReceiveSnapshot j i)
  then obtain d m kv where kv: "handle_msg kenc kdec (snapshot_msg d) (sv_servers s ! j) = Some kv" "j < length (sv_servers s)"
    "sv_servers t = (sv_servers s)[j := kv]" "sv_log t = sv_log s" "sv_snaps t = sv_snaps s"
    using assms(1) by (auto simp: Option.bind_eq_Some_conv Let_def split: if_splits prod.splits)
  then show ?thesis using receive_snapshot(3) [OF kv(1)] by (intro snaps_ok_server [OF assms(2)]) auto
next
  case (RunSnapshot j k)
  then obtain d m kv where dm: "idx (kv_snaps (sv_servers s ! j)) (int k) = Some (d, m)" and j: "j < length (sv_servers s)"
    and kv: "run_snapshot enc k (sv_servers s ! j) = Some kv"
    and t: "t = s\<lparr>sv_servers := (sv_servers s)[j := kv], sv_snaps := sv_snaps s @ [(d, nat (MsgCommandIndex m))]\<rparr>"
    using assms(1) by (auto simp: Option.bind_eq_Some_conv split: if_splits)
  have "snaps_ok kenc (s\<lparr>sv_servers := (sv_servers s)[j := kv]\<rparr>)"
    by (rule snaps_ok_server [OF assms(2) _ _ _ j run_snapshot_frame(3) [OF kv]]) simp_all
  moreover have "snap_ok kenc s d (nat (MsgCommandIndex m))"
    using assms(2) idx_mem [OF dm] nth_mem [OF j] by (fastforce simp: snaps_ok_def)
  ultimately show ?thesis by (simp add: t snaps_ok_def snap_ok_def sv_ops_def)
qed

definition svc_inv :: "'b kv_encoder \<Rightarrow> 'b service_state \<Rightarrow> bool" where
  "svc_inv kenc s \<longleftrightarrow> svc_ok s \<and> snaps_ok kenc s"

lemma svc_inv_step:
  assumes "ordered_step enc dec kenc kdec ev s = Some u" and "reads_back kenc kdec" and "svc_inv kenc s"
  shows "svc_inv kenc u"
proof -
  have step: "svc_step enc dec kenc kdec ev s = Some u" "in_order ev s" using assms(1) by (auto simp: ordered_step_def split: if_splits)
  then obtain t where t: "svc_do enc dec kenc kdec ev s = Some t" "u = t\<lparr>sv_time := sv_time s + 1\<rparr>" by (auto simp: svc_step_def)
  have inv: "svc_ok s" "snaps_ok kenc s" using assms(3) by (simp_all add: svc_inv_def)
  have "snaps_ok kenc u" unfolding t(2) using snaps_ok_do [OF t(1) inv(2,1)] by (rule snaps_ok_same [where ls = "[]"]) simp_all
  with svc_ok_step [OF step(1) inv assms(2) step(2)] show ?thesis by (simp add: svc_inv_def)
qed

lemma svc_inv_fresh: "fresh_service s \<Longrightarrow> svc_inv kenc s"
  using svc_ok_fresh by (auto simp: svc_inv_def snaps_ok_def fresh_service_def in_set_conv_nth)

interpretation service: invariant_machine "ordered_step enc dec kenc kdec" "\<lambda>ev. reads_back kenc kdec" "svc_inv kenc" for enc dec kenc kdec
  by unfold_locales (rule svc_inv_step)

section \<open>Histories\<close>

text \<open>The position at which the request of a call that has returned was executed.\<close>

definition call_pos :: "'b service_state \<Rightarrow> clerk_call \<Rightarrow> nat" where
  "call_pos s x = (SOME p. \<exists>y. executes (sv_ops s) p (cc_client x) (cc_id x) y)"

lemma call_pos:
  assumes "svc_ok s" and "x \<in> set (sv_calls s)" and "cc_ret x = Some (t, v)"
  shows "executes (sv_ops s) (call_pos s x) (cc_client x) (cc_id x) (spec_reply (sv_ops s ! call_pos s x) (fst (state_at (sv_ops s) (call_pos s x))))"
    and "v = rResult (spec_reply (sv_ops s ! call_pos s x) (fst (state_at (sv_ops s) (call_pos s x))))"
    and "snd (sv_log s ! call_pos s x) < t" and "fits x (sv_ops s ! call_pos s x)"
    and "cc_call x < snd (sv_log s ! call_pos s x)" and "t \<notin> cc_call ` set (sv_calls s)"
proof -
  note ok = svc_okD [OF assms(1)]
  have known: "\<forall>e \<in> set (sv_ops s). known_op e" by (rule ops_known [OF ok(1,2)])
  obtain p y where p: "executes (sv_ops s) p (cc_client x) (cc_id x) y" "v = rResult y" "snd (sv_log s ! p) < t"
    and "t \<notin> cc_call ` set (sv_calls s)"
    using ok(6) assms(2,3) unfolding returns_ok_def return_ok_def by blast
  then show "t \<notin> cc_call ` set (sv_calls s)" by blast
  have "\<exists>p y. executes (sv_ops s) p (cc_client x) (cc_id x) y" using p(1) by blast
  then have "\<exists>y. executes (sv_ops s) (call_pos s x) (cc_client x) (cc_id x) y" unfolding call_pos_def by (rule someI_ex)
  then obtain z where z: "executes (sv_ops s) (call_pos s x) (cc_client x) (cc_id x) z" by blast
  with executes_once [OF known z p(1)] have eq: "call_pos s x = p" "z = y" by simp_all
  have y: "y = spec_reply (sv_ops s ! p) (fst (state_at (sv_ops s) p))" using p(1) by (simp add: executes_def)
  with p eq show "executes (sv_ops s) (call_pos s x) (cc_client x) (cc_id x) (spec_reply (sv_ops s ! call_pos s x) (fst (state_at (sv_ops s) (call_pos s x))))"
    and "v = rResult (spec_reply (sv_ops s ! call_pos s x) (fst (state_at (sv_ops s) (call_pos s x))))"
    and "snd (sv_log s ! call_pos s x) < t" by simp_all
  show f: "fits x (sv_ops s ! call_pos s x)" unfolding eq using executes_fits [OF ok(1,2) p(1) assms(2)] .
  have len: "p < length (sv_log s)" using p(1) by (simp add: executes_def sv_ops_def)
  then have "(fst (sv_log s ! p), snd (sv_log s ! p)) \<in> set (sv_log s)" by simp
  then obtain x' where x': "x' \<in> set (sv_calls s)" "fits x' (fst (fst (sv_log s ! p)))" "cc_call x' < snd (sv_log s ! p)"
    using ok(2) unfolding entries_ok_def by blast
  have "fst (fst (sv_log s ! p)) = sv_ops s ! p" using len by (simp add: sv_ops_def)
  with x' f eq have "x' = x" using same_call [OF ok(1) x'(1) assms(2)] by (simp add: fits_def)
  with x'(3) eq show "cc_call x < snd (sv_log s ! call_pos s x)" by simp
qed

text \<open>The calls, in the order in which the log executes them.\<close>

definition exec_order :: "'b service_state \<Rightarrow> clerk_call list" where
  "exec_order s = sort_key (call_pos s) (sv_calls s)"

lemma exec_order_positions:
  assumes "svc_ok s" and "\<forall>x \<in> set (sv_calls s). cc_ret x \<noteq> None"
  shows "map (call_pos s) (exec_order s) = exec_positions (sv_ops s)"
proof -
  note ok = svc_okD [OF assms(1)]
  have ret: "\<exists>t v. cc_ret x = Some (t, v)" if "x \<in> set (sv_calls s)" for x using assms(2) that by fastforce
  have "x = y" if xy: "x \<in> set (sv_calls s)" "y \<in> set (sv_calls s)" "call_pos s x = call_pos s y" for x y
  proof -
    obtain t v u w where "cc_ret x = Some (t, v)" "cc_ret y = Some (u, w)" using ret xy by blast
    with call_pos(4) [OF assms(1) xy(1)] call_pos(4) [OF assms(1) xy(2)] xy show ?thesis
      by (intro same_call [OF ok(1)]) (auto simp: fits_def)
  qed
  then have inj: "inj_on (call_pos s) (set (sv_calls s))" by (auto simp: inj_on_def)
  have "distinct (sv_calls s)"
    using ok(1) unfolding calls_ok_def distinct_conv_nth sorted_wrt_iff_nth_less earlier_call_def by (metis linorder_neqE_nat order_less_irrefl)
  with inj have dist: "distinct (map (call_pos s) (exec_order s))" by (simp add: exec_order_def distinct_map)
  have "call_pos s ` set (sv_calls s) = set (exec_positions (sv_ops s))"
  proof
    show "call_pos s ` set (sv_calls s) \<subseteq> set (exec_positions (sv_ops s))"
      using call_pos(1) [OF assms(1)] ret by (fastforce simp: executes_def exec_positions_def)
    show "set (exec_positions (sv_ops s)) \<subseteq> call_pos s ` set (sv_calls s)"
    proof
      fix p
      assume "p \<in> set (exec_positions (sv_ops s))"
      then have p: "p < length (sv_ops s)" "newer (sv_ops s ! p) (snd (state_at (sv_ops s) p))" by (auto simp: exec_positions_def)
      then obtain x where x: "x \<in> set (sv_calls s)" "fits x (sv_ops s ! p)" using op_call [OF ok(2)] by (meson nth_mem)
      then have "executes (sv_ops s) p (cc_client x) (cc_id x) (spec_reply (sv_ops s ! p) (fst (state_at (sv_ops s) p)))"
        using p by (simp add: executes_def fits_def)
      with executes_once [OF ops_known [OF ok(1,2)]] call_pos(1) [OF assms(1) x(1)] ret [OF x(1)] have "call_pos s x = p" by blast
      with x(1) show "p \<in> call_pos s ` set (sv_calls s)" by blast
    qed
  qed
  then have "set (map (call_pos s) (exec_order s)) = set (exec_positions (sv_ops s))" by (simp add: exec_order_def)
  moreover have "sorted (map (call_pos s) (exec_order s))" by (simp add: exec_order_def)
  moreover have "sorted (exec_positions (sv_ops s))" "distinct (exec_positions (sv_ops s))"
    by (simp_all add: exec_positions_def sorted_wrt_filter)
  ultimately show ?thesis using dist by (intro sorted_distinct_set_unique)
qed

lemma service_linearizable:
  assumes "svc_ok s" and "\<forall>x \<in> set (sv_calls s). cc_ret x \<noteq> None"
  shows "linearizable_ops StoreStep (\<lambda>k. []) (map call_operation (sv_calls s))"
proof -
  note ok = svc_okD [OF assms(1)]
  have mem: "x \<in> set (sv_calls s)" if "x \<in> set (exec_order s)" for x using that by (simp add: exec_order_def)
  have ret: "\<exists>t v. cc_ret x = Some (t, v)" if "x \<in> set (exec_order s)" for x using assms(2) mem [OF that] by fastforce
  have "op_io (call_operation x) = shown_io (sv_ops s) (call_pos s x)" if x: "x \<in> set (exec_order s)" for x
  proof -
    obtain t v where tv: "cc_ret x = Some (t, v)" using ret [OF x] by blast
    note cp = call_pos(2,4) [OF assms(1) mem [OF x] tv]
    have "valid_call (cc_op x) (cc_value x)" using ok(1) mem [OF x] by (simp add: calls_ok_def)
    with cp tv show ?thesis
      by (auto simp: op_io_def call_operation_def shown_io_def kv_input_def kv_output_def fits_def spec_reply_def)
  qed
  then have "map op_io (map call_operation (exec_order s)) = map (shown_io (sv_ops s)) (map (call_pos s) (exec_order s))" by simp
  then have "accepts_run StoreStep (\<lambda>k. []) (map op_io (map call_operation (exec_order s)))"
    using accepts_log [OF ops_known [OF ok(1,2)]] by (simp add: exec_order_positions [OF assms])
  moreover have "sorted_wrt (\<lambda>p q. \<not> Return q < Call p) (map call_operation (exec_order s))"
  proof -
    have times: "\<not> Return (call_operation y) < Call (call_operation x)"
      if xy: "x \<in> set (exec_order s)" "y \<in> set (exec_order s)" "call_pos s x \<le> call_pos s y" for x y
    proof -
      obtain t v u w where tv: "cc_ret x = Some (t, v)" "cc_ret y = Some (u, w)" using ret xy by blast
      have "snd (sv_log s ! call_pos s x) \<le> snd (sv_log s ! call_pos s y)"
        using ok(2) xy(3) call_pos(1) [OF assms(1) mem [OF xy(2)] tv(2)]
        by (cases "call_pos s x = call_pos s y")
          (auto simp: entries_ok_def executes_def sv_ops_def sorted_wrt_iff_nth_less intro!: less_imp_le)
      then show ?thesis
        using call_pos(5) [OF assms(1) mem [OF xy(1)] tv(1)] call_pos(3) [OF assms(1) mem [OF xy(2)] tv(2)] tv
        by (simp add: call_operation_def)
    qed
    have "sorted_wrt (\<lambda>x y. call_pos s x \<le> call_pos s y) (exec_order s)"
      using sorted_sort_key [of "call_pos s" "sv_calls s"] by (simp add: exec_order_def sorted_map)
    then have "sorted_wrt (\<lambda>x y. \<not> Return (call_operation y) < Call (call_operation x)) (exec_order s)"
      by (rule sorted_wrt_mono_rel [rotated]) (use times in blast)
    then show ?thesis by (simp add: sorted_wrt_map)
  qed
  moreover have "mset (map call_operation (exec_order s)) = mset (map call_operation (sv_calls s))" by (simp add: exec_order_def)
  ultimately show ?thesis unfolding linearizable_ops_def by blast
qed

lemma service_timed:
  assumes "svc_ok s" and "\<forall>x \<in> set (sv_calls s). cc_ret x \<noteq> None"
  shows "timed (map call_operation (sv_calls s))"
proof -
  have ret: "\<exists>t v. cc_ret x = Some (t, v)" if "x \<in> set (sv_calls s)" for x using assms(2) that by fastforce
  have "Call (call_operation x) < Return (call_operation x) \<and> Return (call_operation x) \<noteq> Call (call_operation y)"
    if x: "x \<in> set (sv_calls s)" and y: "y \<in> set (sv_calls s)" for x y
  proof -
    obtain t v where tv: "cc_ret x = Some (t, v)" using ret [OF x] by blast
    with call_pos(3,5,6) [OF assms(1) x tv] y show ?thesis by (auto simp: call_operation_def)
  qed
  then show ?thesis by (auto simp: timed_def)
qed

section \<open>Property\<close>

text \<open>
  C1. The service is linearizable and its tests' checker says so: take any run of clerks and servers, with lost,
  late and repeated requests and replies, servers that restart, lose or win leadership, save snapshots of their maps and
  install snapshots that any server saved, over a Raft that gives every server the same log in order, a snapshot before
  the entries that follow it. If all calls have returned, the checker, with enough turns, answers true on the history of
  the calls, whatever the order in which the tests collected it. Of gob it is assumed that a snapshot reads back as the
  finite maps that were encoded.
\<close>

theorem service_history_passes_checker:
  assumes "sort_routine sorter" and "\<forall>xs. mset (shuffle xs) = mset xs" and "reads_back kenc kdec"
    and "fresh_service s0" and "run_all (ordered_step enc dec kenc kdec) evs s0 = Some s"
    and "sv_calls s \<noteq> []" and "\<forall>x \<in> set (sv_calls s). cc_ret x \<noteq> None"
    and "mset history = mset (map call_operation (sv_calls s))"
    and "mset is = mset [0..<card (op_key ` set history)]"
  shows "\<exists>F. \<forall>fuel \<ge> F. CheckOperations sorter (KvModel shuffle) fuel history is = Some (Some True)"
proof -
  have "svc_inv kenc s" using service.run_inv [OF assms(5) _ svc_inv_fresh [OF assms(4)]] assms(3) by (simp add: list_all_iff)
  then have s: "svc_ok s" by (simp add: svc_inv_def)
  note same = mset_eq_setD [OF assms(8)]
  have "\<forall>p \<in> set history. kv_typed p" unfolding same by (auto simp: kv_typed_def call_operation_def)
  moreover have "timed history" using service_timed [OF s assms(7)] unfolding timed_def same .
  moreover have "history \<noteq> []" using same assms(6) by auto
  moreover have "linearizable_ops StoreStep (\<lambda>k. []) history"
    using service_linearizable [OF s assms(7)] unfolding linearizable_ops_def assms(8) .
  ultimately show ?thesis using CheckOperations_kv_result [OF assms(1,2) _ _ _ assms(9)] by simp
qed

text \<open>
  Two clients and two servers: an append that is delivered twice; the first server saves a snapshot after it, the second
  server installs it, restarts, installs it again, applies the rest of the log and answers a get. The bytes of a snapshot
  are the maps themselves here; what is assumed of the codec holds of one with bytes, too.
\<close>

definition val_kenc :: "(store \<times> sessions) kv_encoder" where
  "val_kenc \<sigma> = [\<sigma>]"

fun val_kdec :: "(store \<times> sessions) kv_decoder" where
  "val_kdec [] = (Map.empty, Map.empty)"
| "val_kdec (\<sigma> # \<sigma>s) = \<sigma>"

definition ex_leader :: "(Op, 'b) Raft" where
  "ex_leader = (zero_Raft 2 0 MakePersister)\<lparr>Log := [\<lparr>CommandIndex = 0, Command = None, CommandTerm = 0\<rparr>], NextIndex := [1, 1],
     MatchIndex := [0, 0]\<rparr>"

definition ex_small_server :: "'b KVServer" where
  "ex_small_server = \<lparr>kv_me = 0, kv_rf = zero_Raft 2 0 MakePersister, kv_stop = False, kv_record = Map.empty, kv_history = Map.empty,
     kv_maxraftstate = 0, kv_received = 0, kv_chans = [], kv_snaps = []\<rparr>"

definition ex_service :: "'b service_state" where
  "ex_service = \<lparr>sv_servers = [ex_small_server, ex_small_server], sv_epoch = [0, 0], sv_applied = [0, 0], sv_log = [], sv_submitted = [],
     sv_calls = [], sv_replies = [], sv_snaps = [], sv_time = 0\<rparr>"

definition ex_events :: "'b svc_event list" where
  "ex_events = [RaftMoves 0 ex_leader, ClerkCall 7 0 APPEND ''k'' ''v'', Deliver 0 0, Deliver 0 0, CommitEntry 1,
     CommitEntry 0, ApplyEntry 0, RunSnapshot 0 0, FinishCall 1, ReturnCall 0 0, ReceiveSnapshot 1 0, RestartServer 1 MakePersister,
     ReceiveSnapshot 1 0, RaftMoves 1 ex_leader, ClerkCall 8 0 GET ''k'' [], Deliver 1 1, CommitEntry 2, ApplyEntry 1, ApplyEntry 1,
     FinishCall 2, ReturnCall 1 1]"

definition ex_calls :: "clerk_call list" where
  "ex_calls =
     [\<lparr>cc_client = 7, cc_id = 0, cc_op = APPEND, cc_key = ''k'', cc_value = ''v'', cc_call = 1, cc_ret = Some (9, [])\<rparr>,
      \<lparr>cc_client = 8, cc_id = 0, cc_op = GET, cc_key = ''k'', cc_value = [], cc_call = 14, cc_ret = Some (20, ''v'')\<rparr>]"

theorem service_history_passes_checker_witness:
  "\<exists>s. run_all (ordered_step (\<lambda>x. []) (\<lambda>x. None) val_kenc val_kdec) ex_events ex_service = Some s \<and> sv_calls s = ex_calls
    \<and> (\<exists>F. \<forall>fuel \<ge> F. CheckOperations (sort_key etime) (KvModel rev) fuel (rev (map call_operation ex_calls)) [0] = Some (Some True))
    \<and> reads_back byte_kenc byte_kdec"
proof -
  have "map_option sv_calls (run_all (ordered_step (\<lambda>x. []) (\<lambda>x. None) val_kenc val_kdec) ex_events ex_service) = Some ex_calls"
    by code_simp
  then obtain s where s: "run_all (ordered_step (\<lambda>x. []) (\<lambda>x. None) val_kenc val_kdec) ex_events ex_service = Some s" "sv_calls s = ex_calls"
    by auto
  have "fresh_service (ex_service :: (store \<times> sessions) service_state)"
    by (simp add: fresh_service_def ex_service_def ex_small_server_def nth_Cons split: nat.split)
  moreover have "reads_back val_kenc val_kdec" by (simp add: reads_back_def val_kenc_def)
  moreover have "op_key ` set (rev (map call_operation ex_calls)) = {''k''}" by (simp add: op_key_def call_operation_def ex_calls_def)
  then have "mset [0] = mset [0..<card (op_key ` set (rev (map call_operation ex_calls)))]" by simp
  moreover have "ex_calls \<noteq> []" "\<forall>x \<in> set ex_calls. cc_ret x \<noteq> None" by (simp_all add: ex_calls_def)
  ultimately show ?thesis
    using service_history_passes_checker [OF key_sort.sort_routine_axioms, of rev val_kenc val_kdec ex_service "\<lambda>x. []" "\<lambda>x. None"
        ex_events s "rev (map call_operation ex_calls)" "[0]"] s byte_kenc_reads_back by simp
qed

section \<open>Without the promise of order\<close>

text \<open>Calls that follow one another have one order only.\<close>

lemma sequential_linearizable:
  assumes "sorted_wrt (\<lambda>p q. Return p < Call q) ops" and "\<forall>p \<in> set ops. Call p < Return p"
  shows "linearizable_ops step init ops \<longleftrightarrow> accepts_run step init (map op_io ops)"
proof
  assume "linearizable_ops step init ops"
  then obtain order where order: "mset order = mset ops" "accepts_run step init (map op_io order)"
    "sorted_wrt (\<lambda>p q. \<not> Return q < Call p) order" by (auto simp: linearizable_ops_def)
  have set: "set order = set ops" using mset_eq_setD [OF order(1)] .
  have "sorted_wrt (<) (map Call ops)"
    unfolding sorted_wrt_map using assms(2) by (intro sorted_wrt_mono_rel [OF _ assms(1)]) force
  then have calls: "sorted (map Call ops)" and dist: "distinct (map Call ops)" by (simp_all add: strict_sorted_iff)
  have "mset (map Call order) = mset (map Call ops)" using order(1) by simp
  then have dist': "distinct (map Call order)" using dist by (metis mset_eq_imp_distinct_iff)
  have "\<not> Call q < Call p" if "p \<in> set order" "q \<in> set order" "\<not> Return q < Call p" for p q
    using that sorted_wrt_pair [OF assms(1), of p q] assms(2) unfolding set by fastforce
  then have "sorted (map Call order)"
    unfolding sorted_map by (intro sorted_wrt_mono_rel [OF _ order(3)]) (simp add: not_less)
  then have "map Call order = map Call ops"
    using calls dist dist' by (intro sorted_distinct_set_unique) (simp_all add: set)
  then have "order = ops" using dist set by (intro map_inj_on [of Call order ops]) (simp_all add: distinct_map)
  with order(2) show "accepts_run step init (map op_io ops)" by simp
next
  assume "accepts_run step init (map op_io ops)"
  moreover have "sorted_wrt (\<lambda>p q. \<not> Return q < Call p) ops"
    using assms(2) by (intro sorted_wrt_mono_rel [OF _ assms(1)]) (metis less_asym less_trans)
  ultimately show "linearizable_ops step init ops" unfolding linearizable_ops_def by blast
qed

text \<open>
  The promise is needed: one client puts twice, the first server saves a snapshot after the first put, and the second server
  has applied both puts when it receives this snapshot. It goes back to the first value, and a get that it answers returns it.
\<close>

definition late_events :: "'b svc_event list" where
  "late_events = [RaftMoves 0 ex_leader, RaftMoves 1 ex_leader, ClerkCall 7 0 PUT ''k'' ''a'', Deliver 0 0, CommitEntry 0, ApplyEntry 0,
     RunSnapshot 0 0, FinishCall 0, ReturnCall 0 0, ClerkCall 7 1 PUT ''k'' ''b'', Deliver 1 0, CommitEntry 1, ApplyEntry 0, FinishCall 1,
     ReturnCall 1 1, ApplyEntry 1, ApplyEntry 1, ReceiveSnapshot 1 0, ClerkCall 8 0 GET ''k'' [], Deliver 2 1, CommitEntry 2, ApplyEntry 1,
     FinishCall 2, ReturnCall 2 2]"

definition late_calls :: "clerk_call list" where
  "late_calls =
     [\<lparr>cc_client = 7, cc_id = 0, cc_op = PUT, cc_key = ''k'', cc_value = ''a'', cc_call = 2, cc_ret = Some (8, [])\<rparr>,
      \<lparr>cc_client = 7, cc_id = 1, cc_op = PUT, cc_key = ''k'', cc_value = ''b'', cc_call = 9, cc_ret = Some (14, [])\<rparr>,
      \<lparr>cc_client = 8, cc_id = 0, cc_op = GET, cc_key = ''k'', cc_value = [], cc_call = 18, cc_ret = Some (23, ''a'')\<rparr>]"

text \<open>
  With a snapshot that arrives after the entries it precedes, the service is not linearizable, and the checker says so.
\<close>

theorem late_snapshot_breaks_linearizability:
  "\<exists>s. run_all (svc_step (\<lambda>x. []) (\<lambda>x. None) val_kenc val_kdec) late_events ex_service = Some s \<and> sv_calls s = late_calls
    \<and> (\<exists>F. \<forall>fuel \<ge> F. CheckOperations (sort_key etime) (KvModel rev) fuel (map call_operation late_calls) [0] = Some (Some False))"
proof -
  have run: "map_option sv_calls (run_all (svc_step (\<lambda>x. []) (\<lambda>x. None) val_kenc val_kdec) late_events ex_service) = Some late_calls"
    by code_simp
  let ?h = "map call_operation late_calls"
  have "\<not> accepts_run StoreStep (\<lambda>k. []) (map op_io ?h)" by code_simp
  moreover have "sorted_wrt (\<lambda>p q. Return p < Call q) ?h" "\<forall>p \<in> set ?h. Call p < Return p" by code_simp+
  ultimately have no: "\<not> linearizable_ops StoreStep (\<lambda>k. []) ?h" by (simp add: sequential_linearizable)
  have "\<forall>p \<in> set ?h. kv_typed p" by (auto simp: kv_typed_def call_operation_def)
  moreover have "timed ?h" unfolding timed_def by code_simp
  moreover have "op_key ` set ?h = {''k''}" by (simp add: op_key_def call_operation_def late_calls_def)
  then have "mset [0] = mset [0..<card (op_key ` set ?h)]" by simp
  ultimately have "\<exists>F. \<forall>fuel \<ge> F. CheckOperations (sort_key etime) (KvModel rev) fuel ?h [0] = Some (Some False)"
    using CheckOperations_kv_result [OF key_sort.sort_routine_axioms, of rev ?h "[0]"] no by (simp add: late_calls_def)
  with run show ?thesis by auto
qed

end
