(* ===== verification/Labgob.thy ===== *)
theory Labgob
  imports Complex_Main Go_Prelude
begin

text \<open>
  The wrapper around \<open>encoding/gob\<close> (\<open>src/src/labgob/labgob.go\<close>): before it encodes or decodes, it
  complains about struct fields that gob would skip (\<open>checkType\<close>) and about variables that hold
  something already (\<open>checkDefault\<close>).

  \<^item> A \<open>reflect.Type\<close> is a number; \<open>types\<close> lists the descriptions of the types of the program, which may
    refer to each other in cycles. Field names are ASCII.
  \<^item> A value is a finite tree; a pointer that points back is unfolded, since \<open>checkDefault\<close> looks three
    levels deep. A scalar is a boolean, an integer, a floating-point number (\<open>None\<close> is NaN, which is not
    equal to zero) or a string; slices, maps and interfaces are \<open>VOther\<close>. Fields are named, not embedded; a value
    that was reached through a field that is not exported is read-only, and \<open>Interface()\<close> of it panics (\<open>None\<close>).
  \<^item> The globals \<open>errorCount\<close> and \<open>checked\<close> and what is printed are the record \<open>gob_state\<close>.
  \<^item> \<open>encoding/gob\<close> itself is the argument \<open>enc\<close> or \<open>dec\<close>.
  \<^item> \<open>checkType\<close> recurses along the types: the model has fuel for the depth of the recursion.
\<close>

section \<open>Types and the check of field names\<close>

datatype type_desc =
    TStruct string "(string \<times> nat) list"
  | TSlice nat
  | TArray nat
  | TPtr nat
  | TMap nat nat
  | TBasic

datatype message = LowerCase string string | NonDefault string

record gob_state =
  errorCount :: int
  checked :: "nat set"
  printed :: "message list"

definition gob_init :: gob_state where
  "gob_init = \<lparr>errorCount = 0, checked = {}, printed = []\<rparr>"

definition IsUpper :: "char \<Rightarrow> bool" where
  "IsUpper c \<longleftrightarrow> 65 \<le> (of_char c :: nat) \<and> (of_char c :: nat) \<le> 90"

text \<open>An empty name decodes to \<open>RuneError\<close>, which is no upper-case letter.\<close>

definition exported :: "string \<Rightarrow> bool" where
  "exported name \<longleftrightarrow> name \<noteq> [] \<and> IsUpper (hd name)"

definition complain :: "string \<Rightarrow> string \<Rightarrow> gob_state \<Rightarrow> gob_state" where
  "complain name tname st =
     (if \<not> exported name
      then st\<lparr>errorCount := errorCount st + 1, printed := printed st @ [LowerCase name tname]\<rparr>
      else st)"

fun check_fields ::
  "(nat \<Rightarrow> gob_state \<Rightarrow> gob_state option) \<Rightarrow> string \<Rightarrow> (string \<times> nat) list \<Rightarrow> gob_state \<Rightarrow> gob_state option" where
  "check_fields check tname [] st = Some st"
| "check_fields check tname ((name, t) # fs) st =
     do { st' \<leftarrow> check t (complain name tname st); check_fields check tname fs st' }"

fun checkType :: "type_desc list \<Rightarrow> nat \<Rightarrow> nat \<Rightarrow> gob_state \<Rightarrow> gob_state option" where
  "checkType types 0 t st = None"
| "checkType types (Suc n) t st =
     do {
       k \<leftarrow> idx types (int t);
       if t \<in> checked st then Some st
       else let st1 = st\<lparr>checked := insert t (checked st)\<rparr>
            in case k of
                 TStruct tname fs \<Rightarrow> check_fields (checkType types n) tname fs st1
               | TSlice e \<Rightarrow> checkType types n e st1
               | TArray e \<Rightarrow> checkType types n e st1
               | TPtr e \<Rightarrow> checkType types n e st1
               | TMap e key \<Rightarrow> do { st2 \<leftarrow> checkType types n e st1; checkType types n key st2 }
               | TBasic \<Rightarrow> Some st1
     }"

section \<open>Values and the check of defaults\<close>

datatype scalar = SBool bool | SInt int | SFloat "rat option" | SString string

fun is_zero :: "scalar \<Rightarrow> bool" where
  "is_zero (SBool b) = (b = False)"
| "is_zero (SInt i) = (i = 0)"
| "is_zero (SFloat f) = (f = Some 0)"
| "is_zero (SString s) = (s = [])"

datatype gvalue =
    VStruct "(string \<times> gvalue) list"
  | VPtr "gvalue option"
  | VScalar string scalar
  | VOther

fun checkDefault1 :: "gvalue \<Rightarrow> bool \<Rightarrow> nat \<Rightarrow> string \<Rightarrow> gob_state \<Rightarrow> gob_state option"
  and default_fields :: "(string \<times> gvalue) list \<Rightarrow> bool \<Rightarrow> nat \<Rightarrow> string \<Rightarrow> gob_state \<Rightarrow> gob_state option" where
  "checkDefault1 (VStruct fs) ro depth name st =
     (if depth > 3 then Some st else default_fields fs ro depth name st)"
| "checkDefault1 (VPtr p) ro depth name st =
     (if depth > 3 then Some st
      else case p of None \<Rightarrow> Some st | Some v \<Rightarrow> checkDefault1 v ro (depth + 1) name st)"
| "checkDefault1 (VScalar tname v) ro depth name st =
     (if depth > 3 then Some st
      else if ro then None
      else if \<not> is_zero v
      then let st1 = (if errorCount st < 1
                      then st\<lparr>printed := printed st @ [NonDefault (if name = [] then tname else name)]\<rparr> else st)
           in Some (st1\<lparr>errorCount := errorCount st1 + 1\<rparr>)
      else Some st)"
| "checkDefault1 VOther ro depth name st = Some st"
| "default_fields [] ro depth name st = Some st"
| "default_fields ((fname, vv) # fs) ro depth name st =
     (let name1 = (if name \<noteq> [] then name @ ''.'' @ fname else fname)
      in do {
        st1 \<leftarrow> checkDefault1 vv (ro \<or> \<not> exported fname) (depth + 1) name1 st;
        default_fields fs ro depth name st1
      })"

definition checkDefault :: "gvalue option \<Rightarrow> gob_state \<Rightarrow> gob_state option" where
  "checkDefault v st = (case v of None \<Rightarrow> Some st | Some x \<Rightarrow> checkDefault1 x False 1 [] st)"

section \<open>The encoder and the decoder\<close>

text \<open>A value of a Go program, with its dynamic type; \<open>look\<close> is what \<open>reflect\<close> shows of a value.\<close>

definition checkValue :: "type_desc list \<Rightarrow> nat \<Rightarrow> ('v \<Rightarrow> nat) \<Rightarrow> 'v \<Rightarrow> gob_state \<Rightarrow> gob_state option" where
  "checkValue types fuel typeOf v st = checkType types fuel (typeOf v) st"

definition LabEncode ::
  "type_desc list \<Rightarrow> nat \<Rightarrow> ('v \<Rightarrow> nat) \<Rightarrow> ('v \<Rightarrow> 'b list option) \<Rightarrow> 'v \<Rightarrow> gob_state
     \<Rightarrow> (gob_state \<times> 'b list option) option" where
  "LabEncode types fuel typeOf enc e st = do { st' \<leftarrow> checkValue types fuel typeOf e st; Some (st', enc e) }"

definition LabDecode ::
  "type_desc list \<Rightarrow> nat \<Rightarrow> ('v \<Rightarrow> nat) \<Rightarrow> ('v \<Rightarrow> gvalue option) \<Rightarrow> ('b list \<Rightarrow> 'v \<Rightarrow> 'v \<times> bool) \<Rightarrow> 'b list \<Rightarrow> 'v
     \<Rightarrow> gob_state \<Rightarrow> (gob_state \<times> 'v \<times> bool) option" where
  "LabDecode types fuel typeOf look dec bytes e st =
     do {
       st1 \<leftarrow> checkValue types fuel typeOf e st;
       st2 \<leftarrow> checkDefault (look e) st1;
       Some (st2, dec bytes e)
     }"

definition Register ::
  "type_desc list \<Rightarrow> nat \<Rightarrow> ('v \<Rightarrow> nat) \<Rightarrow> ('v \<Rightarrow> 'reg \<Rightarrow> 'reg) \<Rightarrow> 'v \<Rightarrow> gob_state \<times> 'reg \<Rightarrow> (gob_state \<times> 'reg) option" where
  "Register types fuel typeOf register v s =
     do { st' \<leftarrow> checkValue types fuel typeOf v (fst s); Some (st', register v (snd s)) }"

definition RegisterName ::
  "type_desc list \<Rightarrow> nat \<Rightarrow> ('v \<Rightarrow> nat) \<Rightarrow> (string \<Rightarrow> 'v \<Rightarrow> 'reg \<Rightarrow> 'reg) \<Rightarrow> string \<Rightarrow> 'v \<Rightarrow> gob_state \<times> 'reg
     \<Rightarrow> (gob_state \<times> 'reg) option" where
  "RegisterName types fuel typeOf registerName name v s =
     do { st' \<leftarrow> checkValue types fuel typeOf v (fst s); Some (st', registerName name v (snd s)) }"

section \<open>Reachable types\<close>

fun succs :: "type_desc \<Rightarrow> nat list" where
  "succs (TStruct tname fs) = map snd fs"
| "succs (TSlice e) = [e]"
| "succs (TArray e) = [e]"
| "succs (TPtr e) = [e]"
| "succs (TMap e key) = [e, key]"
| "succs TBasic = []"

fun lower_fields :: "type_desc \<Rightarrow> int" where
  "lower_fields (TStruct tname fs) = int (length (filter (\<lambda>f. \<not> exported (fst f)) fs))"
| "lower_fields _ = 0"

definition types_ok :: "type_desc list \<Rightarrow> bool" where
  "types_ok types \<longleftrightarrow> (\<forall>d \<in> set types. \<forall>t \<in> set (succs d). t < length types)"

definition refers :: "type_desc list \<Rightarrow> nat \<Rightarrow> nat \<Rightarrow> bool" where
  "refers types t u \<longleftrightarrow> t < length types \<and> u \<in> set (succs (types ! t))"

abbreviation reaches :: "type_desc list \<Rightarrow> nat \<Rightarrow> nat \<Rightarrow> bool" where
  "reaches types \<equiv> (refers types)\<^sup>*\<^sup>*"

text \<open>
  What a finished check of the types \<open>ts\<close> has done: it marked types reachable from them, each with all
  its successors, and counted the lower-case fields of the new ones, besides \<open>k\<close> others.
\<close>

definition grown :: "type_desc list \<Rightarrow> nat list \<Rightarrow> int \<Rightarrow> gob_state \<Rightarrow> gob_state \<Rightarrow> bool" where
  "grown types ts k st st' \<longleftrightarrow>
     checked st \<subseteq> checked st' \<and> set ts \<subseteq> checked st'
     \<and> (\<forall>u \<in> checked st' - checked st. u < length types \<and> (\<exists>t \<in> set ts. reaches types t u)
          \<and> set (succs (types ! u)) \<subseteq> checked st')
     \<and> errorCount st' = errorCount st + k + (\<Sum>u \<in> checked st' - checked st. lower_fields (types ! u))"

lemma grown_done: "set ts \<subseteq> checked st \<Longrightarrow> grown types ts 0 st st"
  by (simp add: grown_def)

lemma grown_finite: "grown types ts k st st' \<Longrightarrow> finite (checked st' - checked st)"
  by (rule finite_subset [of _ "{..<length types}"]) (auto simp: grown_def)

lemma grown_trans:
  assumes "grown types ts k st st1" and "grown types us l st1 st2"
  shows "grown types (ts @ us) (k + l) st st2"
proof -
  have "checked st2 - checked st = (checked st1 - checked st) \<union> (checked st2 - checked st1)"
    using assms by (auto simp: grown_def)
  moreover have "(\<Sum>u \<in> (checked st1 - checked st) \<union> (checked st2 - checked st1). lower_fields (types ! u))
      = (\<Sum>u \<in> checked st1 - checked st. lower_fields (types ! u)) + (\<Sum>u \<in> checked st2 - checked st1. lower_fields (types ! u))"
    using assms grown_finite by (intro sum.union_disjoint) blast+
  ultimately have "errorCount st2 = errorCount st + (k + l) + (\<Sum>u \<in> checked st2 - checked st. lower_fields (types ! u))"
    using assms by (simp add: grown_def)
  moreover have "\<forall>u \<in> checked st2 - checked st. u < length types \<and> (\<exists>t \<in> set (ts @ us). reaches types t u)
      \<and> set (succs (types ! u)) \<subseteq> checked st2"
    using assms unfolding grown_def by (metis DiffD1 DiffD2 DiffI UnCI set_append subset_trans)
  ultimately show ?thesis using assms unfolding grown_def by auto
qed

lemma grown_complain:
  "grown types ts k (complain name tname st) st' \<Longrightarrow> grown types ts (k + (if exported name then 0 else 1)) st st'"
  by (auto simp: grown_def complain_def)

lemma grown_enter:
  assumes "t \<notin> checked st" and "t < length types"
    and g: "grown types (succs (types ! t)) (lower_fields (types ! t)) (st\<lparr>checked := insert t (checked st)\<rparr>) st'"
  shows "grown types [t] 0 st st'"
proof -
  let ?st1 = "st\<lparr>checked := insert t (checked st)\<rparr>"
  have t: "t \<in> checked st'" using g by (auto simp: grown_def)
  then have new: "checked st' - checked st = insert t (checked st' - checked ?st1)" using assms(1) by auto
  have "reaches types t u" if "u \<in> checked st' - checked ?st1" for u
    using g that assms(2) unfolding grown_def by (metis converse_rtranclp_into_rtranclp refers_def)
  with g t assms(2) have "\<forall>u \<in> checked st' - checked st. u < length types \<and> reaches types t u \<and> set (succs (types ! u)) \<subseteq> checked st'"
    unfolding new ball_simps by (simp add: grown_def)
  moreover have "errorCount st' = errorCount st + (\<Sum>u \<in> checked st' - checked st. lower_fields (types ! u))"
    unfolding new using g grown_finite [OF g] by (simp add: grown_def)
  ultimately show ?thesis using g t by (auto simp: grown_def)
qed

text \<open>The unchecked types bound the depth of the recursion.\<close>

definition fresh_types :: "type_desc list \<Rightarrow> gob_state \<Rightarrow> nat" where
  "fresh_types types st = card ({..<length types} - checked st)"

lemma fresh_types_mono: "checked st \<subseteq> checked st' \<Longrightarrow> fresh_types types st' \<le> fresh_types types st"
  unfolding fresh_types_def by (intro card_mono) auto

lemma fresh_types_insert:
  "t < length types \<Longrightarrow> t \<notin> checked st \<Longrightarrow> fresh_types types (st\<lparr>checked := insert t (checked st)\<rparr>) < fresh_types types st"
  unfolding fresh_types_def by (intro psubset_card_mono) auto

definition checks :: "type_desc list \<Rightarrow> nat \<Rightarrow> (nat \<Rightarrow> gob_state \<Rightarrow> gob_state option) \<Rightarrow> bool" where
  "checks types n check \<longleftrightarrow>
     (\<forall>t st. t < length types \<longrightarrow> fresh_types types st < n \<longrightarrow> (\<exists>st'. check t st = Some st' \<and> grown types [t] 0 st st'))"

lemma checksD:
  assumes "checks types n check" and "t < length types" and "fresh_types types st < n"
  obtains st' where "check t st = Some st'" "grown types [t] 0 st st'" "fresh_types types st' < n"
  using assms unfolding checks_def by (metis grown_def le_less_trans fresh_types_mono)

lemma check_fields_grown:
  assumes "checks types n check" and "\<forall>t \<in> set (map snd fs). t < length types" and "fresh_types types st < n"
  shows "\<exists>st'. check_fields check tname fs st = Some st'
    \<and> grown types (map snd fs) (int (length (filter (\<lambda>f. \<not> exported (fst f)) fs))) st st'"
  using assms(2,3)
proof (induction fs arbitrary: st)
  case (Cons f fs)
  obtain name t where f: "f = (name, t)" by force
  have "fresh_types types (complain name tname st) < n"
    using Cons.prems(2) by (simp add: complain_def fresh_types_def)
  with Cons.prems(1) f obtain st1 where st1: "check t (complain name tname st) = Some st1"
    "grown types [t] 0 (complain name tname st) st1" "fresh_types types st1 < n"
    by (auto elim: checksD [OF assms(1)])
  from Cons.IH [of st1] Cons.prems(1) st1(3) obtain st2 where st2: "check_fields check tname fs st1 = Some st2"
    "grown types (map snd fs) (int (length (filter (\<lambda>f. \<not> exported (fst f)) fs))) st1 st2" by auto
  from grown_trans [OF grown_complain [OF st1(2)] st2(2)] st1(1) st2(1) f show ?case
    by (cases "exported name") (simp_all add: add.commute)
qed (simp add: grown_done)

lemma checkType_checks:
  assumes ok: "types_ok types"
  shows "checks types n (checkType types n)"
proof (induction n)
  case (Suc n)
  have "\<exists>st'. checkType types (Suc n) t st = Some st' \<and> grown types [t] 0 st st'"
    if t: "t < length types" and m: "fresh_types types st < Suc n" for t st
  proof (cases "t \<in> checked st")
    case True
    with t show ?thesis by (simp add: grown_done)
  next
    case False
    let ?st1 = "st\<lparr>checked := insert t (checked st)\<rparr>"
    have m1: "fresh_types types ?st1 < n" using fresh_types_insert [OF t False] m by linarith
    have sub: "\<forall>u \<in> set (succs (types ! t)). u < length types" using ok nth_mem [OF t] unfolding types_ok_def by blast
    have "\<exists>st'. checkType types (Suc n) t st = Some st' \<and> grown types (succs (types ! t)) (lower_fields (types ! t)) ?st1 st'"
    proof (cases "types ! t")
      case (TStruct tname fs)
      with check_fields_grown [OF Suc.IH _ m1] sub t False show ?thesis by simp
    next
      case (TMap e key)
      with sub m1 obtain st2 where st2: "checkType types n e ?st1 = Some st2" "grown types [e] 0 ?st1 st2" "fresh_types types st2 < n"
        by (auto elim: checksD [OF Suc.IH])
      with sub TMap obtain st3 where "checkType types n key st2 = Some st3" "grown types [key] 0 st2 st3"
        by (auto elim: checksD [OF Suc.IH])
      with grown_trans [OF st2(2)] st2(1) TMap t False show ?thesis by fastforce
    qed (use sub m1 t False in \<open>auto simp: grown_done elim: checksD [OF Suc.IH]\<close>)
    with grown_enter [OF False t] show ?thesis by blast
  qed
  then show ?case by (simp add: checks_def)
qed (simp add: checks_def)

section \<open>Counting the values that are not default\<close>

text \<open>The scalars that are not zero, at most three levels deep.\<close>

fun non_defaults :: "gvalue \<Rightarrow> nat \<Rightarrow> int" where
  "non_defaults (VStruct fs) depth = (if depth > 3 then 0 else \<Sum>f \<leftarrow> fs. non_defaults (snd f) (depth + 1))"
| "non_defaults (VPtr p) depth = (if depth > 3 then 0 else case p of None \<Rightarrow> 0 | Some v \<Rightarrow> non_defaults v (depth + 1))"
| "non_defaults (VScalar tname v) depth = (if depth > 3 \<or> is_zero v then 0 else 1)"
| "non_defaults VOther depth = 0"

lemma non_defaults_nonneg: "0 \<le> non_defaults v depth"
  by (induction v depth rule: non_defaults.induct) (auto intro!: sum_list_nonneg split: option.splits)

definition counts :: "int \<Rightarrow> gob_state \<Rightarrow> gob_state \<Rightarrow> bool" where
  "counts k st st' \<longleftrightarrow> errorCount st' = errorCount st + k \<and> checked st' = checked st
     \<and> (if k > 0 \<and> errorCount st = 0 then \<exists>what. printed st' = printed st @ [NonDefault what] else printed st' = printed st)"

lemma counts_trans:
  assumes "counts k st st1" and "counts l st1 st2" and "0 \<le> k" and "0 \<le> l" and "0 \<le> errorCount st"
  shows "counts (k + l) st st2"
  using assms by (auto simp: counts_def split: if_splits)

text \<open>A scalar at most three levels deep that is reached through a field that is not exported.\<close>

fun hidden_scalar :: "gvalue \<Rightarrow> bool \<Rightarrow> nat \<Rightarrow> bool" where
  "hidden_scalar (VStruct fs) ro depth \<longleftrightarrow> depth \<le> 3 \<and> (\<exists>f \<in> set fs. hidden_scalar (snd f) (ro \<or> \<not> exported (fst f)) (depth + 1))"
| "hidden_scalar (VPtr p) ro depth \<longleftrightarrow> depth \<le> 3 \<and> (case p of None \<Rightarrow> False | Some v \<Rightarrow> hidden_scalar v ro (depth + 1))"
| "hidden_scalar (VScalar tname v) ro depth \<longleftrightarrow> depth \<le> 3 \<and> ro"
| "hidden_scalar VOther ro depth \<longleftrightarrow> False"

definition checks_default :: "bool \<Rightarrow> int \<Rightarrow> gob_state \<Rightarrow> gob_state option \<Rightarrow> bool" where
  "checks_default hidden k st r \<longleftrightarrow> (case r of None \<Rightarrow> hidden | Some st' \<Rightarrow> \<not> hidden \<and> counts k st st')"

lemma checkDefault1_counts:
  "0 \<le> errorCount st \<Longrightarrow> checks_default (hidden_scalar v ro depth) (non_defaults v depth) st (checkDefault1 v ro depth name st)"
  "0 \<le> errorCount st \<Longrightarrow> checks_default (\<exists>f \<in> set fs. hidden_scalar (snd f) (ro \<or> \<not> exported (fst f)) (depth + 1))
     (\<Sum>f \<leftarrow> fs. non_defaults (snd f) (depth + 1)) st (default_fields fs ro depth name st)"
proof (induction v ro depth name st and fs ro depth name st rule: checkDefault1_default_fields.induct)
  case (1 fs ro depth name st)
  then show ?case by (cases "3 < depth") (simp_all add: checks_default_def counts_def)
next
  case (6 fname vv fs ro depth name st)
  let ?name = "if name \<noteq> [] then name @ ''.'' @ fname else fname"
  have one: "checks_default (hidden_scalar vv (ro \<or> \<not> exported fname) (depth + 1)) (non_defaults vv (depth + 1)) st
      (checkDefault1 vv (ro \<or> \<not> exported fname) (depth + 1) ?name st)" using 6 by blast
  show ?case
  proof (cases "checkDefault1 vv (ro \<or> \<not> exported fname) (depth + 1) ?name st")
    case None
    with one show ?thesis by (simp add: checks_default_def Let_def)
  next
    case (Some st1)
    with one have first: "\<not> hidden_scalar vv (ro \<or> \<not> exported fname) (depth + 1)" "counts (non_defaults vv (depth + 1)) st st1"
      by (simp_all add: checks_default_def)
    then have "0 \<le> errorCount st1" using 6(3) non_defaults_nonneg [of vv "depth + 1"] by (simp add: counts_def)
    with 6(2) [OF refl Some] have rest: "checks_default (\<exists>f \<in> set fs. hidden_scalar (snd f) (ro \<or> \<not> exported (fst f)) (depth + 1))
        (\<Sum>f \<leftarrow> fs. non_defaults (snd f) (depth + 1)) st1 (default_fields fs ro depth name st1)" by blast
    have "0 \<le> (\<Sum>f \<leftarrow> fs. non_defaults (snd f) (depth + 1))"
      by (intro sum_list_nonneg) (auto simp: non_defaults_nonneg)
    then have "counts (non_defaults vv (depth + 1) + (\<Sum>f \<leftarrow> fs. non_defaults (snd f) (depth + 1))) st st2"
      if "default_fields fs ro depth name st1 = Some st2" for st2
      using rest that counts_trans [OF first(2)] 6(3) non_defaults_nonneg by (simp add: checks_default_def)
    with rest first(1) Some show ?thesis by (auto simp: checks_default_def Let_def split: option.splits)
  qed
qed (auto simp: checks_default_def counts_def split: option.splits)

section \<open>Properties\<close>

text \<open>
  C25. The check of a type returns, although types may refer to each other in cycles; it marks
  exactly the types reachable from it, besides those marked before, and it complains about every
  lower-case field of a struct that was not marked, once. The types marked before are those of
  earlier checks: they are closed under what they refer to.
\<close>

theorem checkType_complains_once:
  assumes "types_ok types" and "t < length types" and "length types < fuel"
    and "\<forall>u \<in> checked st. \<forall>v. refers types u v \<longrightarrow> v \<in> checked st"
  shows "\<exists>st'. checkType types fuel t st = Some st' \<and> checked st' = checked st \<union> {u. reaches types t u}
    \<and> errorCount st' = errorCount st + (\<Sum>u \<in> {u. reaches types t u} - checked st. lower_fields (types ! u))"
proof -
  have "fresh_types types st \<le> length types"
    unfolding fresh_types_def by (metis card_Diff_subset_Int card_lessThan card_mono Diff_subset finite_lessThan)
  then have "fresh_types types st < fuel" using assms(3) by linarith
  from checksD [OF checkType_checks [OF assms(1)] assms(2) this]
  obtain st' where st': "checkType types fuel t st = Some st'" "grown types [t] 0 st st'" by blast
  have closed: "v \<in> checked st'" if "u \<in> checked st'" "refers types u v" for u v
    using that st'(2) assms(4) unfolding grown_def refers_def by (metis DiffI subsetD)
  have "u \<in> checked st'" if "reaches types t u" for u
    using that by (induction rule: rtranclp_induct) (use st'(2) closed in \<open>auto simp: grown_def\<close>)
  moreover have "reaches types t u" if "u \<in> checked st' - checked st" for u
    using that st'(2) by (auto simp: grown_def)
  ultimately have "checked st' = checked st \<union> {u. reaches types t u}" using st'(2) by (auto simp: grown_def)
  moreover from this have "checked st' - checked st = {u. reaches types t u} - checked st" by auto
  ultimately show ?thesis using st' by (auto simp: grown_def)
qed

text \<open>A list node with a lower-case field and a pointer to the next node.\<close>

definition ex_types :: "type_desc list" where
  "ex_types = [TStruct ''Node'' [(''Next'', 1), (''val'', 2)], TPtr 0, TBasic]"

theorem checkType_complains_once_witness:
  "\<exists>st'. checkType ex_types 4 0 gob_init = Some st' \<and> checked st' = {u. reaches ex_types 0 u}
    \<and> errorCount st' = (\<Sum>u \<in> {u. reaches ex_types 0 u}. lower_fields (ex_types ! u)) \<and> errorCount st' = 1"
proof -
  have "map_option errorCount (checkType ex_types 4 0 gob_init) = Some 1" by code_simp
  then have "\<exists>st'. checkType ex_types 4 0 gob_init = Some st' \<and> errorCount st' = 1" by auto
  with checkType_complains_once [of ex_types 0 4 gob_init] show ?thesis
    by (auto simp: gob_init_def types_ok_def ex_types_def)
qed

text \<open>
  \<open>checkDefault\<close> panics exactly when a scalar at most three levels deep is reached through a field that is not exported.
  Otherwise it counts the scalars at most three levels deep that hold something else than their
  zero value, and it prints one warning, if there is such a scalar and nothing was counted before.
\<close>

theorem checkDefault_counts_non_defaults:
  assumes "0 \<le> errorCount st"
  shows "case checkDefault (Some v) st of
      None \<Rightarrow> hidden_scalar v False 1
    | Some st' \<Rightarrow> \<not> hidden_scalar v False 1 \<and> errorCount st' = errorCount st + non_defaults v 1
        \<and> (if non_defaults v 1 > 0 \<and> errorCount st = 0 then \<exists>what. printed st' = printed st @ [NonDefault what]
           else printed st' = printed st)"
  using checkDefault1_counts(1) [OF assms(1), of v False 1 "[]"]
  by (auto simp: counts_def checks_default_def checkDefault_def split: option.splits)

theorem checkDefault_counts_non_defaults_witness:
  "\<exists>st'. checkDefault (Some (VPtr (Some (VStruct [(''Ok'', VScalar ''bool'' (SBool True)), (''N'', VScalar ''int'' (SInt 0))])))) gob_init = Some st'
    \<and> errorCount st' = 1"
  using checkDefault_counts_non_defaults [of gob_init
      "VPtr (Some (VStruct [(''Ok'', VScalar ''bool'' (SBool True)), (''N'', VScalar ''int'' (SInt 0))]))"]
  by (simp add: gob_init_def exported_def IsUpper_def split: option.splits)

end
