(* ===== verification/Mapreduce.thy ===== *)
theory Mapreduce
  imports Go_Prelude "HOL-Library.Word" "HOL-Library.AList" "HOL-Library.Char_ord" "HOL-Library.List_Lexorder"
begin

unbundle bit_operations_syntax

text \<open>
  The MapReduce library (\<open>src/src/mapreduce\<close>): file names and the hash of keys (\<open>common.go\<close>,
  \<open>common_map.go\<close>) and the master's job and the merge of the results (\<open>master.go\<close>,
  \<open>master_rpc.go\<close>, \<open>master_splitmerge.go\<close>). The bodies of \<open>doMap\<close>, \<open>doReduce\<close> and of the scheduling
  in \<open>schedule\<close> are empty in the repository. The processes that serve RPCs are in \<open>Mapreduce_Workers\<close>.

  \<^item> The file system is a map from names to contents; \<open>writable\<close> says which files can be created. The
    decoder of \<open>encoding/json\<close> is the argument \<open>decode\<close>: the values it gives until the first error.
  \<^item> \<open>log.Fatal\<close> ends the process: \<open>None\<close>. Strings are compared by bytes, as in Go.
  \<^item> A map that the code only reads by key or sorts is an association list.
  \<^item> An RPC with \<open>call\<close> is the argument \<open>call\<close> of the definition that makes it.
\<close>

section \<open>Names and hashes\<close>

record KeyValue =
  kv_Key :: string
  kv_Value :: string

datatype jobPhase = mapPhase | reducePhase

definition reduceName :: "string \<Rightarrow> int \<Rightarrow> int \<Rightarrow> string" where
  "reduceName jobName mapTask reduceTask = ''mrtmp.'' @ jobName @ ''-'' @ Itoa mapTask @ ''-'' @ Itoa reduceTask"

definition mergeName :: "string \<Rightarrow> int \<Rightarrow> string" where
  "mergeName jobName reduceTask = ''mrtmp.'' @ jobName @ ''-res-'' @ Itoa reduceTask"

text \<open>The 32-bit FNV-1a hash of \<open>hash/fnv\<close>.\<close>

definition fnv_step :: "32 word \<Rightarrow> char \<Rightarrow> 32 word" where
  "fnv_step h c = (h XOR of_nat (of_char c)) * 16777619"

definition ihash :: "string \<Rightarrow> int" where
  "ihash s = uint (fold (\<lambda>c h. fnv_step h c) s 2166136261 AND 0x7fffffff)"

section \<open>The master\<close>

record Master =
  mr_address :: string
  mr_workers :: "string list"
  mr_jobName :: string
  mr_files :: "string list"
  mr_nReduce :: int
  mr_stats :: "int list"
  mr_shutdown :: bool

definition newMaster :: "string \<Rightarrow> Master" where
  "newMaster master = \<lparr>mr_address = master, mr_workers = [], mr_jobName = [], mr_files = [], mr_nReduce = 0,
     mr_stats = [], mr_shutdown = False\<rparr>"

record file_system =
  fs_files :: "string \<rightharpoonup> string"
  fs_writable :: "string \<Rightarrow> bool"

text \<open>The tasks have no statements.\<close>

definition doMap :: "string \<Rightarrow> int \<Rightarrow> string \<Rightarrow> int \<Rightarrow> file_system \<Rightarrow> file_system" where
  "doMap jobName mapTask inFile nReduce fs = fs"

definition doReduce :: "string \<Rightarrow> int \<Rightarrow> string \<Rightarrow> int \<Rightarrow> file_system \<Rightarrow> file_system" where
  "doReduce jobName reduceTask outFile nMap fs = fs"

section \<open>Merging and cleaning up\<close>

definition merge_file :: "(string \<Rightarrow> KeyValue list) \<Rightarrow> string \<Rightarrow> (string \<times> string) list \<Rightarrow> (string \<times> string) list" where
  "merge_file decode content kvs = fold (\<lambda>kv m. AList.update (kv_Key kv) (kv_Value kv) m) (decode content) kvs"

fun merge_read ::
  "(string \<Rightarrow> KeyValue list) \<Rightarrow> file_system \<Rightarrow> string \<Rightarrow> int list \<Rightarrow> (string \<times> string) list
     \<Rightarrow> (string \<times> string) list option" where
  "merge_read decode fs jobName [] kvs = Some kvs"
| "merge_read decode fs jobName (i # is) kvs =
     do { content \<leftarrow> fs_files fs (mergeName jobName i); merge_read decode fs jobName is (merge_file decode content kvs) }"

definition output_line :: "(string \<times> string) list \<Rightarrow> string \<Rightarrow> string" where
  "output_line kvs k = k @ '': '' @ the (map_of kvs k) @ [char_of (10 :: nat)]"

definition merge :: "(string \<Rightarrow> KeyValue list) \<Rightarrow> Master \<Rightarrow> file_system \<Rightarrow> file_system option" where
  "merge decode mr fs =
     do {
       kvs \<leftarrow> merge_read decode fs (mr_jobName mr) [0 .. mr_nReduce mr - 1] [];
       let keys = sort (map fst kvs);
       let out = ''mrtmp.'' @ mr_jobName mr;
       if fs_writable fs out
       then Some (fs\<lparr>fs_files := (fs_files fs)(out \<mapsto> concat (map (output_line kvs) keys))\<rparr>)
       else None
     }"

definition removeFile :: "string \<Rightarrow> file_system \<Rightarrow> file_system option" where
  "removeFile n fs =
     (if fs_files fs n = None then None else Some (fs\<lparr>fs_files := (fs_files fs)(n := None)\<rparr>))"

text \<open>The names \<open>CleanupFiles\<close> removes, in the order of its loops.\<close>

definition cleanup_names :: "Master \<Rightarrow> string list" where
  "cleanup_names mr =
     concat (map (\<lambda>i. map (\<lambda>j. reduceName (mr_jobName mr) i j) [0 .. mr_nReduce mr - 1])
                 [0 .. int (length (mr_files mr)) - 1])
     @ map (mergeName (mr_jobName mr)) [0 .. mr_nReduce mr - 1] @ [''mrtmp.'' @ mr_jobName mr]"

definition CleanupFiles :: "Master \<Rightarrow> file_system \<Rightarrow> file_system option" where
  "CleanupFiles mr fs = run_all removeFile (cleanup_names mr) fs"

section \<open>Running a job\<close>

definition run_job ::
  "(string \<Rightarrow> KeyValue list) \<Rightarrow> string \<Rightarrow> string list \<Rightarrow> int \<Rightarrow> (jobPhase \<Rightarrow> Master \<times> file_system \<Rightarrow> Master \<times> file_system)
     \<Rightarrow> (Master \<Rightarrow> Master option) \<Rightarrow> Master \<times> file_system \<Rightarrow> (Master \<times> file_system) option" where
  "run_job decode jobName files nreduce schedule finish = (\<lambda>(mr, fs).
     let mr0 = mr\<lparr>mr_jobName := jobName, mr_files := files, mr_nReduce := nreduce\<rparr>;
         (mr1, fs1) = schedule reducePhase (schedule mapPhase (mr0, fs))
     in do { mr2 \<leftarrow> finish mr1; fs2 \<leftarrow> merge decode mr2 fs1; Some (mr2, fs2) })"

fun sequential_phase :: "jobPhase \<Rightarrow> Master \<times> file_system \<Rightarrow> Master \<times> file_system" where
  "sequential_phase mapPhase (mr, fs) =
     (mr, fold (\<lambda>(i, f). doMap (mr_jobName mr) (int i) f (mr_nReduce mr)) (zip [0..<length (mr_files mr)] (mr_files mr)) fs)"
| "sequential_phase reducePhase (mr, fs) =
     (mr, fold (\<lambda>i. doReduce (mr_jobName mr) i (mergeName (mr_jobName mr) i) (int (length (mr_files mr))))
            [0 .. mr_nReduce mr - 1] fs)"

definition Sequential ::
  "(string \<Rightarrow> KeyValue list) \<Rightarrow> string \<Rightarrow> string list \<Rightarrow> int \<Rightarrow> file_system \<Rightarrow> (Master \<times> file_system) option" where
  "Sequential decode jobName files nreduce fs =
     run_job decode jobName files nreduce sequential_phase
       (\<lambda>mr. Some (mr\<lparr>mr_stats := [int (length files) + nreduce]\<rparr>)) (newMaster ''master'', fs)"

text \<open>\<open>schedule\<close> computes how many tasks there are, and prints it.\<close>

fun schedule_counts :: "string list \<Rightarrow> int \<Rightarrow> jobPhase \<Rightarrow> int \<times> int" where
  "schedule_counts mapFiles nReduce mapPhase = (int (length mapFiles), nReduce)"
| "schedule_counts mapFiles nReduce reducePhase = (nReduce, int (length mapFiles))"

fun killWorkers :: "(string \<Rightarrow> int option) \<Rightarrow> string list \<Rightarrow> int list" where
  "killWorkers call [] = []"
| "killWorkers call (w # ws) = (case call w of None \<Rightarrow> killWorkers call ws | Some ntasks \<Rightarrow> ntasks # killWorkers call ws)"

definition Master_Shutdown :: "Master \<Rightarrow> Master option" where
  "Master_Shutdown mr = (if mr_shutdown mr then None else Some (mr\<lparr>mr_shutdown := True\<rparr>))"

text \<open>\<open>stopRPCServer\<close> calls \<open>Master.Shutdown\<close>; \<open>ok\<close> is whether the call got through.\<close>

definition stopRPCServer :: "bool \<Rightarrow> Master \<Rightarrow> Master option" where
  "stopRPCServer ok mr = (if ok then Master_Shutdown mr else Some mr)"

section \<open>Names are distinct\<close>

lemma reduceName_inj:
  "0 \<le> m \<Longrightarrow> 0 \<le> r \<Longrightarrow> 0 \<le> m' \<Longrightarrow> 0 \<le> r' \<Longrightarrow> reduceName job m r = reduceName job m' r' \<longleftrightarrow> m = m' \<and> r = r'"
  by (auto simp: reduceName_def Itoa_def dash_split [OF no_dash no_dash] dest!: digits_inj)

lemma mergeName_inj: "0 \<le> r \<Longrightarrow> 0 \<le> r' \<Longrightarrow> mergeName job r = mergeName job r' \<longleftrightarrow> r = r'"
  by (auto simp: mergeName_def Itoa_def dest!: digits_inj)

lemma mergeName_reduceName: "0 \<le> m \<Longrightarrow> mergeName job r \<noteq> reduceName job m r'"
proof
  assume "0 \<le> m" and "mergeName job r = reduceName job m r'"
  then have "''res'' @ CHR ''-'' # Itoa r = digits (nat m) @ CHR ''-'' # Itoa r'"
    by (simp add: mergeName_def reduceName_def Itoa_def [of m])
  then have "''res'' = digits (nat m)" by (subst (asm) dash_split) (simp_all add: no_dash)
  then show False using no_r [of "nat m"] by (metis list.set_intros(1))
qed

lemma output_other: "reduceName job m r \<noteq> ''mrtmp.'' @ job" "mergeName job r \<noteq> ''mrtmp.'' @ job"
  by (simp_all add: reduceName_def mergeName_def)

lemma distinct_cleanup_names: "distinct (cleanup_names mr)"
proof -
  let ?ms = "[0 .. int (length (mr_files mr)) - 1]" and ?rs = "[0 .. mr_nReduce mr - 1]" and ?job = "mr_jobName mr"
  have "concat (map (\<lambda>i. map (\<lambda>j. reduceName ?job i j) ?rs) ?ms) = map (\<lambda>(i, j). reduceName ?job i j) (List.product ?ms ?rs)"
    by (simp add: product_concat_map map_concat comp_def)
  moreover have "distinct (map (\<lambda>(i, j). reduceName ?job i j) (List.product ?ms ?rs))"
    by (auto simp: distinct_map inj_on_def reduceName_inj intro!: distinct_product)
  ultimately have "distinct (concat (map (\<lambda>i. map (\<lambda>j. reduceName ?job i j) ?rs) ?ms))" by simp
  then show ?thesis
    by (auto simp: cleanup_names_def distinct_map inj_on_def mergeName_inj mergeName_reduceName output_other
        output_other [symmetric, simplified] mergeName_reduceName [symmetric])
qed

lemma removeFile_all:
  assumes "distinct ns" and "\<forall>n \<in> set ns. fs_files fs n \<noteq> None"
  shows "run_all removeFile ns fs = Some (fs\<lparr>fs_files := (\<lambda>n. if n \<in> set ns then None else fs_files fs n)\<rparr>)"
  using assms
proof (induction ns arbitrary: fs)
  case (Cons n ns)
  let ?fs = "fs\<lparr>fs_files := (fs_files fs)(n := None)\<rparr>"
  have "removeFile n fs = Some ?fs" using Cons.prems by (auto simp: removeFile_def)
  moreover have "run_all removeFile ns ?fs = Some (?fs\<lparr>fs_files := (\<lambda>m. if m \<in> set ns then None else fs_files ?fs m)\<rparr>)"
    using Cons.prems by (intro Cons.IH) auto
  moreover have "(\<lambda>m. if m \<in> set ns then None else fs_files ?fs m) = (\<lambda>m. if m \<in> set (n # ns) then None else fs_files fs m)"
    by (auto simp: fun_eq_iff)
  ultimately show ?case by simp
qed simp

lemma removeFile_missing:
  "\<exists>n \<in> set ns. fs_files fs n = None \<Longrightarrow> run_all removeFile ns fs = None"
proof (induction ns arbitrary: fs)
  case (Cons n ns)
  show ?case
  proof (cases "fs_files fs n")
    case (Some c)
    with Cons.prems obtain m where "m \<in> set ns" "fs_files fs m = None" by auto
    then have "\<exists>m \<in> set ns. fs_files (fs\<lparr>fs_files := (fs_files fs)(n := None)\<rparr>) m = None" by auto
    from Cons.IH [OF this] Some show ?thesis by (simp add: removeFile_def)
  qed (simp add: removeFile_def)
qed simp

section \<open>The merged map\<close>

text \<open>The last value of every key, over the contents in order.\<close>

definition put_kv :: "KeyValue \<Rightarrow> (string \<rightharpoonup> string) \<Rightarrow> string \<rightharpoonup> string" where
  "put_kv kv m = m(kv_Key kv \<mapsto> kv_Value kv)"

definition last_values :: "KeyValue list \<Rightarrow> string \<rightharpoonup> string" where
  "last_values kvs = fold put_kv kvs Map.empty"

lemma merge_fold:
  "map_of (fold (\<lambda>kv m. AList.update (kv_Key kv) (kv_Value kv) m) kvs xs) = fold put_kv kvs (map_of xs)"
  "distinct (map fst xs) \<Longrightarrow> distinct (map fst (fold (\<lambda>kv m. AList.update (kv_Key kv) (kv_Value kv) m) kvs xs))"
  by (induction kvs arbitrary: xs) (auto simp: update_conv' put_kv_def intro: distinct_update)

lemma merge_read_files:
  assumes "\<forall>i \<in> set is. fs_files fs (mergeName job i) = Some (c i)" and "distinct (map fst xs)"
  shows "\<exists>kvs. merge_read decode fs job is xs = Some kvs \<and> distinct (map fst kvs)
    \<and> map_of kvs = fold put_kv (concat (map (\<lambda>i. decode (c i)) is)) (map_of xs)"
  using assms
proof (induction "is" arbitrary: xs)
  case (Cons i "is")
  let ?xs = "merge_file decode (c i) xs"
  have "distinct (map fst ?xs)" using Cons.prems(2) by (simp add: merge_file_def merge_fold(2))
  with Cons.IH [of ?xs] Cons.prems(1) obtain kvs where kvs: "merge_read decode fs job is ?xs = Some kvs" "distinct (map fst kvs)"
    "map_of kvs = fold put_kv (concat (map (\<lambda>i. decode (c i)) is)) (map_of ?xs)" by auto
  have "map_of ?xs = fold put_kv (decode (c i)) (map_of xs)"
    by (simp only: merge_file_def merge_fold(1))
  with kvs Cons.prems(1) show ?case by simp
qed simp

lemma merge_read_missing:
  "i \<in> set is \<Longrightarrow> fs_files fs (mergeName job i) = None \<Longrightarrow> merge_read decode fs job is xs = None"
  by (induction "is" arbitrary: xs) (auto split: Option.bind_splits)

lemma keys_sorted:
  assumes "distinct (map fst kvs)"
  shows "sort (map fst kvs) = sorted_list_of_set (dom (map_of kvs))"
  using assms by (simp add: dom_map_of_conv_image_fst sorted_list_of_set_sort_remdups distinct_remdups_id flip: set_map)

lemma ihash_range: "0 \<le> ihash s \<and> ihash s < 2 ^ 31"
proof -
  have "(w AND 0x7fffffff) = take_bit 31 w" for w :: "32 word" by (simp add: take_bit_eq_mask mask_eq_exp_minus_1)
  then show ?thesis using take_bit_int_less_exp [of 31] by (simp add: ihash_def unsigned_take_bit_eq)
qed

section \<open>Properties\<close>

text \<open>
  C32. \<open>merge\<close> writes one line per key, in increasing order of the keys, with the last value that the reduce
  outputs have for the key, in the order of the reduce tasks; it changes no other file. The outputs of
  all reduce tasks have to exist: the decoder is arbitrary.
\<close>

theorem merge_writes_sorted_last_values:
  assumes "\<forall>i \<in> {0 ..< mr_nReduce mr}. fs_files fs (mergeName (mr_jobName mr) i) = Some (c i)"
    and "fs_writable fs (''mrtmp.'' @ mr_jobName mr)"
  shows "merge decode mr fs = Some (fs\<lparr>fs_files := (fs_files fs)(''mrtmp.'' @ mr_jobName mr \<mapsto>
    (let final = last_values (concat (map (\<lambda>i. decode (c i)) [0 .. mr_nReduce mr - 1]))
     in concat (map (\<lambda>k. k @ '': '' @ the (final k) @ [char_of (10 :: nat)]) (sorted_list_of_set (dom final)))))\<rparr>)"
proof -
  have "\<forall>i \<in> set [0 .. mr_nReduce mr - 1]. fs_files fs (mergeName (mr_jobName mr) i) = Some (c i)" using assms(1) by simp
  from merge_read_files [OF this, of "[]" decode] obtain kvs where
    kvs: "merge_read decode fs (mr_jobName mr) [0 .. mr_nReduce mr - 1] [] = Some kvs" "distinct (map fst kvs)"
      "map_of kvs = last_values (concat (map (\<lambda>i. decode (c i)) [0 .. mr_nReduce mr - 1]))"
    by (auto simp: last_values_def)
  then have "output_line kvs = (\<lambda>k. k @ '': '' @ the (last_values (concat (map (\<lambda>i. decode (c i)) [0 .. mr_nReduce mr - 1])) k)
      @ [char_of (10 :: nat)])" by (simp add: output_line_def fun_eq_iff)
  with kvs keys_sorted [OF kvs(2)] assms(2) show ?thesis by (simp add: merge_def Let_def)
qed

text \<open>A job with one map task and one reduce task, whose reduce output has a key twice.\<close>

definition ex_master :: Master where
  "ex_master = (newMaster ''master'')\<lparr>mr_jobName := ''j'', mr_files := [''in''], mr_nReduce := 1\<rparr>"

definition ex_decode :: "string \<Rightarrow> KeyValue list" where
  "ex_decode content = [\<lparr>kv_Key = ''b'', kv_Value = ''2''\<rparr>, \<lparr>kv_Key = ''a'', kv_Value = ''1''\<rparr>, \<lparr>kv_Key = ''b'', kv_Value = ''3''\<rparr>]"

definition ex_fs :: file_system where
  "ex_fs = \<lparr>fs_files = [reduceName ''j'' 0 0 \<mapsto> [], mergeName ''j'' 0 \<mapsto> [], ''mrtmp.j'' \<mapsto> [], ''in'' \<mapsto> []], fs_writable = (\<lambda>n. True)\<rparr>"

lemma ex_names: "reduceName ''j'' 0 0 = ''mrtmp.j-0-0''" "mergeName ''j'' 0 = ''mrtmp.j-res-0''"
  by code_simp+

theorem merge_writes_sorted_last_values_witness:
  "\<exists>fs'. merge ex_decode ex_master ex_fs = Some fs'
    \<and> fs_files fs' ''mrtmp.j'' = Some (''a: 1'' @ [char_of (10 :: nat)] @ ''b: 3'' @ [char_of (10 :: nat)])"
proof -
  have "last_values (ex_decode []) = [''b'' \<mapsto> ''3'', ''a'' \<mapsto> ''1'']"
    by (simp add: last_values_def put_kv_def ex_decode_def fun_upd_twist)
  moreover have "sort [''b'', ''a''] = [''a'', ''b'']" by code_simp
  then have "sorted_list_of_set {''b'', ''a''} = [''a'', ''b'']"
    using sorted_list_of_set_sort_remdups [of "[''b'', ''a'']"] by simp
  moreover have "\<forall>i \<in> {0 ..< mr_nReduce ex_master}. fs_files ex_fs (mergeName (mr_jobName ex_master) i) = Some []"
  proof
    fix i
    assume "i \<in> {0 ..< mr_nReduce ex_master}"
    then have "i = 0" by (simp add: ex_master_def)
    then show "fs_files ex_fs (mergeName (mr_jobName ex_master) i) = Some []" by (simp add: ex_master_def ex_fs_def ex_names)
  qed
  ultimately show ?thesis
    using merge_writes_sorted_last_values [of ex_master ex_fs "\<lambda>i. []" ex_decode]
    by (simp add: ex_master_def ex_fs_def Let_def insert_commute)
qed

text \<open>
  \<open>CleanupFiles\<close> succeeds exactly when all the files of the job exist: the intermediate file of every map
  and reduce task, the output of every reduce task and the merged output. It then removes these and
  nothing else. No two of these names coincide, so no file is removed twice.
\<close>

theorem CleanupFiles_removes_job_files:
  "CleanupFiles mr fs =
     (if \<forall>n \<in> set (cleanup_names mr). fs_files fs n \<noteq> None
      then Some (fs\<lparr>fs_files := (\<lambda>n. if n \<in> set (cleanup_names mr) then None else fs_files fs n)\<rparr>)
      else None)"
  using removeFile_all [OF distinct_cleanup_names] removeFile_missing [of "cleanup_names mr" fs]
  by (simp add: CleanupFiles_def)

theorem CleanupFiles_removes_job_files_witness:
  "\<exists>fs'. CleanupFiles ex_master ex_fs = Some fs' \<and> fs_files fs' = [''in'' \<mapsto> []]"
proof -
  have names: "cleanup_names ex_master = [''mrtmp.j-0-0'', ''mrtmp.j-res-0'', ''mrtmp.j'']" by code_simp
  have "\<forall>n \<in> set (cleanup_names ex_master). fs_files ex_fs n \<noteq> None"
    unfolding names by (simp add: ex_fs_def ex_names)
  then have "CleanupFiles ex_master ex_fs
      = Some (ex_fs\<lparr>fs_files := (\<lambda>n. if n \<in> set (cleanup_names ex_master) then None else fs_files ex_fs n)\<rparr>)"
    unfolding CleanupFiles_removes_job_files by (rule if_P)
  then show ?thesis unfolding names by (auto simp: ex_fs_def ex_names fun_eq_iff)
qed

text \<open>
  With the empty \<open>doMap\<close> and \<open>doReduce\<close> of the repository nobody writes the reduce outputs, so a sequential job
  with at least one reduce task ends the process in \<open>merge\<close>, unless the files are left over from elsewhere.
\<close>

theorem Sequential_aborts_on_stubs:
  assumes "0 < nreduce" and "fs_files fs (mergeName jobName 0) = None"
  shows "Sequential decode jobName files nreduce fs = None"
proof -
  have "fold (\<lambda>(i, f). doMap a (int i) f b) xs fs = fs" for a b xs and fs :: file_system
    by (induction xs arbitrary: fs) (auto simp: doMap_def)
  moreover have "fold (\<lambda>i. doReduce a i (mergeName a i) b) ys fs = fs" for a b ys and fs :: file_system
    by (induction ys arbitrary: fs) (auto simp: doReduce_def)
  ultimately have "sequential_phase p (mr, fs) = (mr, fs)" for p mr by (cases p) simp_all
  moreover have "merge decode mr fs = None" if "mr_jobName mr = jobName" "mr_nReduce mr = nreduce" for mr
    using merge_read_missing [of 0 "[0 .. nreduce - 1]" fs jobName] assms that by (simp add: merge_def)
  ultimately show ?thesis by (simp add: Sequential_def run_job_def Let_def del: sequential_phase.simps)
qed

end
