(* ===== verification/Mapreduce_Workers.thy ===== *)
theory Mapreduce_Workers
  imports Mapreduce "HOL-Library.Multiset"
begin

text \<open>
  The processes of a distributed MapReduce job (\<open>src/src/mapreduce\<close>): the RPC server of the master with
  \<open>Register\<close> and \<open>Shutdown\<close> (\<open>master.go\<close>, \<open>master_rpc.go\<close>), \<open>forwardRegistrations\<close>, and the workers with \<open>DoTask\<close>
  and \<open>Shutdown\<close> (\<open>worker.go\<close>).

  \<^item> A process is a state and a step function on events, one event for each locked region or blocking
    operation of one of its goroutines; \<open>None\<close> is an event that cannot happen in the state, or one that
    ends the process (\<open>log.Fatal\<close>, a panic). A run is a list of events, so every interleaving is one.
  \<^item> \<open>net\<close> and \<open>net/rpc\<close>: a listener that is closed accepts nothing; requests come over an accepted
    connection, any number of them, and each runs in its own goroutine. \<open>dial\<close> and \<open>invoke\<close> are \<open>rpc.Dial\<close>
    and \<open>Client.Call\<close>, with the state of the rest of the system passed through.
\<close>

section \<open>Calls\<close>

definition call ::
  "(string \<Rightarrow> 'w \<Rightarrow> 'conn option) \<Rightarrow> ('conn \<Rightarrow> string \<Rightarrow> 'a \<Rightarrow> 'w \<Rightarrow> 'w \<times> ('e + 'r)) \<Rightarrow> string \<Rightarrow> string \<Rightarrow> 'a \<Rightarrow> 'w
     \<Rightarrow> 'w \<times> 'r option" where
  "call dial invoke srv rpcname args w =
     (case dial srv w of
        None \<Rightarrow> (w, None)
      | Some c \<Rightarrow> (case invoke c rpcname args w of
                   (w', Inl err) \<Rightarrow> (w', None)
                 | (w', Inr reply) \<Rightarrow> (w', Some reply)))"

section \<open>The master's RPC server\<close>

definition Master_Register :: "string \<Rightarrow> Master \<Rightarrow> Master" where
  "Master_Register worker mr = mr\<lparr>mr_workers := mr_workers mr @ [worker]\<rparr>"

text \<open>The goroutine of \<open>startRPCServer\<close>: before the \<open>select\<close>, in \<open>Accept\<close>, or past the loop.\<close>

datatype ms_pc = MSelect | MAccept | MDone

record master_server =
  ms_master :: Master
  ms_listening :: bool
  ms_pc :: ms_pc
  ms_conns :: nat

text \<open>\<open>can_listen\<close> says whether \<open>net.Listen\<close> succeeds on an address from which \<open>os.Remove\<close> has removed the old socket.\<close>

definition startRPCServer :: "(string \<Rightarrow> bool) \<Rightarrow> Master \<Rightarrow> master_server option" where
  "startRPCServer can_listen mr =
     (if can_listen (mr_address mr)
      then Some \<lparr>ms_master = mr, ms_listening = True, ms_pc = MSelect, ms_conns = 0\<rparr> else None)"

datatype ms_event = MTurn | MConnect | MAcceptError | MRegister string | MShutdown

text \<open>
  The \<open>break\<close> after an error of \<open>Accept\<close> stands outside the \<open>select\<close> and leaves the \<open>for\<close> loop. \<open>Shutdown\<close> closes
  the channel, a panic the second time, and the listener.
\<close>

fun ms_step :: "ms_event \<Rightarrow> master_server \<Rightarrow> master_server option" where
  "ms_step MTurn s =
     (if ms_pc s = MSelect then Some (s\<lparr>ms_pc := if mr_shutdown (ms_master s) then MDone else MAccept\<rparr>) else None)"
| "ms_step MConnect s =
     (if ms_pc s = MAccept \<and> ms_listening s then Some (s\<lparr>ms_pc := MSelect, ms_conns := ms_conns s + 1\<rparr>) else None)"
| "ms_step MAcceptError s = (if ms_pc s = MAccept then Some (s\<lparr>ms_pc := MDone\<rparr>) else None)"
| "ms_step (MRegister w) s =
     (if ms_conns s > 0 then Some (s\<lparr>ms_master := Master_Register w (ms_master s)\<rparr>) else None)"
| "ms_step MShutdown s =
     (if ms_conns s > 0
      then do { mr \<leftarrow> Master_Shutdown (ms_master s); Some (s\<lparr>ms_master := mr, ms_listening := False\<rparr>) } else None)"

text \<open>
  A distributed job: \<open>evs\<close> are the events of the master's server until the job finishes, and \<open>call_shutdown\<close> is
  the call of \<open>Worker.Shutdown\<close>. The forwarders that it starts, one for each phase, go on beside it; \<open>schedule\<close> does
  not read from their channels.
\<close>

definition Distributed ::
  "(string \<Rightarrow> KeyValue list) \<Rightarrow> (string \<Rightarrow> int option) \<Rightarrow> (string \<Rightarrow> bool) \<Rightarrow> bool \<Rightarrow> string \<Rightarrow> string list \<Rightarrow> int \<Rightarrow> string
     \<Rightarrow> ms_event list \<Rightarrow> file_system \<Rightarrow> (Master \<times> file_system) option" where
  "Distributed decode call_shutdown can_listen ok jobName files nreduce master evs fs =
     do {
       s \<leftarrow> startRPCServer can_listen (newMaster master);
       s' \<leftarrow> run_all ms_step evs s;
       run_job decode jobName files nreduce (\<lambda>phase st. st)
         (\<lambda>mr. stopRPCServer ok (mr\<lparr>mr_stats := killWorkers call_shutdown (mr_workers mr)\<rparr>))
         (ms_master s', fs)
     }"

section \<open>Forwarding registrations\<close>

text \<open>
  \<open>forwardRegistrations\<close> beside \<open>Register\<close>, on the master's mutex: the forwarder's index, whether it waits on
  the condition, the goroutines that it has started and that still wait to send their worker on the
  channel, and what the other side of the channel has received. A turn of a forwarder that waits is
  blocked; any of the waiting senders may be the next to get through.
\<close>

record forwarder =
  fw_master :: Master
  fw_i :: nat
  fw_waiting :: bool
  fw_senders :: "string list"
  fw_received :: "string list"

abbreviation fw_workers :: "forwarder \<Rightarrow> string list" where
  "fw_workers s \<equiv> mr_workers (fw_master s)"

datatype reg_event = RegisterWorker string | ForwardTurn | ReceiveWorker nat

fun reg_step :: "reg_event \<Rightarrow> forwarder \<Rightarrow> forwarder option" where
  "reg_step (RegisterWorker w) s = Some (s\<lparr>fw_master := Master_Register w (fw_master s), fw_waiting := False\<rparr>)"
| "reg_step ForwardTurn s =
     (if fw_waiting s then None
      else if length (fw_workers s) > fw_i s
      then do { w \<leftarrow> idx (fw_workers s) (int (fw_i s));
                Some (s\<lparr>fw_senders := fw_senders s @ [w], fw_i := fw_i s + 1\<rparr>) }
      else Some (s\<lparr>fw_waiting := True\<rparr>))"
| "reg_step (ReceiveWorker k) s =
     do { w \<leftarrow> idx (fw_senders s) (int k);
          Some (s\<lparr>fw_senders := take k (fw_senders s) @ drop (Suc k) (fw_senders s),
                  fw_received := fw_received s @ [w]\<rparr>) }"

definition fw_start :: "Master \<Rightarrow> forwarder" where
  "fw_start mr = \<lparr>fw_master = mr, fw_i = 0, fw_waiting = False, fw_senders = [], fw_received = []\<rparr>"

section \<open>Workers\<close>

record Parallelism =
  par_now :: int
  par_max :: int

record Worker =
  wk_name :: string
  wk_nRPC :: int
  wk_nTasks :: int
  wk_concurrent :: int

record DoTaskArgs =
  dt_JobName :: string
  dt_File :: string
  dt_Phase :: jobPhase
  dt_TaskNumber :: int
  dt_NumOtherPhase :: int

definition par_enter :: "Parallelism \<Rightarrow> Parallelism \<times> bool" where
  "par_enter p =
     (let p1 = p\<lparr>par_now := par_now p + 1\<rparr>;
          p2 = (if par_now p1 > par_max p1 then p1\<lparr>par_max := par_now p1\<rparr> else p1)
      in (p2, par_max p2 < 2))"

definition par_leave :: "Parallelism \<Rightarrow> Parallelism" where
  "par_leave p = p\<lparr>par_now := par_now p - 1\<rparr>"

text \<open>\<open>DoTask\<close> up to the task, with whether it pauses; the task; and after it.\<close>

definition DoTask_begin :: "Worker \<times> Parallelism option \<Rightarrow> ((Worker \<times> Parallelism option) \<times> bool) option" where
  "DoTask_begin = (\<lambda>(wk, par).
     let wk1 = wk\<lparr>wk_nTasks := wk_nTasks wk + 1, wk_concurrent := wk_concurrent wk + 1\<rparr>
     in if wk_concurrent wk1 > 1 then None
        else case par of
               None \<Rightarrow> Some ((wk1, None), False)
             | Some p \<Rightarrow> let (p', pause) = par_enter p in Some ((wk1, Some p'), pause))"

fun DoTask_work :: "DoTaskArgs \<Rightarrow> file_system \<Rightarrow> file_system" where
  "DoTask_work arg fs =
     (case dt_Phase arg of
        mapPhase \<Rightarrow> doMap (dt_JobName arg) (dt_TaskNumber arg) (dt_File arg) (dt_NumOtherPhase arg) fs
      | reducePhase \<Rightarrow> doReduce (dt_JobName arg) (dt_TaskNumber arg) (mergeName (dt_JobName arg) (dt_TaskNumber arg))
                         (dt_NumOtherPhase arg) fs)"

definition DoTask_end :: "Worker \<times> Parallelism option \<Rightarrow> Worker \<times> Parallelism option" where
  "DoTask_end = (\<lambda>(wk, par). (wk\<lparr>wk_concurrent := wk_concurrent wk - 1\<rparr>, map_option par_leave par))"

definition Worker_Shutdown :: "Worker \<Rightarrow> Worker \<times> int" where
  "Worker_Shutdown wk = (wk\<lparr>wk_nRPC := 1\<rparr>, wk_nTasks wk)"

definition NewWorker :: "string \<Rightarrow> int \<Rightarrow> Worker" where
  "NewWorker me nRPC = \<lparr>wk_name = me, wk_nRPC = nRPC, wk_nTasks = 0, wk_concurrent = 0\<rparr>"

text \<open>\<open>register\<close>; \<open>call_register\<close> is the call of \<open>Master.Register\<close> at the master's address. The second result is what is printed.\<close>

definition register :: "(string \<Rightarrow> string \<Rightarrow> 'w \<Rightarrow> 'w \<times> unit option) \<Rightarrow> string \<Rightarrow> Worker \<Rightarrow> 'w \<Rightarrow> 'w \<times> string" where
  "register call_register master wk w =
     (case call_register master (wk_name wk) w of
        (w', None) \<Rightarrow> (w', ''Register: RPC '' @ master @ '' register error'' @ [char_of (10 :: nat)])
      | (w', Some _) \<Rightarrow> (w', []))"

text \<open>
  The goroutine of \<open>RunWorker\<close>: before it looks at \<open>nRPC\<close>, in \<open>Accept\<close>, after an \<open>Accept\<close> that gave a connection
  and before it counts it, or past the loop. \<open>wp_tasks\<close> are the tasks whose \<open>DoTask\<close> is running.
\<close>

datatype wp_pc = WTop | WAccept | WCount | WDone

record worker_process =
  wp_worker :: Worker
  wp_par :: "Parallelism option"
  wp_pc :: wp_pc
  wp_conns :: nat
  wp_tasks :: "DoTaskArgs list"
  wp_fs :: file_system

definition RunWorker ::
  "(string \<Rightarrow> bool) \<Rightarrow> (string \<Rightarrow> string \<Rightarrow> 'w \<Rightarrow> 'w \<times> unit option) \<Rightarrow> string \<Rightarrow> string \<Rightarrow> int \<Rightarrow> Parallelism option
     \<Rightarrow> file_system \<Rightarrow> 'w \<Rightarrow> (worker_process \<times> 'w \<times> string) option" where
  "RunWorker can_listen call_register MasterAddress me nRPC parallelism fs w =
     (let wk = NewWorker me nRPC
      in if can_listen me
         then let (w', out) = register call_register MasterAddress wk w
              in Some (\<lparr>wp_worker = wk, wp_par = parallelism, wp_pc = WTop, wp_conns = 0, wp_tasks = [], wp_fs = fs\<rparr>, w', out)
         else None)"

datatype wp_event = WTurn | WConnect | WAcceptError | WCounted | WDoTask DoTaskArgs | WTaskEnds nat | WShutdown

fun wp_step :: "wp_event \<Rightarrow> worker_process \<Rightarrow> worker_process option" where
  "wp_step WTurn s =
     (if wp_pc s = WTop then Some (s\<lparr>wp_pc := if wk_nRPC (wp_worker s) = 0 then WDone else WAccept\<rparr>) else None)"
| "wp_step WConnect s = (if wp_pc s = WAccept then Some (s\<lparr>wp_pc := WCount\<rparr>) else None)"
| "wp_step WAcceptError s = (if wp_pc s = WAccept then Some (s\<lparr>wp_pc := WDone\<rparr>) else None)"
| "wp_step WCounted s =
     (if wp_pc s = WCount
      then Some (s\<lparr>wp_worker := (wp_worker s)\<lparr>wk_nRPC := wk_nRPC (wp_worker s) - 1\<rparr>, wp_conns := wp_conns s + 1,
                   wp_pc := WTop\<rparr>)
      else None)"
| "wp_step (WDoTask arg) s =
     (if wp_conns s > 0
      then do { ((wk, par), pause) \<leftarrow> DoTask_begin (wp_worker s, wp_par s);
                Some (s\<lparr>wp_worker := wk, wp_par := par, wp_tasks := wp_tasks s @ [arg]\<rparr>) }
      else None)"
| "wp_step (WTaskEnds k) s =
     do { arg \<leftarrow> idx (wp_tasks s) (int k);
          let (wk, par) = DoTask_end (wp_worker s, wp_par s);
          Some (s\<lparr>wp_worker := wk, wp_par := par, wp_tasks := take k (wp_tasks s) @ drop (Suc k) (wp_tasks s),
                  wp_fs := DoTask_work arg (wp_fs s)\<rparr>) }"
| "wp_step WShutdown s =
     (if wp_conns s > 0 then Some (s\<lparr>wp_worker := fst (Worker_Shutdown (wp_worker s))\<rparr>) else None)"

section \<open>Counting tasks\<close>

datatype par_event = TaskEnters | TaskLeaves

fun par_step :: "par_event \<Rightarrow> Parallelism \<Rightarrow> Parallelism" where
  "par_step TaskEnters p = fst (par_enter p)"
| "par_step TaskLeaves p = par_leave p"

definition running :: "par_event list \<Rightarrow> int" where
  "running evs = int (count_list evs TaskEnters) - int (count_list evs TaskLeaves)"

definition most_running :: "par_event list \<Rightarrow> int" where
  "most_running evs = Max ((\<lambda>n. running (take n evs)) ` {..length evs})"

lemma running_snoc: "running (evs @ [e]) = running evs + (if e = TaskEnters then 1 else - 1)"
  by (cases e) (simp_all add: running_def)

lemma most_running_snoc: "most_running (evs @ [e]) = max (running (evs @ [e])) (most_running evs)"
proof -
  have "(\<lambda>n. running (take n (evs @ [e]))) ` {..length (evs @ [e])}
      = insert (running (evs @ [e])) ((\<lambda>n. running (take n evs)) ` {..length evs})"
    by (auto simp: atMost_Suc image_iff)
  then show ?thesis by (simp add: most_running_def)
qed

lemma par_counts:
  "fold par_step evs \<lparr>par_now = 0, par_max = 0\<rparr> = \<lparr>par_now = running evs, par_max = most_running evs\<rparr>"
proof (induction evs rule: rev_induct)
  case Nil
  then show ?case by (simp add: running_def most_running_def)
next
  case (snoc e evs)
  have "running evs \<le> most_running evs" unfolding most_running_def by (rule Max_ge) (auto intro: rev_image_eqI [of "length evs"])
  with snoc show ?case
    by (cases e) (auto simp: running_snoc most_running_snoc par_enter_def par_leave_def max_def)
qed

section \<open>What the forwarder keeps\<close>

text \<open>The workers that the events of a run register, in order.\<close>

fun reg_names :: "reg_event list \<Rightarrow> string list" where
  "reg_names [] = []"
| "reg_names (RegisterWorker w # evs) = w # reg_names evs"
| "reg_names (e # evs) = reg_names evs"

lemma fw_workers_run: "run_all reg_step evs s = Some t \<Longrightarrow> fw_workers t = fw_workers s @ reg_names evs"
proof (induction evs arbitrary: s rule: reg_names.induct)
  case (2 w evs)
  then show ?case by (fastforce simp: Master_Register_def)
qed (auto simp: Option.bind_eq_Some_conv split: if_splits)

lemma mset_move_nth:
  assumes "k < length xs"
  shows "add_mset (xs ! k) (A + (mset (take k xs) + mset (drop (Suc k) xs))) = A + mset xs"
proof -
  have "mset xs = mset (take k xs @ xs ! k # drop (Suc k) xs)" using id_take_nth_drop [OF assms] by simp
  then show ?thesis by simp
qed

text \<open>The workers up to the index have been received or have a sender that waits.\<close>

definition fw_ok :: "forwarder \<Rightarrow> bool" where
  "fw_ok s \<longleftrightarrow> mset (fw_received s) + mset (fw_senders s) = mset (take (fw_i s) (fw_workers s))
     \<and> fw_i s \<le> length (fw_workers s) \<and> (fw_waiting s \<longrightarrow> fw_i s = length (fw_workers s))"

lemma fw_ok_step: "reg_step e s = Some t \<Longrightarrow> fw_ok s \<Longrightarrow> fw_ok t"
  by (cases e)
    (auto simp: fw_ok_def take_Suc_conv_app_nth Master_Register_def Option.bind_eq_Some_conv idx_eq_Some mset_move_nth
      split: if_splits)

interpretation forwarding: invariant_machine reg_step "\<lambda>e. True" fw_ok
  by unfold_locales (rule fw_ok_step)

lemma fw_ok_start: "fw_ok (fw_start mr)"
  by (simp add: fw_ok_def fw_start_def)

lemma fw_ok_length: "fw_ok s \<Longrightarrow> length (fw_received s) + length (fw_senders s) = fw_i s"
  unfolding fw_ok_def by (metis length_take min.absorb2 mset_append size_mset length_append)

lemma fw_drain_turns:
  assumes "fw_ok s" and "n = length (fw_workers s) - fw_i s"
  shows "\<exists>t. run_all reg_step (replicate n ForwardTurn) s = Some t \<and> fw_ok t \<and> fw_master t = fw_master s
    \<and> fw_i t = length (fw_workers s) \<and> fw_received t = fw_received s"
  using assms
proof (induction n arbitrary: s)
  case (Suc n)
  then have s: "\<not> fw_waiting s" "fw_i s < length (fw_workers s)" by (auto simp: fw_ok_def)
  let ?t = "s\<lparr>fw_senders := fw_senders s @ [fw_workers s ! fw_i s], fw_i := fw_i s + 1\<rparr>"
  have t: "reg_step ForwardTurn s = Some ?t" using s by simp
  have "fw_ok ?t" "n = length (fw_workers ?t) - fw_i ?t" using fw_ok_step [OF t] Suc.prems by auto
  from Suc.IH [OF this] t show ?case by simp
qed (auto simp: fw_ok_def)

lemma fw_drain_senders:
  "n = length (fw_senders s) \<Longrightarrow> \<exists>t. run_all reg_step (replicate n (ReceiveWorker 0)) s = Some t
     \<and> fw_received t = fw_received s @ fw_senders s"
proof (induction n arbitrary: s)
  case (Suc n)
  then obtain w ws where ws: "fw_senders s = w # ws" by (cases "fw_senders s") auto
  with Suc.IH [of "s\<lparr>fw_senders := ws, fw_received := fw_received s @ [w]\<rparr>"] Suc.prems show ?case
    by (simp add: idx_zero_Cons)
qed simp

section \<open>What the servers keep\<close>

text \<open>Without accept errors and \<open>Shutdown\<close>, the connections counted and those left to count add up to \<open>K\<close>.\<close>

definition accepts :: "int \<Rightarrow> worker_process \<Rightarrow> bool" where
  "accepts K s \<longleftrightarrow> 0 \<le> wk_nRPC (wp_worker s) \<and> wk_nRPC (wp_worker s) + int (wp_conns s) = K
     \<and> (wp_pc s \<in> {WAccept, WCount} \<longrightarrow> 0 < wk_nRPC (wp_worker s)) \<and> (wp_pc s = WDone \<longrightarrow> wk_nRPC (wp_worker s) = 0)"

lemma DoTask_nRPC:
  "DoTask_begin (wk, par) = Some ((wk', par'), pause) \<Longrightarrow> wk_nRPC wk' = wk_nRPC wk"
  by (auto simp: DoTask_begin_def Let_def split: if_splits option.splits prod.splits)

lemma accepts_step: "wp_step e s = Some t \<Longrightarrow> e \<notin> {WShutdown, WAcceptError} \<Longrightarrow> accepts K s \<Longrightarrow> accepts K t"
  by (cases e) (auto simp: accepts_def DoTask_end_def Option.bind_eq_Some_conv split: if_splits prod.splits dest!: DoTask_nRPC)

interpretation accepting: invariant_machine wp_step "\<lambda>e. e \<notin> {WShutdown, WAcceptError}" "accepts K"
  by unfold_locales (rule accepts_step)

text \<open>At most one task runs, as \<open>concurrent\<close> says.\<close>

definition one_task :: "worker_process \<Rightarrow> bool" where
  "one_task s \<longleftrightarrow> wk_concurrent (wp_worker s) = int (length (wp_tasks s)) \<and> length (wp_tasks s) \<le> 1"

lemma DoTask_concurrent:
  "DoTask_begin (wk, par) = Some ((wk', par'), pause) \<Longrightarrow> wk_concurrent wk' = wk_concurrent wk + 1 \<and> wk_concurrent wk \<le> 0"
  by (auto simp: DoTask_begin_def Let_def split: if_splits option.splits prod.splits)

lemma one_task_step: "wp_step e s = Some t \<Longrightarrow> one_task s \<Longrightarrow> one_task t"
  by (cases e)
    (auto simp: one_task_def DoTask_end_def Option.bind_eq_Some_conv Worker_Shutdown_def idx_eq_Some split: if_splits prod.splits
      dest!: DoTask_concurrent)

interpretation tasks: invariant_machine wp_step "\<lambda>e. True" one_task
  by unfold_locales (rule one_task_step)

definition is_task :: "wp_event \<Rightarrow> bool" where
  "is_task e \<longleftrightarrow> (\<exists>arg. e = WDoTask arg)"

lemma DoTask_nTasks: "DoTask_begin (wk, par) = Some ((wk', par'), pause) \<Longrightarrow> wk_nTasks wk' = wk_nTasks wk + 1"
  by (auto simp: DoTask_begin_def Let_def split: if_splits option.splits prod.splits)

lemma nTasks_step:
  "wp_step e s = Some t \<Longrightarrow> wk_nTasks (wp_worker t) = wk_nTasks (wp_worker s) + (if is_task e then 1 else 0)"
  by (cases e)
    (auto simp: is_task_def DoTask_end_def Option.bind_eq_Some_conv Worker_Shutdown_def split: if_splits prod.splits
      dest!: DoTask_nTasks)

lemma nTasks_run:
  "run_all wp_step evs s = Some t \<Longrightarrow> wk_nTasks (wp_worker t) = wk_nTasks (wp_worker s) + int (length (filter is_task evs))"
  by (induction evs arbitrary: s) (auto simp: Option.bind_eq_Some_conv dest!: nTasks_step)

lemma RunWorker_start:
  assumes "RunWorker can_listen call_register master me nRPC par fs w = Some (s, w', out)"
  shows "one_task s" and "wk_nTasks (wp_worker s) = 0" and "0 \<le> nRPC \<Longrightarrow> accepts nRPC s"
  using assms by (auto simp: RunWorker_def NewWorker_def one_task_def accepts_def Let_def split: if_splits prod.splits)

lemma killWorkers_filter: "killWorkers c ws = map (the \<circ> c) (filter (\<lambda>w. c w \<noteq> None) ws)"
  by (induction ws) (auto split: option.splits)

text \<open>The names that the events of the master's server register, in order.\<close>

fun ms_names :: "ms_event list \<Rightarrow> string list" where
  "ms_names [] = []"
| "ms_names (MRegister w # evs) = w # ms_names evs"
| "ms_names (e # evs) = ms_names evs"

definition ms_ok :: "master_server \<Rightarrow> bool" where
  "ms_ok s \<longleftrightarrow> ms_listening s = (\<not> mr_shutdown (ms_master s))"

lemma ms_ok_step: "ms_step e s = Some t \<Longrightarrow> ms_ok s \<Longrightarrow> ms_ok t"
  by (cases e) (auto simp: ms_ok_def Master_Register_def Master_Shutdown_def split: if_splits)

interpretation registry: invariant_machine ms_step "\<lambda>e. True" ms_ok
  by unfold_locales (rule ms_ok_step)

lemma ms_shutdown_step: "ms_step e s = Some t \<Longrightarrow> mr_shutdown (ms_master t) \<longleftrightarrow> mr_shutdown (ms_master s) \<or> e = MShutdown"
  by (cases e) (auto simp: Master_Register_def Master_Shutdown_def split: if_splits)

lemma ms_shutdown_run:
  "run_all ms_step evs s = Some t \<Longrightarrow> mr_shutdown (ms_master t) \<longleftrightarrow> mr_shutdown (ms_master s) \<or> MShutdown \<in> set evs"
  by (induction evs arbitrary: s) (auto simp: Option.bind_eq_Some_conv dest!: ms_shutdown_step)

lemma ms_workers_run: "run_all ms_step evs s = Some t \<Longrightarrow> mr_workers (ms_master t) = mr_workers (ms_master s) @ ms_names evs"
proof (induction evs arbitrary: s rule: ms_names.induct)
  case (2 w evs)
  then show ?case by (fastforce simp: Master_Register_def split: if_splits)
qed (auto simp: Option.bind_eq_Some_conv Master_Shutdown_def split: if_splits)

section \<open>Properties\<close>

text \<open>
  C34. Registrations reach the scheduler: however \<open>Register\<close> calls, turns of \<open>forwardRegistrations\<close> and the senders
  it starts interleave, each registered worker is received once, waits in one sender, or is still to
  be forwarded; the forwarder only waits when all are forwarded; and letting it run and receiving from
  the channel delivers all. The order on the channel need not be that of registration.
\<close>

theorem forwardRegistrations_sends_each_once:
  assumes "run_all reg_step evs (fw_start mr) = Some s"
  shows "fw_workers s = mr_workers mr @ reg_names evs
    \<and> mset (fw_received s) + mset (fw_senders s) + mset (drop (fw_i s) (fw_workers s)) = mset (fw_workers s)
    \<and> (fw_waiting s \<longrightarrow> fw_i s = length (fw_workers s))
    \<and> (\<exists>t. run_all reg_step (replicate (length (fw_workers s) - fw_i s) ForwardTurn
              @ replicate (length (fw_workers s) - length (fw_received s)) (ReceiveWorker 0)) s = Some t
         \<and> mset (fw_received t) = mset (fw_workers s))"
proof -
  have ok: "fw_ok s" using forwarding.run_inv [OF assms] fw_ok_start by (simp add: list_all_iff)
  have all: "mset (fw_received s) + mset (fw_senders s) + mset (drop (fw_i s) (fw_workers s)) = mset (fw_workers s)"
    using ok unfolding fw_ok_def by (metis append_take_drop_id mset_append)
  obtain s1 where s1: "run_all reg_step (replicate (length (fw_workers s) - fw_i s) ForwardTurn) s = Some s1"
    "fw_ok s1" "fw_master s1 = fw_master s" "fw_i s1 = length (fw_workers s)" "fw_received s1 = fw_received s"
    using fw_drain_turns [OF ok refl] by blast
  then have "length (fw_workers s) - length (fw_received s) = length (fw_senders s1)"
    using fw_ok_length [OF s1(2)] by simp
  with fw_drain_senders [OF this] s1 have "\<exists>t. run_all reg_step (replicate (length (fw_workers s) - fw_i s) ForwardTurn
              @ replicate (length (fw_workers s) - length (fw_received s)) (ReceiveWorker 0)) s = Some t
         \<and> mset (fw_received t) = mset (fw_workers s)"
    by (auto simp: run_all_append fw_ok_def)
  with all ok show ?thesis
    using fw_workers_run [OF assms] by (simp add: fw_ok_def fw_start_def)
qed

definition fw_example :: "reg_event list" where
  "fw_example = [RegisterWorker ''a'', ForwardTurn, ForwardTurn, RegisterWorker ''b'', RegisterWorker ''c'', ForwardTurn, ReceiveWorker 1]"

theorem forwardRegistrations_sends_each_once_witness:
  "\<exists>s t. run_all reg_step fw_example (fw_start (newMaster ''m'')) = Some s \<and> fw_received s = [''b''] \<and> fw_senders s = [''a'']
    \<and> run_all reg_step (replicate 1 ForwardTurn @ replicate 2 (ReceiveWorker 0)) s = Some t
    \<and> mset (fw_received t) = {#''a'', ''b'', ''c''#}"
proof -
  have "map_option (\<lambda>s. (fw_workers s, fw_i s, fw_senders s, fw_received s)) (run_all reg_step fw_example (fw_start (newMaster ''m'')))
      = Some ([''a'', ''b'', ''c''], 2, [''a''], [''b''])" by code_simp
  then obtain s where s: "run_all reg_step fw_example (fw_start (newMaster ''m'')) = Some s"
    and vals: "fw_workers s = [''a'', ''b'', ''c'']" "fw_i s = 2" "fw_senders s = [''a'']" "fw_received s = [''b'']" by auto
  have n: "length (fw_workers s) - fw_i s = 1" "length (fw_workers s) - length (fw_received s) = 2" by (simp_all add: vals)
  from forwardRegistrations_sends_each_once [OF s] obtain t where
    "run_all reg_step (replicate 1 ForwardTurn @ replicate 2 (ReceiveWorker 0)) s = Some t" "mset (fw_received t) = mset (fw_workers s)"
    unfolding n by blast
  with s vals show ?thesis by auto
qed

text \<open>
  C39. A worker that is told to shut down answers with the number of tasks it was given, and then
  needs one more connection to end: \<open>Shutdown\<close> sets \<open>nRPC\<close> to 1 while the accept loop ends at 0, so whatever
  happens after it, short of an error of \<open>Accept\<close> or another \<open>Shutdown\<close>, the loop counts at most one
  connection more, and has ended only if it has counted it. Throughout, at most one task runs.
\<close>

theorem worker_shutdown_needs_connection:
  assumes "RunWorker can_listen call_register master me nRPC par fs w = Some (s0, w', out)"
    and "run_all wp_step evs s0 = Some s" and "wp_step WShutdown s = Some s1" and "wp_pc s \<noteq> WDone"
    and "run_all wp_step evs' s1 = Some t" and "WShutdown \<notin> set evs'" and "WAcceptError \<notin> set evs'"
  shows "snd (Worker_Shutdown (wp_worker s)) = int (length (filter is_task evs)) \<and> length (wp_tasks t) \<le> 1
    \<and> wp_conns t \<le> wp_conns s + 1 \<and> (wp_pc t = WDone \<longrightarrow> wp_conns t = wp_conns s + 1)"
proof -
  have s1: "accepts (int (wp_conns s) + 1) s1" "wp_conns s1 = wp_conns s"
    using assms(3,4) by (auto simp: accepts_def Worker_Shutdown_def split: if_splits)
  have "list_all (\<lambda>e. e \<notin> {WShutdown, WAcceptError}) evs'" using assms(6,7) by (auto simp: list_all_iff)
  from accepting.run_inv [OF assms(5) this s1(1)] have "accepts (int (wp_conns s) + 1) t" .
  moreover have "one_task t"
    using tasks.run_inv [OF assms(5)] one_task_step [OF assms(3)] tasks.run_inv [OF assms(2)] RunWorker_start(1) [OF assms(1)]
    by (simp add: list_all_iff)
  moreover have "wk_nTasks (wp_worker s) = int (length (filter is_task evs))"
    using nTasks_run [OF assms(2)] RunWorker_start(2) [OF assms(1)] by simp
  ultimately show ?thesis by (auto simp: accepts_def one_task_def Worker_Shutdown_def)
qed

definition wk_example :: "wp_event list" where
  "wk_example = [WTurn, WConnect, WCounted, WTurn, WDoTask \<lparr>dt_JobName = ''j'', dt_File = ''f'', dt_Phase = mapPhase, dt_TaskNumber = 0,
     dt_NumOtherPhase = 1\<rparr>, WTaskEnds 0]"

definition wk_run :: "wp_event list \<Rightarrow> worker_process option" where
  "wk_run evs = do { (s, w, out) \<leftarrow> RunWorker (\<lambda>a. True) (\<lambda>m n w. (w, Some ())) ''m'' ''w'' 100 None
       \<lparr>fs_files = Map.empty, fs_writable = (\<lambda>n. True)\<rparr> (); run_all wp_step evs s }"

theorem worker_shutdown_needs_connection_witness:
  "\<exists>s s1 t. wk_run wk_example = Some s \<and> wp_step WShutdown s = Some s1
    \<and> run_all wp_step [WConnect, WCounted, WTurn] s1 = Some t \<and> wp_pc t = WDone \<and> wp_conns t = 2
    \<and> snd (Worker_Shutdown (wp_worker s)) = 1"
proof -
  have "map_option (\<lambda>s. (wp_pc s, wp_conns s, wk_nRPC (wp_worker s))) (wk_run wk_example) = Some (WAccept, 1, 99)"
    by code_simp
  then obtain s where s: "wk_run wk_example = Some s" "wp_pc s = WAccept" "wp_conns s = 1" by auto
  then obtain s0 w out where s0: "RunWorker (\<lambda>a. True) (\<lambda>m n w. (w, Some ())) ''m'' ''w'' 100 None
       \<lparr>fs_files = Map.empty, fs_writable = (\<lambda>n. True)\<rparr> () = Some (s0, w, out)" "run_all wp_step wk_example s0 = Some s"
    by (auto simp: wk_run_def Option.bind_eq_Some_conv)
  obtain s1 t where st: "wp_step WShutdown s = Some s1" "run_all wp_step [WConnect, WCounted, WTurn] s1 = Some t" "wp_pc t = WDone"
    using s by (auto simp: Worker_Shutdown_def)
  have "length (filter is_task wk_example) = 1" by (simp add: wk_example_def is_task_def)
  with worker_shutdown_needs_connection [OF s0 st(1) _ st(2)] s st show ?thesis by auto
qed

text \<open>
  Without a \<open>Shutdown\<close> a worker with a limit \<open>nRPC\<close> serves at most that many connections, and has served exactly
  that many when its loop ends without an error of \<open>Accept\<close>.
\<close>

theorem worker_serves_nRPC_connections:
  assumes "RunWorker can_listen call_register master me nRPC par fs w = Some (s0, w', out)" and "0 \<le> nRPC"
    and "run_all wp_step evs s0 = Some s" and "WShutdown \<notin> set evs" and "WAcceptError \<notin> set evs"
  shows "int (wp_conns s) \<le> nRPC \<and> (wp_pc s = WDone \<longrightarrow> int (wp_conns s) = nRPC)"
proof -
  have "list_all (\<lambda>e. e \<notin> {WShutdown, WAcceptError}) evs" using assms(4,5) by (auto simp: list_all_iff)
  from accepting.run_inv [OF assms(3) this RunWorker_start(3) [OF assms(1,2)]] show ?thesis by (auto simp: accepts_def)
qed

text \<open>
  The master's server keeps the registered workers in the order of their calls. Once \<open>Shutdown\<close> was
  served it accepts no connection, a second \<open>Shutdown\<close> panics, and the loop is over or ends with its next step.
\<close>

theorem master_server_stops:
  assumes "startRPCServer can_listen (newMaster addr) = Some s0" and "run_all ms_step evs s0 = Some s"
  shows "mr_workers (ms_master s) = ms_names evs
    \<and> (MShutdown \<in> set evs \<longrightarrow> ms_step MConnect s = None \<and> ms_step MShutdown s = None
         \<and> (ms_pc s = MSelect \<longrightarrow> ms_step MTurn s = Some (s\<lparr>ms_pc := MDone\<rparr>))
         \<and> (ms_pc s = MAccept \<longrightarrow> ms_step MAcceptError s = Some (s\<lparr>ms_pc := MDone\<rparr>)))"
proof -
  have s0: "ms_ok s0" "mr_workers (ms_master s0) = []" "\<not> mr_shutdown (ms_master s0)"
    using assms(1) by (auto simp: startRPCServer_def ms_ok_def newMaster_def split: if_splits)
  have "ms_ok s" using registry.run_inv [OF assms(2) _ s0(1)] by (simp add: list_all_iff)
  then show ?thesis
    using ms_workers_run [OF assms(2)] ms_shutdown_run [OF assms(2)] s0 by (auto simp: ms_ok_def Master_Shutdown_def)
qed

text \<open>
  The master of a distributed job that completes has in its statistics the number of tasks of every worker
  that registered while the job ran and that answered \<open>Shutdown\<close>, in the order of registration.
\<close>

theorem Distributed_statistics:
  assumes "Distributed decode call_shutdown can_listen ok jobName files nreduce master evs fs = Some (mr, fs')"
  shows "mr_stats mr = map (the \<circ> call_shutdown) (filter (\<lambda>w. call_shutdown w \<noteq> None) (ms_names evs))
    \<and> mr_jobName mr = jobName \<and> mr_files mr = files \<and> mr_nReduce mr = nreduce"
proof -
  obtain s s' where s: "startRPCServer can_listen (newMaster master) = Some s" "run_all ms_step evs s = Some s'"
    and j: "run_job decode jobName files nreduce (\<lambda>phase st. st)
      (\<lambda>mr. stopRPCServer ok (mr\<lparr>mr_stats := killWorkers call_shutdown (mr_workers mr)\<rparr>)) (ms_master s', fs) = Some (mr, fs')"
    using assms by (auto simp: Distributed_def Option.bind_eq_Some_conv)
  have "mr_workers (ms_master s') = ms_names evs"
    using ms_workers_run [OF s(2)] s(1) by (auto simp: startRPCServer_def newMaster_def split: if_splits)
  with j show ?thesis
    by (auto simp: run_job_def Let_def Option.bind_eq_Some_conv stopRPCServer_def Master_Shutdown_def killWorkers_filter
        split: if_splits)
qed

text \<open>
  The workers' \<open>Parallelism\<close> record: after any sequence of tasks that begin and end, \<open>now\<close> is the number of
  tasks running and \<open>max\<close> the largest number that ever ran at the same time.
\<close>

theorem parallelism_max_is_most_running:
  "fold par_step evs \<lparr>par_now = 0, par_max = 0\<rparr> = \<lparr>par_now = running evs, par_max = most_running evs\<rparr>"
  by (rule par_counts)

end
