(* ===== verification/Programs.thy ===== *)
theory Programs
  imports Mapreduce_Workers
begin

text \<open>
  The command-line programs (\<open>src/src/main\<close>): \<open>wc\<close> and \<open>ii\<close>, which run a MapReduce job or a worker, and the
  programs that start or use a lock, primary/backup, view or disk service.

  \<^item> The packages \<open>lockservice\<close>, \<open>pbservice\<close>, \<open>viewservice\<close> and \<open>diskv\<close> are not in the repository: what a program calls
    of them is an argument of its definition, on a state \<open>'w\<close> of the rest of the system.
  \<^item> \<open>args\<close> is \<open>os.Args\<close>, with the program's name first. A program ends with an exit status and what it printed,
    kills itself, or stays up; \<open>None\<close> is a panic.
  \<^item> \<open>ParseInt\<close>, \<open>Atoi\<close> and \<open>ParseBool\<close> are those of \<open>strconv\<close>: the value that comes with an error is 0 or \<open>false\<close> for a
    malformed text and the nearest number for one out of range.
\<close>

section \<open>Numbers on the command line\<close>

datatype NumError = ErrSyntax | ErrRange

text \<open>The loop of \<open>ParseUint\<close> for base 10: it stops at the first character that is no digit or that makes the number too large.\<close>

fun parse_digits :: "string \<Rightarrow> nat \<Rightarrow> nat \<times> NumError option" where
  "parse_digits [] n = (n, None)"
| "parse_digits (c # cs) n =
     (if \<not> (48 \<le> (of_char c :: nat) \<and> (of_char c :: nat) \<le> 57) then (0, Some ErrSyntax)
      else if 2 ^ 64 \<le> 10 * n + digit_val c then (2 ^ 64 - 1, Some ErrRange)
      else parse_digits cs (10 * n + digit_val c))"

definition ParseUint :: "string \<Rightarrow> nat \<times> NumError option" where
  "ParseUint s = (if s = [] then (0, Some ErrSyntax) else parse_digits s 0)"

definition ParseInt :: "string \<Rightarrow> int \<times> NumError option" where
  "ParseInt s =
     (let neg = (s \<noteq> [] \<and> hd s = CHR ''-'');
          s' = (if s \<noteq> [] \<and> (hd s = CHR ''-'' \<or> hd s = CHR ''+'') then tl s else s);
          (un, err) = ParseUint s'
      in if s = [] \<or> err = Some ErrSyntax then (0, Some ErrSyntax)
         else if \<not> neg \<and> 2 ^ 63 \<le> un then (2 ^ 63 - 1, Some ErrRange)
         else if neg \<and> 2 ^ 63 < un then (- (2 ^ 63), Some ErrRange)
         else (if neg then - int un else int un, None))"

text \<open>\<open>Atoi\<close> of a 64-bit \<open>int\<close> gives what \<open>ParseInt\<close> gives.\<close>

definition Atoi :: "string \<Rightarrow> int \<times> NumError option" where
  "Atoi s = ParseInt s"

definition ParseBool :: "string \<Rightarrow> bool \<times> NumError option" where
  "ParseBool s =
     (if s \<in> {''1'', ''t'', ''T'', ''true'', ''TRUE'', ''True''} then (True, None)
      else if s \<in> {''0'', ''f'', ''F'', ''false'', ''FALSE'', ''False''} then (False, None)
      else (False, Some ErrSyntax))"

section \<open>How a program ends\<close>

datatype 'w program = Exits int string 'w | Killed 'w | StaysUp 'w

abbreviation newline :: string where
  "newline \<equiv> [char_of (10 :: nat)]"

section \<open>\<open>diskvd\<close>\<close>

record diskvd_options =
  do_gid :: int
  do_masters :: "string list"
  do_replicas :: "string list"
  do_me :: int
  do_unreliable :: bool
  do_dir :: string
  do_restart :: bool

definition diskvd_defaults :: diskvd_options where
  "diskvd_defaults = \<lparr>do_gid = - 1, do_masters = [], do_replicas = [], do_me = - 1, do_unreliable = False, do_dir = [],
     do_restart = False\<rparr>"

text \<open>One flag with its argument; \<open>None\<close> for \<open>usage\<close>, which exits.\<close>

definition diskvd_flag :: "string \<Rightarrow> string \<Rightarrow> diskvd_options \<Rightarrow> diskvd_options option" where
  "diskvd_flag a0 a1 d =
     (if a0 = ''-g'' then Some (d\<lparr>do_gid := fst (ParseInt a1)\<rparr>)
      else if a0 = ''-m'' then Some (d\<lparr>do_masters := do_masters d @ [a1]\<rparr>)
      else if a0 = ''-s'' then Some (d\<lparr>do_replicas := do_replicas d @ [a1]\<rparr>)
      else if a0 = ''-i'' then Some (d\<lparr>do_me := fst (Atoi a1)\<rparr>)
      else if a0 = ''-u'' then Some (d\<lparr>do_unreliable := fst (ParseBool a1)\<rparr>)
      else if a0 = ''-d'' then Some (d\<lparr>do_dir := a1\<rparr>)
      else if a0 = ''-r'' then Some (d\<lparr>do_restart := fst (ParseBool a1)\<rparr>)
      else None)"

text \<open>The loop takes two arguments at a time and does not look at a single one that is left.\<close>

fun diskvd_flags :: "string list \<Rightarrow> diskvd_options \<Rightarrow> diskvd_options option" where
  "diskvd_flags (a0 # a1 # rest) d = do { d' \<leftarrow> diskvd_flag a0 a1 d; diskvd_flags rest d' }"
| "diskvd_flags rest d = Some d"

definition diskvd_usage :: string where
  "diskvd_usage = ''Usage: diskvd -g gid -m master... -s server... -i my-index -d dir'' @ newline"

definition diskvd_valid :: "diskvd_options \<Rightarrow> bool" where
  "diskvd_valid d \<longleftrightarrow> \<not> (do_gid d < 0 \<or> do_me d < 0 \<or> length (do_masters d) < 1 \<or> do_me d \<ge> int (length (do_replicas d)) \<or> do_dir d = [])"

text \<open>
  \<open>start\<close> is \<open>diskv.StartServer\<close> and \<open>set_unreliable\<close> is \<open>Setunreliable\<close>. The program kills itself after ten
  minutes.
\<close>

definition diskvd_main ::
  "(int \<Rightarrow> string list \<Rightarrow> string list \<Rightarrow> int \<Rightarrow> string \<Rightarrow> bool \<Rightarrow> 'w \<Rightarrow> 'srv \<times> 'w) \<Rightarrow> ('srv \<Rightarrow> bool \<Rightarrow> 'w \<Rightarrow> 'w)
     \<Rightarrow> string list \<Rightarrow> 'w \<Rightarrow> 'w program" where
  "diskvd_main start set_unreliable args w =
     (case diskvd_flags (drop 1 args) diskvd_defaults of
        None \<Rightarrow> Exits 1 diskvd_usage w
      | Some d \<Rightarrow>
          if \<not> diskvd_valid d then Exits 1 diskvd_usage w
          else let (srv, w1) = start (do_gid d) (do_masters d) (do_replicas d) (do_me d) (do_dir d) (do_restart d) w
               in Killed (set_unreliable srv (do_unreliable d) w1))"

section \<open>Programs of the lock, primary/backup and view services\<close>

definition lockc_usage :: string where
  "lockc_usage = ''Usage: lockc -l|-u primaryport backupport lockname'' @ newline"

definition lockc_main ::
  "(string \<Rightarrow> string \<Rightarrow> 'w \<Rightarrow> 'ck \<times> 'w) \<Rightarrow> ('ck \<Rightarrow> string \<Rightarrow> 'w \<Rightarrow> bool \<times> 'w) \<Rightarrow> ('ck \<Rightarrow> string \<Rightarrow> 'w \<Rightarrow> bool \<times> 'w)
     \<Rightarrow> string list \<Rightarrow> 'w \<Rightarrow> 'w program" where
  "lockc_main makeClerk lock unlock args w =
     (case args of
        [a0, a1, a2, a3, a4] \<Rightarrow>
          let (ck, w1) = makeClerk a2 a3 w;
              reply = (\<lambda>(ok, w2). Exits 0 (''reply: '' @ (if ok then ''true'' else ''false'') @ newline) w2)
          in if a1 = ''-l'' then reply (lock ck a4 w1)
             else if a1 = ''-u'' then reply (unlock ck a4 w1)
             else Exits 1 lockc_usage w1
      | _ \<Rightarrow> Exits 1 lockc_usage w)"

text \<open>The last argument of \<open>start\<close> is whether the server is the primary.\<close>

definition lockd_main :: "(string \<Rightarrow> string \<Rightarrow> bool \<Rightarrow> 'w \<Rightarrow> 'w) \<Rightarrow> string list \<Rightarrow> 'w \<Rightarrow> 'w program" where
  "lockd_main start args w =
     (case args of
        [a0, a1, a2, a3] \<Rightarrow>
          if a1 = ''-p'' then StaysUp (start a2 a3 True w)
          else if a1 = ''-b'' then StaysUp (start a2 a3 False w)
          else Exits 1 (''Usage: lockd -p|-b primaryport backupport'' @ newline) w
      | _ \<Rightarrow> Exits 1 (''Usage: lockd -p|-b primaryport backupport'' @ newline) w)"

definition pbc_main ::
  "(string \<Rightarrow> string \<Rightarrow> 'w \<Rightarrow> 'ck \<times> 'w) \<Rightarrow> ('ck \<Rightarrow> string \<Rightarrow> 'w \<Rightarrow> string \<times> 'w) \<Rightarrow> ('ck \<Rightarrow> string \<Rightarrow> string \<Rightarrow> 'w \<Rightarrow> 'w)
     \<Rightarrow> string list \<Rightarrow> 'w \<Rightarrow> 'w program" where
  "pbc_main makeClerk get put args w =
     (case args of
        [a0, a1, a2] \<Rightarrow> (let (ck, w1) = makeClerk a1 [] w; (v, w2) = get ck a2 w1 in Exits 0 (v @ newline) w2)
      | [a0, a1, a2, a3] \<Rightarrow> (let (ck, w1) = makeClerk a1 [] w in Exits 0 [] (put ck a2 a3 w1))
      | _ \<Rightarrow> Exits 1 (''Usage: pbc viewport key'' @ newline @ ''       pbc viewport key value'' @ newline) w)"

definition pbd_main :: "(string \<Rightarrow> string \<Rightarrow> 'w \<Rightarrow> 'w) \<Rightarrow> string list \<Rightarrow> 'w \<Rightarrow> 'w program" where
  "pbd_main start args w =
     (case args of
        [a0, a1, a2] \<Rightarrow> StaysUp (start a1 a2 w)
      | _ \<Rightarrow> Exits 1 (''Usage: pbd viewport myport'' @ newline) w)"

definition viewd_main :: "(string \<Rightarrow> 'w \<Rightarrow> 'w) \<Rightarrow> string list \<Rightarrow> 'w \<Rightarrow> 'w program" where
  "viewd_main start args w =
     (case args of
        [a0, a1] \<Rightarrow> StaysUp (start a1 w)
      | _ \<Rightarrow> Exits 1 (''Usage: viewd port'' @ newline) w)"

section \<open>\<open>wc\<close> and \<open>ii\<close>\<close>

text \<open>
  The two programs differ in the name of the job. The arguments before \<open>args\<close> are those of \<open>Sequential\<close>, \<open>Distributed\<close> and
  \<open>RunWorker\<close>; the result of \<open>mr.Wait\<close> is that of the job, and the worker's loop starts in the process given.
\<close>

datatype 'w mr_program =
    MrUsage string
  | MrMaster "(Master \<times> file_system) option"
  | MrWorker "(worker_process \<times> 'w \<times> string) option"

definition mr_main ::
  "string \<Rightarrow> (string \<Rightarrow> KeyValue list) \<Rightarrow> (string \<Rightarrow> int option) \<Rightarrow> (string \<Rightarrow> bool) \<Rightarrow> bool \<Rightarrow> ms_event list
     \<Rightarrow> (string \<Rightarrow> string \<Rightarrow> 'w \<Rightarrow> 'w \<times> unit option) \<Rightarrow> string list \<Rightarrow> file_system \<Rightarrow> 'w \<Rightarrow> 'w mr_program option" where
  "mr_main jobName decode call_shutdown can_listen ok evs call_register args fs w =
     (if length args < 4
      then do { a0 \<leftarrow> idx args 0; Some (MrUsage (a0 @ '': see usage comments in file'' @ newline)) }
      else do {
        a1 \<leftarrow> idx args 1;
        a2 \<leftarrow> idx args 2;
        a3 \<leftarrow> idx args 3;
        files \<leftarrow> slice_from args 3;
        Some (if a1 = ''master''
              then if a2 = ''sequential''
                   then MrMaster (Sequential decode jobName files 3 fs)
                   else MrMaster (Distributed decode call_shutdown can_listen ok jobName files 3 a2 evs fs)
              else MrWorker (RunWorker can_listen call_register a2 a3 100 None fs w))
      })"

definition wc_main ::
  "(string \<Rightarrow> KeyValue list) \<Rightarrow> (string \<Rightarrow> int option) \<Rightarrow> (string \<Rightarrow> bool) \<Rightarrow> bool \<Rightarrow> ms_event list
     \<Rightarrow> (string \<Rightarrow> string \<Rightarrow> 'w \<Rightarrow> 'w \<times> unit option) \<Rightarrow> string list \<Rightarrow> file_system \<Rightarrow> 'w \<Rightarrow> 'w mr_program option" where
  "wc_main = mr_main ''wcseq''"

definition ii_main ::
  "(string \<Rightarrow> KeyValue list) \<Rightarrow> (string \<Rightarrow> int option) \<Rightarrow> (string \<Rightarrow> bool) \<Rightarrow> bool \<Rightarrow> ms_event list
     \<Rightarrow> (string \<Rightarrow> string \<Rightarrow> 'w \<Rightarrow> 'w \<times> unit option) \<Rightarrow> string list \<Rightarrow> file_system \<Rightarrow> 'w \<Rightarrow> 'w mr_program option" where
  "ii_main = mr_main ''iiseq''"

section \<open>Numbers round trip\<close>

lemma ParseInt_range: "- (2 ^ 63) \<le> fst (ParseInt s) \<and> fst (ParseInt s) < 2 ^ 63"
  by (auto simp: ParseInt_def Let_def split: prod.splits)

lemma parse_digits_digit:
  "d < 10 \<Longrightarrow> parse_digits (digit d # cs) n =
     (if 2 ^ 64 \<le> 10 * n + d then (2 ^ 64 - 1, Some ErrRange) else parse_digits cs (10 * n + d))"
  by (simp add: digit_def [of d] digit_val_digit [unfolded digit_def])

lemma parse_digits_append:
  "parse_digits xs n = (m, None) \<Longrightarrow> parse_digits (xs @ ys) n = parse_digits ys m"
  by (induction xs n rule: parse_digits.induct) (auto split: if_splits)

lemma parse_digits_digits: "n < 2 ^ 64 \<Longrightarrow> parse_digits (digits n) 0 = (n, None)"
proof (induction n rule: digits.induct)
  case (1 n)
  show ?case
  proof (cases "n < 10")
    case True
    then show ?thesis using 1 parse_digits_digit [of n "[]" 0] by (simp add: digits.simps [of n])
  next
    case False
    then have "parse_digits (digits (n div 10)) 0 = (n div 10, None)" using 1 by simp
    from parse_digits_append [OF this] False 1 show ?thesis
      using parse_digits_digit [of "n mod 10" "[]" "n div 10"] by (simp add: digits.simps [of n])
  qed
qed

lemma digits_no_sign: "digits n \<noteq> CHR ''-'' # xs" "digits n \<noteq> CHR ''+'' # xs"
proof -
  show "digits n \<noteq> CHR ''-'' # xs" using no_dash [of n] by auto
  have "digit d \<noteq> CHR ''+''" if "d < 10" for d using that digit_code [of d "CHR ''+''"] by auto
  then show "digits n \<noteq> CHR ''+'' # xs" using digits_chars [of "CHR ''+''" n] by fastforce
qed

lemma hd_digits: "hd (digits n) \<noteq> CHR ''-''" "hd (digits n) \<noteq> CHR ''+''"
  using digits_no_sign digits_nonempty by (metis list.collapse)+

lemma ParseInt_Itoa:
  assumes "- (2 ^ 63) \<le> i" and "i < 2 ^ 63"
  shows "ParseInt (Itoa i) = (i, None)"
proof (cases "i < 0")
  case True
  then show ?thesis
    using assms parse_digits_digits [of "nat (- i)"] by (simp add: ParseInt_def Itoa_def ParseUint_def digits_nonempty)
next
  case False
  then show ?thesis
    using assms parse_digits_digits [of "nat i"] by (simp add: ParseInt_def Itoa_def ParseUint_def digits_nonempty hd_digits)
qed

lemma ParseInt_malformed: "snd (ParseInt s) = Some ErrSyntax \<Longrightarrow> fst (ParseInt s) = 0"
  by (auto simp: ParseInt_def Let_def split: prod.splits if_splits)

section \<open>Flags\<close>

text \<open>The flags for a configuration, as a script would write them.\<close>

definition bool_text :: "bool \<Rightarrow> string" where
  "bool_text b = (if b then ''true'' else ''false'')"

definition flags_of :: "string \<Rightarrow> string list \<Rightarrow> string list" where
  "flags_of f xs = concat (map (\<lambda>x. [f, x]) xs)"

definition diskvd_command :: "diskvd_options \<Rightarrow> string list" where
  "diskvd_command d = ''diskvd'' # [''-g'', Itoa (do_gid d)] @ flags_of ''-m'' (do_masters d) @ flags_of ''-s'' (do_replicas d)
     @ [''-i'', Itoa (do_me d), ''-u'', bool_text (do_unreliable d), ''-d'', do_dir d, ''-r'', bool_text (do_restart d)]"

lemma flags_masters:
  "diskvd_flags (flags_of ''-m'' ms @ rest) d = diskvd_flags rest (d\<lparr>do_masters := do_masters d @ ms\<rparr>)"
  by (induction ms arbitrary: d) (simp_all add: flags_of_def diskvd_flag_def)

lemma flags_replicas:
  "diskvd_flags (flags_of ''-s'' ms @ rest) d = diskvd_flags rest (d\<lparr>do_replicas := do_replicas d @ ms\<rparr>)"
  by (induction ms arbitrary: d) (simp_all add: flags_of_def diskvd_flag_def)

lemma ParseBool_text: "fst (ParseBool (bool_text b)) = b"
  by (simp add: ParseBool_def bool_text_def)

lemma diskvd_flags_command:
  assumes "do_gid d \<in> {- (2 ^ 63) ..< 2 ^ 63}" and "do_me d \<in> {- (2 ^ 63) ..< 2 ^ 63}"
  shows "diskvd_flags (drop 1 (diskvd_command d)) diskvd_defaults = Some d"
  using assms
  by (simp add: diskvd_command_def flags_masters flags_replicas diskvd_flag_def ParseBool_text ParseInt_Itoa Atoi_def diskvd_defaults_def)

section \<open>Properties\<close>

text \<open>
  C40. Every valid configuration can be given to \<open>diskvd\<close> on the command line: with the flags for group, masters,
  replicas, index, directory and the two switches, it starts exactly the server of that configuration.
  Numbers are limited to 64 bits by \<open>ParseInt\<close>. An invalid configuration ends in the usage text, without a
  server.
\<close>

theorem diskvd_starts_configuration:
  assumes "do_gid d \<in> {- (2 ^ 63) ..< 2 ^ 63}" and "do_me d \<in> {- (2 ^ 63) ..< 2 ^ 63}"
  shows "diskvd_main start set_unreliable (diskvd_command d) w =
    (if 0 \<le> do_gid d \<and> 0 \<le> do_me d \<and> do_me d < int (length (do_replicas d)) \<and> do_masters d \<noteq> [] \<and> do_dir d \<noteq> []
     then let (srv, w1) = start (do_gid d) (do_masters d) (do_replicas d) (do_me d) (do_dir d) (do_restart d) w
          in Killed (set_unreliable srv (do_unreliable d) w1)
     else Exits 1 diskvd_usage w)"
  using diskvd_flags_command [OF assms]
  by (auto simp: diskvd_main_def diskvd_valid_def Suc_le_eq split: prod.splits simp del: diskvd_flags.simps)

definition ex_options :: diskvd_options where
  "ex_options = \<lparr>do_gid = 100, do_masters = [''m0'', ''m1''], do_replicas = [''s0'', ''s1'', ''s2''], do_me = 2, do_unreliable = True,
     do_dir = ''/tmp/d'', do_restart = False\<rparr>"

theorem diskvd_starts_configuration_witness:
  "diskvd_main (\<lambda>gid masters replicas me dir restart w. (length w, w @ [(gid, masters, replicas, me, dir, restart, False)]))
     (\<lambda>srv u w. map (\<lambda>(g, ms, rs, i, d, r, _). (g, ms, rs, i, d, r, u)) w) (diskvd_command ex_options) []
   = Killed [(100, [''m0'', ''m1''], [''s0'', ''s1'', ''s2''], 2, ''/tmp/d'', False, True)]"
  by (subst diskvd_starts_configuration) (simp_all add: ex_options_def)

text \<open>
  A malformed group number does not lead to the usage text: \<open>ParseInt\<close> gives 0 with the error, which the
  program drops, so the server is that of group 0. The same holds for the index.
\<close>

theorem diskvd_malformed_group_is_zero:
  assumes "snd (ParseInt g) = Some ErrSyntax"
  shows "diskvd_main start set_unreliable (p # ''-g'' # g # rest) w = diskvd_main start set_unreliable (p # ''-g'' # ''0'' # rest) w"
proof -
  have "fst (ParseInt ''0'') = 0" by (simp add: ParseInt_def ParseUint_def digit_val_def)
  then have "diskvd_flag ''-g'' g d = diskvd_flag ''-g'' ''0'' d" for d
    using ParseInt_malformed [OF assms] by (simp add: diskvd_flag_def)
  then show ?thesis by (simp add: diskvd_main_def)
qed

theorem diskvd_malformed_group_is_zero_witness:
  "diskvd_main start set_unreliable [''diskvd'', ''-g'', ''12x'', ''-i'', ''0''] w
   = diskvd_main start set_unreliable [''diskvd'', ''-g'', ''0'', ''-i'', ''0''] w"
proof -
  have "snd (ParseInt ''12x'') = Some ErrSyntax" by (simp add: ParseInt_def ParseUint_def digit_val_def)
  then show ?thesis by (rule diskvd_malformed_group_is_zero)
qed

text \<open>
  \<open>wc\<close> run sequentially on files ends the process in \<open>merge\<close>, since \<open>doMap\<close> and \<open>doReduce\<close> write nothing.
\<close>

theorem wc_sequential_aborts:
  assumes "files \<noteq> []" and "fs_files fs (mergeName ''wcseq'' 0) = None"
  shows "wc_main decode cs can_listen ok evs cr (p # ''master'' # ''sequential'' # files) fs w = Some (MrMaster None)"
proof -
  have "Sequential decode ''wcseq'' files 3 fs = None" by (rule Sequential_aborts_on_stubs) (simp_all add: assms)
  then show ?thesis using assms(1) by (cases files) (simp_all add: wc_main_def mr_main_def idx_def slice_from_in_range)
qed

end
