(* ===== verification/Spec2Isabelle.thy ===== *)
theory Spec2Isabelle
  imports Kv_Snapshots Raft_Harness Service_Harness Shardkv_Harness Kv_Linearizable Labrpc Labgob Shard_Clients Programs
begin

text \<open>
  A verification library for the distributed-systems code under \<open>src/src\<close>: the Raft consensus library
  (\<open>raft\<close>), a replicated key/value service with its clerk (\<open>kvraft\<close>), the linearizability checker that
  its tests use (\<open>linearizability\<close>), the simulated network and its encoder wrapper (\<open>labrpc\<close>, \<open>labgob\<close>),
  the clients and server skeletons of the sharded store (\<open>shardmaster\<close>, \<open>shardkv\<close>), the MapReduce
  library (\<open>mapreduce\<close>), the harnesses of the tests (\<open>config.go\<close> of four packages), and the command-line
  programs (\<open>main\<close>).

  \<^bold>\<open>How the parts interact.\<close> A clerk sends requests over \<open>labrpc\<close> to a \<open>KVServer\<close>. The server gives the
  operation to its Raft peer (\<open>Start\<close>), the peers replicate it by \<open>AppendEntries\<close>, and when a majority
  holds it each peer sends it to its server through \<open>applyCh\<close>. The server executes it once, answers the
  handler that waits, and compacts the log with a snapshot when it has grown. The tests record calls
  and replies and give them to the linearizability checker; the harness cuts, partitions, crashes and
  restarts servers meanwhile.

  \<^bold>\<open>Conventions\<close> (\<open>Go_Prelude\<close>). A panic, \<open>log.Fatal\<close> or \<open>t.Fatal\<close> is \<open>None\<close>; slices are lists whose operations
  check their bounds; a Go map is a partial function or, where its order shows, an association list;
  a struct is a record. A goroutine is cut where it gives up a lock or waits, and the pieces are
  interleaved by a step relation or a list of events. Random numbers, timers and what other processes
  do are arguments. Go's \<open>int\<close> is \<^typ>\<open>int\<close>; the 64-bit words of the bit sets, the 32-bit counters and the
  32-bit hash are words. \<open>encoding/gob\<close>, \<open>encoding/json\<close> and \<open>sort.Sort\<close> are parameters. What is assumed of gob
  is that it reads back what it encoded: a peer's term, vote and log up to channels (\<open>gob_codec\<close>), and the two finite maps
  of a snapshot (\<open>reads_back\<close>).

  \<^bold>\<open>Theories.\<close>
  \<^item> \<open>Go_Prelude\<close>: slices, runs of operations, rules for long handlers, decimal numbers, and the
    interfaces \<open>majority_system\<close> (quorums), \<open>invariant_machine\<close> (steps that keep an invariant), \<open>replica\<close>
    (deterministic state machine behind an implementation) and \<open>retry_loop\<close>. \<open>Byte_Codec\<close>: a codec with bytes for strings,
    numbers, lists and finite maps (locale \<open>byte_codec\<close>), which shows that the assumptions on snapshots can be met.
  \<^item> \<open>Raft_State\<close>, \<open>Raft_Rpc\<close>, \<open>Raft_Peer\<close>, \<open>Raft_Cluster\<close> model \<open>raft/raft.go\<close> and
    \<open>raft/persister.go\<close>: the struct \<open>Raft\<close> with its helpers and \<open>persist\<close>; the handlers \<open>RequestVote\<close>,
    \<open>AppendEntries\<close>, \<open>InstallSnapshot\<close> and \<open>StartSnapshot\<close>; elections, replication, commit, \<open>Start\<close>, \<open>Make\<close> and
    the apply loop; the cluster as a step relation (\<open>reachable\<close>) over locked regions, deliveries, losses
    and restarts. Theorems: logs stay contiguous and saved in every reachable state, terms do not
    decrease, and a peer restarts with its term and log unless the log is empty, when it panics; one vote per term for the
    handler; \<open>AppendEntries\<close> stores what it is sent, survives reordering and repetition, and moves the commit index to the
    leader's or the end of the log; the leader's retry loop, snapshots included, gives the follower the leader's log within a
    bounded number of rounds, unless a follower that has compacted its log refuses the snapshot; only entries stored by a
    majority are committed, and every election meets every commit in a peer; applied messages are in
    order and without gaps. Two theorems show faults of the code: a run without crash or loss in which
    two leaders of one term apply different commands at the same index, and a log that becomes empty.
  \<^item> \<open>Kv_Server\<close>, \<open>Kv_Clerk\<close> model \<open>kvraft/server.go\<close>, \<open>common.go\<close> and \<open>client.go\<close>. The server refines an
    abstract service that executes each request of a client once, also when snapshots replace a prefix of
    the log (for every codec that reads back finite maps); the clerk sends one request at a time and returns when the network settles. Faults: a
    repeated \<open>Get\<close> that is never answered, a clerk shared by goroutines that blocks.
  \<^item> \<open>Lin_Bitset\<close>, \<open>Lin_Heap\<close>, \<open>Lin_Search\<close>, \<open>Lin_Check\<close>, \<open>Lin_History\<close>, \<open>Lin_Ops\<close>, \<open>Lin_Model\<close> model
    \<open>linearizability\<close>: bit sets on words refine finite sets; the search on a doubly linked list in a
    heap, with its cache, decides linearizability (locales \<open>search_space\<close> and \<open>checker\<close>, interpreted on
    the nodes that \<open>makeLinkedEntries\<close> builds); the drivers decide it for whole key/value histories.
  \<^item> \<open>Kv_System\<close>, \<open>Kv_Service\<close>, \<open>Kv_Linearizable\<close>, \<open>Kv_Snapshots\<close> and this theory join clerks, servers, Raft and the checker.
    Logs that agree give the same store. \<open>Kv_Service\<close> runs the handlers and apply loops of several servers beside the
    clerks, over one log, which is what Raft promises: each server receives its entries in order, and the snapshots that
    servers made and handed to \<open>StartSnapshot\<close> come as messages that the apply loop decodes, before the entries that follow
    them (\<open>ordered_step\<close>). \<open>Kv_Linearizable\<close> has the invariant of these runs and the theorem that every complete history of
    calls passes the checker. The promise itself is not proved of \<open>raft.go\<close> and does not hold of it in every run: leaders may
    diverge, and \<open>Kv_Snapshots\<close> has a run of the cluster in which a snapshot comes late and undoes a put; in \<open>Kv_Linearizable\<close>
    such a snapshot gives a history that the checker refuses.
  \<^item> \<open>Labrpc\<close>: the network with requests in phases; at most one execution per request, no reply
    from a deleted server, round trips on a reliable network, the 32-bit request counter.
  \<^item> \<open>Labgob\<close>: \<open>checkType\<close> ends on cyclic types and complains once per field; \<open>checkDefault\<close> counts, or panics on a field that
    is not exported.
  \<^item> \<open>Shard_Clients\<close>: the clerks of \<open>shardmaster\<close> and \<open>shardkv\<close> (interpretations of \<open>retry_loop\<close>) and the
    servers, whose handlers are empty.
  \<^item> \<open>Mapreduce\<close>, \<open>Mapreduce_Workers\<close>: the job and its files; the master's RPC server, the forwarding of
    registrations and the workers as processes on events. \<open>doMap\<close>, \<open>doReduce\<close> and \<open>schedule\<close> have no body. \<open>merge\<close> writes
    the last value of every key in order; registered workers reach the scheduler once each, in any
    order; a worker that is told to shut down waits for one more connection.
  \<^item> \<open>Programs\<close>: the \<open>main\<close> functions, with \<open>strconv\<close>; \<open>diskvd\<close> starts exactly the valid configurations.
  \<^item> \<open>Raft_Harness\<close>, \<open>Service_Harness\<close>, \<open>Shardkv_Harness\<close>: the four \<open>config.go\<close>. Enabled ends are those between
    connected peers; accepted applies agree; a partition cuts the leader off from a majority; a restart
    keeps what was saved (locale \<open>restartable\<close>, for both services); the shard harness needs groups of three.

  \<^bold>\<open>Fuel.\<close> \<open>search_loop\<close>, \<open>checkType\<close>, the clerks' loops and \<open>retry\<close> take fuel. The theorems say that some
  amount is enough and that more changes nothing: for the search the number of configurations bounds
  the turns, for \<open>checkType\<close> the number of types, for the clerks the turn from which a server accepts.
  Loops that count in the source have their bounds: 10 looks of \<open>checkOneLeader\<close>, 30 of \<open>wait\<close>.

  \<^bold>\<open>Not modelled.\<close> The packages \<open>lockservice\<close>, \<open>pbservice\<close>, \<open>viewservice\<close> and \<open>diskv\<close>, which \<open>main\<close> calls and the repository
  does not have, and \<open>net/rpc\<close> below a call that succeeds or fails; most printing; real time (sleeps are
  scheduling, time limits are arguments); random strings and seeds; the memory model below locked
  regions: racy reads outside locks are reads of some intermediate state, and slices are values,
  so a request whose entries share the array of the leader's log is taken as built, though the log may
  overwrite them before they are encoded, and persisters are values, so an old server that writes after \<open>Copy\<close> is not seen
  by the new one; goroutines of a clerk's call that retry after the call has returned.
\<close>

section \<open>Raft and the service\<close>

lemma new_msgs_applied:
  assumes "log_wf (Log rf)" and "base_of (Log rf) \<le> LastApplied rf"
    and "LastApplied rf \<le> CommitIndex rf" and "CommitIndex rf \<le> last_of (Log rf)" and "applyCommitted rf = Some rf'"
  shows "new_msgs rf rf' = map (\<lambda>i. apply_of (the (log_map (Log rf) i))) [LastApplied rf + 1 .. CommitIndex rf]"
    and "set [LastApplied rf + 1 .. CommitIndex rf] \<subseteq> dom (log_map (Log rf))"
proof -
  show "new_msgs rf rf' = map (\<lambda>i. apply_of (the (log_map (Log rf) i))) [LastApplied rf + 1 .. CommitIndex rf]"
    using applyCommitted_eq [OF assms(1-4)] assms(5) by (auto simp: new_msgs_def)
  show "set [LastApplied rf + 1 .. CommitIndex rf] \<subseteq> dom (log_map (Log rf))"
    using assms(1-4) by (auto simp: dom_log_map)
qed

text \<open>
  C8. State-machine replication: two peers with well-formed logs that have applied the same entries and
  committed up to the same index, and whose logs agree between the two (up to reply channels), pass
  messages to their services that leave the same store and the same request history, if the services
  had the same before.
\<close>

theorem agreeing_logs_give_same_store:
  assumes "log_wf (Log rf)" and "base_of (Log rf) \<le> LastApplied rf"
    and "LastApplied rf \<le> CommitIndex rf" and "CommitIndex rf \<le> last_of (Log rf)"
    and "log_wf (Log rg)" and "base_of (Log rg) \<le> LastApplied rg"
    and "LastApplied rg \<le> CommitIndex rg" and "CommitIndex rg \<le> last_of (Log rg)"
    and "LastApplied rg = LastApplied rf" and "CommitIndex rg = CommitIndex rf"
    and "logs_agree [LastApplied rf + 1 .. CommitIndex rf] (Log rf) (Log rg)"
    and "applyCommitted rf = Some rf'" and "applyCommitted rg = Some rg'"
    and "run_all (handle_msg kenc kdec) (new_msgs rf rf') kv = Some kv'"
    and "run_all (handle_msg kenc kdec) (new_msgs rg rg') kw = Some kw'"
    and "kv_record kv = kv_record kw" and "kv_history kv = kv_history kw"
  shows "kv_record kv' = kv_record kw' \<and> kv_history kv' = kv_history kw'"
proof -
  note f = new_msgs_applied [OF assms(1-4,12)] and g = new_msgs_applied [OF assms(5-8,13)]
  have "map dropChanMsg (new_msgs rf rf') = map dropChanMsg (new_msgs rg rg')"
    using agreeing_messages [OF assms(11) f(2)] g(2) by (simp add: f(1) g(1) assms(9,10))
  from msgs.replicas_agree [OF assms(14,15) this] assms(16,17) show ?thesis by (simp add: kv_abs_def)
qed

text \<open>The leader holds the reply channel of the request, the follower does not.\<close>

definition ex_peer :: "nat option \<Rightarrow> (Op, unit) Raft" where
  "ex_peer ch = (zero_Raft 3 0 MakePersister)\<lparr>
     Log := [\<lparr>CommandIndex = 0, Command = None, CommandTerm = 0\<rparr>,
             \<lparr>CommandIndex = 1, Command = Some (ex_op PUT ''v'' 0 ch), CommandTerm = 1\<rparr>], CommitIndex := 1\<rparr>"

lemma ex_peer_facts:
  "log_wf (Log (ex_peer ch))" "base_of (Log (ex_peer ch)) = 0" "last_of (Log (ex_peer ch)) = 1"
  "LastApplied (ex_peer ch) = 0" "CommitIndex (ex_peer ch) = 1"
  "log_map (Log (ex_peer ch)) 1 = Some \<lparr>CommandIndex = 1, Command = Some (ex_op PUT ''v'' 0 ch), CommandTerm = 1\<rparr>"
  by (simp_all add: ex_peer_def zero_Raft_def log_wf_def base_of_def last_of_def log_map_def idx_def)

theorem agreeing_logs_give_same_store_witness:
  "\<exists>rf' rg' kv' kw'. applyCommitted (ex_peer (Some 0)) = Some rf' \<and> applyCommitted (ex_peer None) = Some rg'
    \<and> run_all (handle_msg (\<lambda>x. []) ex_kdec) (new_msgs (ex_peer (Some 0)) rf') (ex_server 1) = Some kv'
    \<and> run_all (handle_msg (\<lambda>x. []) ex_kdec) (new_msgs (ex_peer None) rg') (ex_server 0) = Some kw'
    \<and> kv_record kv' = kv_record kw'"
proof -
  let ?f = "ex_peer (Some 0)" and ?g = "ex_peer None"
  have ok: "base_of (Log (ex_peer ch)) \<le> LastApplied (ex_peer ch)" "LastApplied (ex_peer ch) \<le> CommitIndex (ex_peer ch)"
    "CommitIndex (ex_peer ch) \<le> last_of (Log (ex_peer ch))" for ch by (simp_all add: ex_peer_facts)
  obtain rf' rg' where r: "applyCommitted ?f = Some rf'" "applyCommitted ?g = Some rg'"
    using applyCommitted_eq [OF ex_peer_facts(1) ok] by blast
  have one: "[LastApplied (ex_peer ch) + 1 .. CommitIndex (ex_peer ch)] = [1]" for ch
    by (simp add: ex_peer_facts upto_rec1)
  have m: "new_msgs ?f rf' = [ex_msg (ex_op PUT ''v'' 0 (Some 0))]" "new_msgs ?g rg' = [ex_msg (ex_op PUT ''v'' 0 None)]"
    using new_msgs_applied(1) [OF ex_peer_facts(1) ok r(1)] new_msgs_applied(1) [OF ex_peer_facts(1) ok r(2)]
    by (simp_all only: one) (simp_all add: ex_peer_facts apply_of_def ex_msg_def)
  obtain kv' kw' where k: "run_all (handle_msg (\<lambda>x. []) ex_kdec) (new_msgs ?f rf') (ex_server 1) = Some kv'"
    "run_all (handle_msg (\<lambda>x. []) ex_kdec) (new_msgs ?g rg') (ex_server 0) = Some kw'"
    unfolding m by (simp add: handle_msg_def ex_msg_def ex_op_def ex_server_def apply_op_def isUpToDate_def answer_def
        chan_send_def wants_snapshot_def execute_def kv_consts)
  have "logs_agree [LastApplied ?f + 1 .. CommitIndex ?f] (Log ?f) (Log ?g)"
    unfolding one by (simp add: logs_agree_def ex_peer_facts wireCmd_def ex_op_def dropChan_def)
  from agreeing_logs_give_same_store [OF ex_peer_facts(1) ok ex_peer_facts(1) ok _ _ this r k] r k show ?thesis
    by (auto simp: ex_peer_facts ex_server_def)
qed

section \<open>The service and the checker\<close>

text \<open>
  One server is linearizable, and the checker says so: apply any log of requests, with
  retries, to a fresh server, and take as history one operation for every request that was executed,
  with the reply of that execution. If the operations' times are consistent with the order of the log
  (no operation returns before one ahead of it in the log is called), then the checker, with enough
  turns, answers true, whatever the order in which the tests collected the operations.
\<close>

theorem served_history_passes_checker:
  assumes "sort_routine sorter" and "\<forall>xs. mset (shuffle xs) = mset xs"
    and "kv_record kv = Map.empty" and "serve es kv = Some (rs, kv')" and "\<forall>e \<in> set es. known_op e"
    and "map op_io ops = map (\<lambda>(e, r). (kv_input e, kv_output e r)) rs"
    and "sorted_wrt (\<lambda>p q. \<not> Return q < Call p) ops"
    and "mset history = mset ops" and "history \<noteq> []" and "timed history"
    and "mset is = mset [0..<card (op_key ` set history)]"
  shows "\<exists>F. \<forall>fuel \<ge> F. CheckOperations sorter (KvModel shuffle) fuel history is = Some (Some True)"
proof -
  have "\<forall>p \<in> set ops. kv_typed p"
  proof
    fix p
    assume "p \<in> set ops"
    then have "op_io p \<in> set (map op_io ops)" by simp
    then show "kv_typed p" unfolding assms(6) by (auto simp: op_io_def kv_typed_def kv_input_def kv_output_def)
  qed
  then have typed: "\<forall>p \<in> set history. kv_typed p" using mset_eq_setD [OF assms(8)] by simp
  have "accepts_run StoreStep (\<lambda>k. []) (map op_io ops)"
    using serve_accepts [OF assms(4,5)] assms(3) unfolding assms(6) by (simp add: value_of_def)
  then have "linearizable_ops StoreStep (\<lambda>k. []) history"
    using assms(7,8) unfolding linearizable_ops_def by metis
  with CheckOperations_kv_result [OF assms(1,2,9) typed assms(10,11)] show ?thesis by simp
qed

text \<open>An append, its retry and a get, as the tests record them.\<close>

theorem served_history_passes_checker_witness:
  "\<exists>rs kv'. serve [ex_op APPEND ''v'' 0 (Some 0), ex_op APPEND ''v'' 0 (Some 1), ex_op GET [] 1 (Some 2)] (ex_server 3)
      = Some (rs, kv')
    \<and> (\<exists>ops. map op_io ops = map (\<lambda>(e, r). (kv_input e, kv_output e r)) rs \<and> length ops = 2
       \<and> (\<exists>F. \<forall>fuel \<ge> F. CheckOperations (sort_key etime) (KvModel rev) fuel (rev ops) [0] = Some (Some True)))"
proof -
  let ?es = "[ex_op APPEND ''v'' 0 (Some 0), ex_op APPEND ''v'' 0 (Some 1), ex_op GET [] 1 (Some 2)]"
  let ?rs = "[(ex_op APPEND ''v'' 0 (Some 0), \<lparr>rReqId = 0, rResult = [], rErr = OK\<rparr>),
     (ex_op GET [] 1 (Some 2), \<lparr>rReqId = 1, rResult = ''v'', rErr = OK\<rparr>)]"
  have "map_option fst (serve ?es (ex_server 3)) = Some ?rs" by code_simp
  then obtain kv' where s: "serve ?es (ex_server 3) = Some (?rs, kv')" by auto
  let ?ops = "[\<lparr>Input = kv_input (ex_op APPEND ''v'' 0 (Some 0)), Call = 0, Output = KvOut \<lparr>KvOutValue = []\<rparr>, Return = 3\<rparr>,
     \<lparr>Input = kv_input (ex_op GET [] 1 (Some 2)), Call = 1, Output = KvOut \<lparr>KvOutValue = ''v''\<rparr>, Return = 2\<rparr>]"
  have io: "map op_io ?ops = map (\<lambda>(e, r). (kv_input e, kv_output e r)) ?rs"
    by (simp add: op_io_def kv_output_def ex_op_def kv_consts)
  have "op_key ` set (rev ?ops) = {''k''}" by (simp add: op_key_def kv_input_def ex_op_def)
  then have keys: "mset [0] = mset [0..<card (op_key ` set (rev ?ops))]" by simp
  have times: "timed (rev ?ops)" "sorted_wrt (\<lambda>p q. \<not> Return q < Call p) ?ops" "mset (rev ?ops) = mset ?ops"
    by (simp_all add: timed_def)
  have "\<forall>e \<in> set ?es. known_op e" "kv_record (ex_server 3) = Map.empty" "\<forall>xs. mset (rev xs) = mset xs"
    by (simp_all add: known_op_def ex_op_def ex_server_def)
  from served_history_passes_checker [OF key_sort.sort_routine_axioms this(3,2) s this(1) io times(2,3) _ times(1) keys]
  have "\<exists>F. \<forall>fuel \<ge> F. CheckOperations (sort_key etime) (KvModel rev) fuel (rev ?ops) [0] = Some (Some True)" by simp
  with s io show ?thesis by (intro exI [of _ ?rs] exI [of _ kv'] conjI exI [of _ ?ops]) simp_all
qed

end
